(* ===== verification/Prelude.thy ===== *)
theory Prelude
  imports Main "HOL-Library.AList" "HOL-Library.Char_ord" "HOL-Library.List_Lexorder"
    "HOL-Library.Multiset" "HOL-Library.Sublist"
begin

text \<open>
  Shared vocabulary of the development: error values and results, the parts of Go's
  \<open>strings\<close>, \<open>sort\<close> and map types that the server uses, and the generic lemmas
  on them.

  Go strings are modelled as \<open>string\<close> (a list of characters). All the characters the code
  gives a meaning to (slash, brackets, backslash, colon, equals, NUL, white space) are ASCII,
  and for ASCII text bytes and runes coincide, so byte offsets are list positions.

  A Go map is an association list: its order is the order in which one iteration visits the
  entries, \<open>map_of\<close> is the lookup and \<open>AList.update\<close> the assignment. A nil map and
  an empty map are both the empty list unless a definition says otherwise.
\<close>

section \<open>Results\<close>

text \<open>
  An error carries its format string and arguments, \<open>Wrap\<close> is \<open>%w\<close>,
  \<open>StatusErr\<close> a gRPC status, and \<open>GoPanic\<close> a run-time panic (nil dereference, index
  out of range), which the code does not return but dies of.
\<close>

datatype status_code = InvalidArgument | Internal | FailedPrecondition

datatype gerr =
    Errorf string "string list"
  | Wrap string "string list" gerr
  | StatusErr status_code string "string list"
  | GoPanic string

type_synonym 'a res = "gerr + 'a"

fun rbind :: "'a res \<Rightarrow> ('a \<Rightarrow> 'b res) \<Rightarrow> 'b res" where
  "rbind (Inl e) f = Inl e"
| "rbind (Inr a) f = f a"

fun traverse :: "('a \<Rightarrow> 'b res) \<Rightarrow> 'a list \<Rightarrow> 'b list res" where
  "traverse f [] = Inr []"
| "traverse f (x # xs) = rbind (f x) (\<lambda>y. rbind (traverse f xs) (\<lambda>ys. Inr (y # ys)))"

fun rfilter :: "('a \<Rightarrow> bool res) \<Rightarrow> 'a list \<Rightarrow> 'a list res" where
  "rfilter f [] = Inr []"
| "rfilter f (x # xs) = rbind (f x) (\<lambda>b. rbind (rfilter f xs) (\<lambda>ys. Inr (if b then x # ys else ys)))"

fun rfold :: "('s \<Rightarrow> 'a \<Rightarrow> 's res) \<Rightarrow> 's \<Rightarrow> 'a list \<Rightarrow> 's res" where
  "rfold f s [] = Inr s"
| "rfold f s (x # xs) = rbind (f s x) (\<lambda>s'. rfold f s' xs)"

lemma rfold_cong [fundef_cong]:
  "s = s' \<Longrightarrow> xs = ys \<Longrightarrow> (\<And>s x. x \<in> set ys \<Longrightarrow> f s x = g s x) \<Longrightarrow> rfold f s xs = rfold g s' ys"
proof (induction xs arbitrary: s s' ys)
  case (Cons x xs)
  then show ?case by (cases "g s' x") auto
qed simp

lemma rfold_invariant:
  "(\<And>s x s'. x \<in> set xs \<Longrightarrow> P s \<Longrightarrow> f s x = Inr s' \<Longrightarrow> P s') \<Longrightarrow> P s \<Longrightarrow> rfold f s xs = Inr s' \<Longrightarrow> P s'"
proof (induction xs arbitrary: s)
  case (Cons x xs)
  from Cons.prems(3) obtain s1 where s1: "f s x = Inr s1" "rfold f s1 xs = Inr s'"
    by (cases "f s x") auto
  then have "P s1" using Cons.prems(1,2) by (meson list.set_intros(1))
  with s1(2) Cons.IH Cons.prems(1) show ?case by (meson list.set_intros(2))
qed simp

lemma rfilter_pure: "(\<And>x. x \<in> set xs \<Longrightarrow> f x = Inr (P x)) \<Longrightarrow> rfilter f xs = Inr (filter P xs)"
  by (induction xs) auto

lemma rbind_cong [fundef_cong]:
  "m = m' \<Longrightarrow> (\<And>a. m' = Inr a \<Longrightarrow> f a = g a) \<Longrightarrow> rbind m f = rbind m' g"
  by (cases m') auto

lemma rbind_Inr_iff [simp]: "rbind m f = Inr b \<longleftrightarrow> (\<exists>a. m = Inr a \<and> f a = Inr b)"
  by (cases m) auto

lemma rbind_Inl_iff: "rbind m f = Inl e \<longleftrightarrow> m = Inl e \<or> (\<exists>a. m = Inr a \<and> f a = Inl e)"
  by (cases m) auto

lemma traverse_cong [fundef_cong]:
  "xs = ys \<Longrightarrow> (\<And>x. x \<in> set ys \<Longrightarrow> f x = g x) \<Longrightarrow> traverse f xs = traverse g ys"
  by (induction xs arbitrary: ys) auto

lemma traverse_map: "(\<And>x. x \<in> set xs \<Longrightarrow> f x = Inr (g x)) \<Longrightarrow> traverse f xs = Inr (map g xs)"
  by (induction xs) auto

lemma traverse_Inr_iff:
  "traverse f xs = Inr ys \<longleftrightarrow> list_all2 (\<lambda>x y. f x = Inr y) xs ys"
  by (induction xs arbitrary: ys) (auto simp: list_all2_Cons1)

lemma traverse_Inr_set:
  "traverse f xs = Inr ys \<Longrightarrow> y \<in> set ys \<Longrightarrow> \<exists>x\<in>set xs. f x = Inr y"
  by (induction xs arbitrary: ys) auto

section \<open>Go strings\<close>

text \<open>The characters with a meaning in paths are constants of their own: proofs use only that
  they are pairwise different, evaluation unfolds them with \<open>char_defs\<close>.\<close>

definition slash :: char where "slash = CHR ''/''"
definition colon :: char where "colon = CHR '':''"
definition eqsign :: char where "eqsign = CHR ''=''"
definition lbr :: char where "lbr = CHR ''[''"
definition rbr :: char where "rbr = CHR '']''"
definition bslash :: char where "bslash = CHR 0x5C"
definition nul :: char where "nul = CHR 0x00"

lemmas char_defs = slash_def colon_def eqsign_def lbr_def rbr_def bslash_def nul_def

lemma chars_neq [simp]:
  "slash \<noteq> colon" "slash \<noteq> eqsign" "slash \<noteq> lbr" "slash \<noteq> rbr" "slash \<noteq> bslash" "slash \<noteq> nul"
  "colon \<noteq> eqsign" "colon \<noteq> lbr" "colon \<noteq> rbr" "colon \<noteq> bslash" "colon \<noteq> nul"
  "eqsign \<noteq> lbr" "eqsign \<noteq> rbr" "eqsign \<noteq> bslash" "eqsign \<noteq> nul"
  "lbr \<noteq> rbr" "lbr \<noteq> bslash" "lbr \<noteq> nul" "rbr \<noteq> bslash" "rbr \<noteq> nul" "bslash \<noteq> nul"
  by (simp_all add: char_defs)

lemmas chars_neq' [simp] = chars_neq [symmetric]

text \<open>\<open>strings.Index(s, c)\<close> for a one-character separator; \<open>None\<close> stands for -1.\<close>

fun str_index :: "char \<Rightarrow> string \<Rightarrow> nat option" where
  "str_index c [] = None"
| "str_index c (x # xs) = (if x = c then Some 0 else map_option Suc (str_index c xs))"

lemma str_index_None: "str_index c s = None \<longleftrightarrow> c \<notin> set s"
  by (induction s) auto

lemma str_index_notin [simp]: "c \<notin> set s \<Longrightarrow> str_index c s = None"
  by (simp add: str_index_None)

lemma str_index_append:
  "c \<notin> set u \<Longrightarrow> str_index c (u @ c # v) = Some (length u)"
  by (induction u) auto

lemma str_index_Some:
  "str_index c s = Some i \<Longrightarrow> s = take i s @ c # drop (Suc i) s \<and> c \<notin> set (take i s) \<and> i < length s"
proof (induction s arbitrary: i)
  case Nil
  then show ?case by simp
next
  case (Cons x s)
  then show ?case by (cases "x = c") auto
qed

text \<open>\<open>strings.SplitN(s, c, 2)\<close> and \<open>strings.Cut\<close>.\<close>

definition splitN2 :: "char \<Rightarrow> string \<Rightarrow> string list" where
  "splitN2 c s = (case str_index c s of None \<Rightarrow> [s] | Some i \<Rightarrow> [take i s, drop (Suc i) s])"

definition str_cut :: "char \<Rightarrow> string \<Rightarrow> string \<times> string \<times> bool" where
  "str_cut c s = (case str_index c s of
     None \<Rightarrow> (s, [], False) | Some i \<Rightarrow> (take i s, drop (Suc i) s, True))"

text \<open>\<open>strings.Split(s, c)\<close> for a one-character separator.\<close>

fun str_split :: "char \<Rightarrow> string \<Rightarrow> string list" where
  "str_split c [] = [[]]"
| "str_split c (x # xs) =
     (if x = c then [] # str_split c xs
      else (case str_split c xs of [] \<Rightarrow> [[x]] | y # ys \<Rightarrow> (x # y) # ys))"

lemma str_split_no_sep: "c \<notin> set s \<Longrightarrow> str_split c s = [s]"
  by (induction s) auto

lemma str_split_append:
  "c \<notin> set u \<Longrightarrow> str_split c (u @ c # v) = u # str_split c v"
  by (induction u) auto

lemma str_split_not_Nil [simp]: "str_split c s \<noteq> []"
  by (induction s) (auto split: list.splits)

lemma str_split_sep: "p \<in> set (str_split c s) \<Longrightarrow> c \<notin> set p"
proof (induction s arbitrary: p)
  case Nil
  then show ?case by simp
next
  case (Cons x s)
  show ?case
  proof (cases "str_split c s")
    case Nil
    then show ?thesis by simp
  next
    case (Cons y ys)
    with Cons.IH Cons.prems show ?thesis by (auto split: if_splits)
  qed
qed

text \<open>\<open>strings.Contains\<close>, \<open>strings.HasPrefix\<close>, \<open>strings.HasSuffix\<close>,
  \<open>strings.Join\<close>, \<open>strings.Fields\<close> and \<open>strings.TrimSpace\<close>.\<close>

fun str_contains :: "string \<Rightarrow> string \<Rightarrow> bool" where
  "str_contains [] sub = (sub = [])"
| "str_contains (x # xs) sub = (prefix sub (x # xs) \<or> str_contains xs sub)"

lemma str_contains_sublist: "str_contains s sub \<longleftrightarrow> sublist sub s"
proof (induction s)
  case Nil
  then show ?case by simp
next
  case (Cons x s)
  then show ?case by (simp add: sublist_Cons_right)
qed

definition hasPrefix :: "string \<Rightarrow> string \<Rightarrow> bool" where
  "hasPrefix s p \<longleftrightarrow> take (length p) s = p"

definition hasSuffix :: "string \<Rightarrow> string \<Rightarrow> bool" where
  "hasSuffix s p \<longleftrightarrow> hasPrefix (rev s) (rev p)"

fun str_join :: "string \<Rightarrow> string list \<Rightarrow> string" where
  "str_join sep [] = []"
| "str_join sep [x] = x"
| "str_join sep (x # y # ys) = x @ sep @ str_join sep (y # ys)"

definition isSpace :: "char \<Rightarrow> bool" where
  "isSpace c \<longleftrightarrow> c \<in> {CHR '' '', CHR 0x09, CHR 0x0A, CHR 0x0B, CHR 0x0C, CHR 0x0D}"

fun fieldsAcc :: "string \<Rightarrow> string \<Rightarrow> string list" where
  "fieldsAcc [] acc = (if acc = [] then [] else [acc])"
| "fieldsAcc (c # cs) acc =
     (if isSpace c then (if acc = [] then fieldsAcc cs [] else acc # fieldsAcc cs [])
      else fieldsAcc cs (acc @ [c]))"

definition str_fields :: "string \<Rightarrow> string list" where
  "str_fields s = fieldsAcc s []"

definition trimSpace :: "string \<Rightarrow> string" where
  "trimSpace s = rev (dropWhile isSpace (rev (dropWhile isSpace s)))"

lemma hasSuffix_single: "hasSuffix s [c] \<longleftrightarrow> s \<noteq> [] \<and> last s = c"
  by (cases s rule: rev_cases) (auto simp: hasSuffix_def hasPrefix_def)

lemma last_notin: "c \<notin> set w \<Longrightarrow> d \<noteq> c \<Longrightarrow> last (d # w) \<noteq> c"
  by (metis last.simps last_in_set)

lemma hasSuffix_append [simp]: "hasSuffix (s @ p) p"
  by (simp add: hasSuffix_def hasPrefix_def)

lemma hasPrefix_prefix: "hasPrefix s p \<longleftrightarrow> prefix p s"
  by (auto simp: hasPrefix_def prefix_def) (metis append_take_drop_id)

section \<open>Go maps and sorting\<close>

text \<open>\<open>m[k]\<close> on a map of strings: the zero value where the key is absent.\<close>

definition map_get :: "(string \<times> string) list \<Rightarrow> string \<Rightarrow> string" where
  "map_get m k = (case map_of m k of None \<Rightarrow> [] | Some v \<Rightarrow> v)"

lemma map_get_in: "k \<in> set (map fst m) \<Longrightarrow> (k, map_get m k) \<in> set m"
proof -
  assume "k \<in> set (map fst m)"
  then obtain v where "map_of m k = Some v" by (metis domD dom_map_of_conv_image_fst set_map)
  then show ?thesis by (auto simp: map_get_def dest: map_of_SomeD)
qed

text \<open>
  \<open>sort.Slice\<close> and \<open>slices.SortFunc\<close> with a comparison function, as insertion sort.
  Go's sort is not stable; the uniqueness lemma of the locale below says that under a strict
  linear order on pairwise different keys every sorting algorithm returns this list.
\<close>

fun insert_by :: "('a \<Rightarrow> 'a \<Rightarrow> bool) \<Rightarrow> 'a \<Rightarrow> 'a list \<Rightarrow> 'a list" where
  "insert_by lt x [] = [x]"
| "insert_by lt x (y # ys) = (if lt y x then y # insert_by lt x ys else x # y # ys)"

fun sort_by :: "('a \<Rightarrow> 'a \<Rightarrow> bool) \<Rightarrow> 'a list \<Rightarrow> 'a list" where
  "sort_by lt [] = []"
| "sort_by lt (x # xs) = insert_by lt x (sort_by lt xs)"

lemma mset_insert_by [simp]: "mset (insert_by lt x xs) = add_mset x (mset xs)"
  by (induction xs) auto

lemma mset_sort_by [simp]: "mset (sort_by lt xs) = mset xs"
  by (induction xs) auto

lemma set_sort_by [simp]: "set (sort_by lt xs) = set xs"
  by (metis mset_sort_by set_mset_mset)

lemma length_sort_by [simp]: "length (sort_by lt xs) = length xs"
  by (metis mset_sort_by size_mset)

text \<open>The contract a comparison function owes to the sort routines.\<close>

locale strict_linear =
  fixes lt :: "'k \<Rightarrow> 'k \<Rightarrow> bool"
  assumes irrefl: "\<not> lt x x"
    and trans: "lt x y \<Longrightarrow> lt y z \<Longrightarrow> lt x z"
    and total: "x \<noteq> y \<Longrightarrow> lt x y \<or> lt y x"
begin

lemma asym: "lt x y \<Longrightarrow> \<not> lt y x"
  using irrefl trans by blast

lemma set_insert_by: "set (insert_by l x xs) = insert x (set xs)"
  by (metis mset_insert_by set_mset_add_mset_insert set_mset_mset)

lemma sorted_insert_by:
  "sorted_wrt (\<lambda>a b. \<not> lt (f b) (f a)) xs \<Longrightarrow>
   sorted_wrt (\<lambda>a b. \<not> lt (f b) (f a)) (insert_by (\<lambda>a b. lt (f a) (f b)) x xs)"
proof (induction xs)
  case Nil
  then show ?case by simp
next
  case (Cons y ys)
  have le: "\<not> lt (f z) (f x)" if "\<not> lt (f y) (f x)" "\<not> lt (f z) (f y)" for z
    using that trans total asym by metis
  show ?case
  proof (cases "lt (f y) (f x)")
    case True
    with Cons asym [OF True] show ?thesis by (auto simp: set_insert_by)
  next
    case False
    with Cons le [OF False] show ?thesis by auto
  qed
qed

lemma sorted_sort_by:
  "sorted_wrt (\<lambda>a b. \<not> lt (f b) (f a)) (sort_by (\<lambda>a b. lt (f a) (f b)) xs)"
  by (induction xs) (auto intro: sorted_insert_by)

text \<open>Two sorted arrangements of the same elements with different keys are equal.\<close>

lemma sorted_unique:
  assumes "sorted_wrt (\<lambda>a b. \<not> lt (f b) (f a)) xs" "sorted_wrt (\<lambda>a b. \<not> lt (f b) (f a)) ys"
    and "mset xs = mset ys" and "inj_on f (set xs)"
  shows "xs = ys"
  using assms
proof (induction xs arbitrary: ys)
  case Nil
  then show ?case by simp
next
  case (Cons x xs)
  from Cons.prems(3) obtain y ys' where ys: "ys = y # ys'" by (cases ys) auto
  have sets: "set (x # xs) = set (y # ys')" using Cons.prems(3) ys by (metis set_mset_mset)
  have "x = y"
  proof (rule ccontr)
    assume "x \<noteq> y"
    with sets have yx: "y \<in> set xs" and xy: "x \<in> set ys'" by auto
    from \<open>x \<noteq> y\<close> yx Cons.prems(4) have "f x \<noteq> f y" by (auto simp: inj_on_def)
    moreover from yx Cons.prems(1) have "\<not> lt (f y) (f x)" by simp
    moreover from xy Cons.prems(2) ys have "\<not> lt (f x) (f y)" by simp
    ultimately show False using total by blast
  qed
  with Cons ys show ?case by simp
qed

lemma sort_by_perm:
  assumes "mset xs = mset ys" and "inj_on f (set xs)"
  shows "sort_by (\<lambda>a b. lt (f a) (f b)) xs = sort_by (\<lambda>a b. lt (f a) (f b)) ys"
  by (rule sorted_unique [of f, OF sorted_sort_by sorted_sort_by]) (use assms in auto)

end

text \<open>\<open>sort.Strings\<close> is the library's \<open>sort\<close> on the lexicographic order; the order of a
  map iteration does not reach the sorted keys.\<close>

lemma sort_keys_perm:
  "mset m = mset m' \<Longrightarrow> sort (map fst m) = sort (map fst m')"
  for m :: "(string \<times> 'v) list"
  by (metis mset_map properties_for_sort sorted_sort mset_sort)

lemma map_of_perm:
  assumes "mset m = mset m'" and "distinct (map fst m)"
  shows "map_of m = map_of m'"
proof -
  have "distinct (map fst m')" using assms by (metis mset_eq_imp_distinct_iff mset_map)
  with assms show ?thesis
    by (intro map_of_inject_set [THEN iffD2]) (auto dest: mset_eq_setD)
qed

end
