(* ===== verification/XPath.thy ===== *)
theory XPath
  imports Prelude
begin

text \<open>
  \<open>pkg/utils/path.go\<close>: the xpath parser (\<open>ParsePath\<close>, \<open>toPathElems\<close>,
  \<open>toPathElem\<close>, \<open>parseXPathKeys\<close>), the printers (\<open>ToXPath\<close>,
  \<open>ToStrings\<close>, \<open>CompletePath\<close>) and the module order \<open>SortModulesAB\<close>.
  The lemmas show that parsing inverts the escaped rendering of a path, that \<open>ToXPath\<close> is
  that rendering where no bracket needs an escape, that printing does not depend on the order in
  which a key map is visited, and that the module order is a strict linear order.
\<close>

section \<open>Paths\<close>

text \<open>\<open>sdcpb.PathElem\<close> and \<open>sdcpb.Path\<close>, with the fields the server reads and writes.\<close>

record PathElem =
  pe_Name :: string
  pe_Key :: "(string \<times> string) list"

record Path =
  p_Origin :: string
  p_Target :: string
  p_Elem :: "PathElem list"

definition emptyPath :: Path where
  "emptyPath = \<lparr>p_Origin = [], p_Target = [], p_Elem = []\<rparr>"

section \<open>Parsing\<close>

definition errMalformedXPath :: gerr where
  "errMalformedXPath = Errorf ''malformed xpath'' []"

definition errMalformedXPathKey :: gerr where
  "errMalformedXPathKey = Errorf ''malformed xpath key'' []"

text \<open>\<open>strings.NewReplacer\<close> with the two bracket escapes: one left-to-right pass.\<close>

fun escapedBracketsReplacer :: "string \<Rightarrow> string" where
  "escapedBracketsReplacer (a # b # r) =
     (if a = bslash \<and> (b = rbr \<or> b = lbr) then b # escapedBracketsReplacer r
      else a # escapedBracketsReplacer (b # r))"
| "escapedBracketsReplacer s = s"

text \<open>The loop of \<open>parseXPathKeys\<close>: \<open>s\<close> is the whole text, the second argument what is
  left of it from position \<open>i\<close>.\<close>

primrec keysLoop :: "string \<Rightarrow> string \<Rightarrow> nat \<Rightarrow> bool \<Rightarrow> nat \<Rightarrow> char \<Rightarrow> (string \<times> string) list
    \<Rightarrow> ((string \<times> string) list \<times> bool) res" where
  "keysLoop s [] i inKey start prevRune kvs = Inr (kvs, inKey)"
| "keysLoop s (r # rs) i inKey start prevRune kvs =
     (if r = lbr then
        (if prevRune = bslash then keysLoop s rs (Suc i) inKey start r kvs
         else if inKey then Inl errMalformedXPathKey
         else keysLoop s rs (Suc i) True (Suc i) r kvs)
      else if r = rbr then
        (if prevRune = bslash then keysLoop s rs (Suc i) inKey start r kvs
         else if \<not> inKey then Inl errMalformedXPathKey
         else let kv = drop start (take i s) in
           (case str_index eqsign kv of
              None \<Rightarrow> Inl errMalformedXPathKey
            | Some eq \<Rightarrow>
                let k = take eq kv; v = drop (Suc eq) kv in
                if length k = 0 \<or> length v = 0 then Inl errMalformedXPathKey
                else keysLoop s rs (Suc i) False start r
                  (AList.update (escapedBracketsReplacer k) (escapedBracketsReplacer v) kvs)))
      else keysLoop s rs (Suc i) inKey start r kvs)"

definition parseXPathKeys :: "string \<Rightarrow> ((string \<times> string) list) res" where
  "parseXPathKeys s =
     (if length s = 0 then Inr []
      else rbind (keysLoop s s 0 False 0 nul [])
        (\<lambda>(kvs, inKey). if inKey then Inl errMalformedXPathKey else Inr kvs))"

text \<open>The search loop of \<open>toPathElem\<close> for the first bracket that is not escaped.\<close>

primrec bracketIdx :: "string \<Rightarrow> nat \<Rightarrow> char \<Rightarrow> nat option" where
  "bracketIdx [] i prevC = None"
| "bracketIdx (r # rs) i prevC =
     (if r = lbr \<and> prevC \<noteq> bslash then Some i else bracketIdx rs (Suc i) r)"

definition toPathElem :: "string \<Rightarrow> PathElem res" where
  "toPathElem s =
     (case bracketIdx s 0 nul of
        Some idx \<Rightarrow>
          (if idx > 0
           then rbind (parseXPathKeys (drop idx s))
             (\<lambda>kvs. Inr \<lparr>pe_Name = take idx s, pe_Key = kvs\<rparr>)
           else Inr \<lparr>pe_Name = s, pe_Key = []\<rparr>)
      | None \<Rightarrow> Inr \<lparr>pe_Name = s, pe_Key = []\<rparr>)"

text \<open>The scan of \<open>toPathElems\<close>: slashes outside keys become NUL in the buffer.\<close>

primrec scanElems :: "string \<Rightarrow> string \<Rightarrow> char \<Rightarrow> bool \<Rightarrow> (string \<times> bool) res" where
  "scanElems [] buffer prevC inKey = Inr (buffer, inKey)"
| "scanElems (r # rs) buffer prevC inKey =
     (if r = lbr then
        (if inKey \<and> prevC \<noteq> bslash then Inl errMalformedXPath
         else scanElems rs (buffer @ [r]) r (if prevC \<noteq> bslash then True else inKey))
      else if r = rbr then
        (if \<not> inKey \<and> prevC \<noteq> bslash then Inl errMalformedXPath
         else scanElems rs (buffer @ [r]) r (if prevC \<noteq> bslash then False else inKey))
      else if r = slash \<and> \<not> inKey then scanElems rs (buffer @ [nul]) r inKey
      else scanElems rs (buffer @ [r]) r inKey)"

definition toPathElems :: "string \<Rightarrow> (PathElem list) res" where
  "toPathElems p =
     (let p' = (if hasSuffix p [slash] then p else p @ [slash]) in
      rbind (scanElems p' [] nul False)
        (\<lambda>(buffer, inKey).
           if inKey then Inl errMalformedXPath
           else traverse toPathElem (filter (\<lambda>s. s \<noteq> []) (str_split nul buffer))))"

text \<open>The guard under which \<open>ParsePath\<close> takes the text before the first colon as the origin.\<close>

definition originIdx :: "string \<Rightarrow> nat option" where
  "originIdx p =
     (case str_index colon p of
        None \<Rightarrow> None
      | Some idx \<Rightarrow>
          (if hd p \<noteq> slash \<and> slash \<notin> set (take idx p) \<and>
              ((idx + 1 < length p \<and> p ! (idx + 1) = slash) \<or> length p = idx + 1)
           then Some idx else None))"

definition ParsePath :: "string \<Rightarrow> Path res" where
  "ParsePath p =
     (if length p = 0 then Inr emptyPath
      else
        let (origin, p') = (case originIdx p of
              Some idx \<Rightarrow> (take idx p, drop (idx + 1) p) | None \<Rightarrow> ([], p)) in
        rbind (toPathElems p')
          (\<lambda>pes. Inr \<lparr>p_Origin = origin, p_Target = [], p_Elem = pes\<rparr>))"

section \<open>Printing\<close>

definition sortedVals :: "(string \<times> string) list \<Rightarrow> string list" where
  "sortedVals m = (case m of [(k, v)] \<Rightarrow> [v] | _ \<Rightarrow> map (map_get m) (sort (map fst m)))"

definition ToStrings :: "Path option \<Rightarrow> bool \<Rightarrow> bool \<Rightarrow> string list" where
  "ToStrings po pfx nokeys =
     (case po of
        None \<Rightarrow> []
      | Some p \<Rightarrow>
          (if pfx then (if p_Target p \<noteq> [] then [p_Target p] else []) @
                          (if p_Origin p \<noteq> [] then [p_Origin p] else [])
           else []) @
          concat (map (\<lambda>e. pe_Name e # (if nokeys then [] else sortedVals (pe_Key e))) (p_Elem p)))"

definition getOrigin :: "Path option \<Rightarrow> string" where
  "getOrigin po = (case po of None \<Rightarrow> [] | Some p \<Rightarrow> p_Origin p)"

definition CompletePath :: "Path option \<Rightarrow> Path option \<Rightarrow> (string list) res" where
  "CompletePath pfx path =
     (let oPre = getOrigin pfx; oPath = getOrigin path;
          indexedPrefix = ToStrings pfx False False in
      if oPre \<noteq> [] \<and> oPath \<noteq> [] then
        Inl (Errorf ''origin is set both in prefix and path'' [])
      else if oPre \<noteq> [] then Inr ((oPre # indexedPrefix) @ ToStrings path False False)
      else if oPath \<noteq> [] then
        (if length indexedPrefix > 0
         then Inl (Errorf ''path elements in prefix are set even though origin is set in path'' [])
         else Inr ([oPath] @ ToStrings path False False))
      else Inr (indexedPrefix @ ToStrings path False False))"

definition printKey :: "(string \<times> string) list \<Rightarrow> string \<Rightarrow> string" where
  "printKey m k = [lbr] @ k @ [eqsign] @ map_get m k @ [rbr]"

definition printElem :: "bool \<Rightarrow> PathElem \<Rightarrow> string" where
  "printElem noKeys pe =
     pe_Name pe @ (if noKeys then [] else concat (map (printKey (pe_Key pe)) (sort (map fst (pe_Key pe)))))"

definition ToXPath :: "Path option \<Rightarrow> bool \<Rightarrow> string" where
  "ToXPath po noKeys =
     (case po of
        None \<Rightarrow> []
      | Some p \<Rightarrow>
          (if p_Origin p \<noteq> [] then p_Origin p @ [colon] else []) @
          str_join [slash] (map (printElem noKeys) (p_Elem p)))"

section \<open>Module order\<close>

text \<open>\<open>containsMod\<close> is the search loop over the deprioritized modules, \<open>DeprioritizedModules\<close>
  the list of \<open>pkg/config/schema.go\<close>.\<close>

fun containsMod :: "string \<Rightarrow> string list \<Rightarrow> bool" where
  "containsMod a [] = False"
| "containsMod a (s # ss) = (if str_contains a s then True else containsMod a ss)"

definition SortModulesAB :: "string \<Rightarrow> string \<Rightarrow> string list \<Rightarrow> bool" where
  "SortModulesAB a b deprioritizedModules =
     (let containsModA = containsMod a deprioritizedModules;
          containsModB = containsMod b deprioritizedModules in
      if containsModA = containsModB then a < b
      else \<not> containsModA \<and> containsModB)"

definition DeprioritizedModules :: "string list" where
  "DeprioritizedModules = [''ietf'', ''iana'']"

interpretation module_order: strict_linear "\<lambda>a b. SortModulesAB a b dep"
  by unfold_locales (auto simp: SortModulesAB_def Let_def split: if_splits)

section \<open>Escaped rendering\<close>

fun escapeBrackets :: "string \<Rightarrow> string" where
  "escapeBrackets [] = []"
| "escapeBrackets (c # cs) =
     (if c = lbr \<or> c = rbr then bslash # c # escapeBrackets cs else c # escapeBrackets cs)"

definition renderKey :: "string \<times> string \<Rightarrow> string" where
  "renderKey kv = lbr # escapeBrackets (fst kv) @ eqsign # escapeBrackets (snd kv) @ [rbr]"

definition renderElem :: "PathElem \<Rightarrow> string" where
  "renderElem e = pe_Name e @ concat (map renderKey (pe_Key e))"

definition renderPath :: "Path \<Rightarrow> string" where
  "renderPath p = str_join [slash] (map renderElem (p_Elem p))"

definition keyOk :: "string \<times> string \<Rightarrow> bool" where
  "keyOk kv \<longleftrightarrow> fst kv \<noteq> [] \<and> snd kv \<noteq> [] \<and> eqsign \<notin> set (fst kv) \<and>
     {bslash, nul} \<inter> (set (fst kv) \<union> set (snd kv)) = {}"

definition elemOk :: "PathElem \<Rightarrow> bool" where
  "elemOk e \<longleftrightarrow> pe_Name e \<noteq> [] \<and> {slash, lbr, rbr, bslash, nul} \<inter> set (pe_Name e) = {} \<and>
     distinct (map fst (pe_Key e)) \<and> list_all keyOk (pe_Key e)"

lemma unescape_escape:
  "bslash \<notin> set s \<Longrightarrow> escapedBracketsReplacer (escapeBrackets s) = s"
proof (induction s)
  case Nil
  then show ?case by simp
next
  case (Cons c s)
  show ?case
  proof (cases "escapeBrackets s")
    case Nil
    with Cons show ?thesis by auto
  next
    case (Cons d r)
    with Cons.IH Cons.prems show ?thesis by auto
  qed
qed

lemma set_escape: "set (escapeBrackets s) \<subseteq> insert bslash (set s)"
  by (induction s) auto

lemma escape_nil [simp]: "escapeBrackets s = [] \<longleftrightarrow> s = []"
  by (cases s) auto

lemma escape_char: "c \<noteq> bslash \<Longrightarrow> c \<in> set (escapeBrackets s) \<longleftrightarrow> c \<in> set s"
  by (induction s) auto

lemma last_escape_eq: "s \<noteq> [] \<Longrightarrow> last (escapeBrackets s) = last s"
  by (induction s) auto

lemma last_escape:
  assumes "bslash \<notin> set s" "c \<noteq> bslash"
  shows "last (c # escapeBrackets s) \<noteq> bslash"
  using assms by (metis escape_nil last.simps last_escape_eq last_notin)

lemma scan_name:
  "{slash, lbr, rbr} \<inter> set w = {} \<Longrightarrow>
   scanElems (w @ rest) buffer prevC False = scanElems rest (buffer @ w) (last (prevC # w)) False"
  by (induction w arbitrary: buffer prevC) auto

lemma scan_escaped:
  "bslash \<notin> set w \<Longrightarrow> prevC \<noteq> bslash \<Longrightarrow>
   scanElems (escapeBrackets w @ rest) buffer prevC True =
   scanElems rest (buffer @ escapeBrackets w) (last (prevC # escapeBrackets w)) True"
proof (induction w arbitrary: buffer prevC)
  case Nil
  then show ?case by simp
next
  case (Cons c w)
  then show ?case by auto
qed

lemma scan_key:
  assumes "keyOk kv" "prevC \<noteq> bslash"
  shows "scanElems (renderKey kv @ rest) buffer prevC False =
    scanElems rest (buffer @ renderKey kv) rbr False"
proof -
  from assms(1) have k: "bslash \<notin> set (fst kv)" and v: "bslash \<notin> set (snd kv)"
    by (auto simp: keyOk_def)
  have "last (lbr # escapeBrackets (fst kv)) \<noteq> bslash"
    and l2: "last (eqsign # escapeBrackets (snd kv)) \<noteq> bslash"
    using last_escape [OF k, of lbr] last_escape [OF v, of eqsign] by simp_all
  then show ?thesis using assms(2)
    by (simp add: renderKey_def scan_escaped [OF k] scan_escaped [OF v] del: last.simps)
qed

lemma scan_keys:
  "list_all keyOk kvs \<Longrightarrow> prevC \<noteq> bslash \<Longrightarrow>
   \<exists>c. c \<noteq> bslash \<and> scanElems (concat (map renderKey kvs) @ rest) buffer prevC False =
     scanElems rest (buffer @ concat (map renderKey kvs)) c False"
proof (induction kvs arbitrary: buffer prevC)
  case Nil
  then show ?case by auto
next
  case (Cons kv kvs)
  then have "\<exists>c. c \<noteq> bslash \<and> scanElems (concat (map renderKey kvs) @ rest) (buffer @ renderKey kv) rbr False =
     scanElems rest ((buffer @ renderKey kv) @ concat (map renderKey kvs)) c False"
    using Cons.IH [of rbr "buffer @ renderKey kv"] by simp
  with Cons.prems scan_key [of kv prevC] show ?case by simp
qed

lemma scan_elem:
  assumes "elemOk e" "prevC \<noteq> bslash"
  shows "\<exists>c. c \<noteq> bslash \<and> scanElems (renderElem e @ rest) buffer prevC False =
     scanElems rest (buffer @ renderElem e) c False"
proof -
  let ?n = "pe_Name e"
  from assms(1) have n: "{slash, lbr, rbr} \<inter> set ?n = {}" "bslash \<notin> set ?n" "list_all keyOk (pe_Key e)"
    by (auto simp: elemOk_def)
  have "last (prevC # ?n) \<noteq> bslash"
    by (rule last_notin [OF n(2) assms(2)])
  from scan_keys [OF n(3) this, of rest "buffer @ ?n"] show ?thesis
    by (simp add: renderElem_def scan_name [OF n(1)] del: last.simps)
qed

text \<open>A slash ends every element: the buffer is the rendered elements, each closed by NUL.\<close>

lemma scan_path:
  "list_all elemOk es \<Longrightarrow> prevC \<noteq> bslash \<Longrightarrow>
   scanElems (concat (map (\<lambda>e. renderElem e @ [slash]) es)) buffer prevC False =
   Inr (buffer @ concat (map (\<lambda>e. renderElem e @ [nul]) es), False)"
proof (induction es arbitrary: buffer prevC)
  case Nil
  then show ?case by simp
next
  case (Cons e es)
  let ?rest = "slash # concat (map (\<lambda>e. renderElem e @ [slash]) es)"
  from Cons.prems obtain c where
    "scanElems (renderElem e @ ?rest) buffer prevC False = scanElems ?rest (buffer @ renderElem e) c False"
    using scan_elem [of e prevC ?rest buffer] by auto
  with Cons show ?case by simp
qed

lemma join_slash:
  "es \<noteq> [] \<Longrightarrow> str_join [slash] (map renderElem es) @ [slash] = concat (map (\<lambda>e. renderElem e @ [slash]) es)"
  by (induction es rule: induct_list012) auto

lemma nul_renderElem: "elemOk e \<Longrightarrow> nul \<notin> set (renderElem e)"
  by (auto simp: elemOk_def renderElem_def renderKey_def keyOk_def list_all_iff escape_char)

lemma renderElem_not_Nil: "elemOk e \<Longrightarrow> renderElem e \<noteq> []"
  by (auto simp: elemOk_def renderElem_def)

lemma split_buffer:
  "list_all elemOk es \<Longrightarrow>
   filter (\<lambda>s. s \<noteq> []) (str_split nul (concat (map (\<lambda>e. renderElem e @ [nul]) es))) = map renderElem es"
  by (induction es) (auto simp: str_split_append nul_renderElem renderElem_not_Nil)

lemma keys_escaped:
  "bslash \<notin> set w \<Longrightarrow> prevRune \<noteq> bslash \<Longrightarrow>
   keysLoop s (escapeBrackets w @ rest) i True start prevRune kvs =
   keysLoop s rest (i + length (escapeBrackets w)) True start (last (prevRune # escapeBrackets w)) kvs"
  by (induction w arbitrary: i prevRune) auto

lemma keys_close:
  assumes "drop start (take i s) = k @ eqsign # v" "eqsign \<notin> set k" "k \<noteq> []" "v \<noteq> []"
    and "prevRune \<noteq> bslash"
  shows "keysLoop s (rbr # rest) i True start prevRune kvs =
    keysLoop s rest (Suc i) False start rbr
      (AList.update (escapedBracketsReplacer k) (escapedBracketsReplacer v) kvs)"
  using assms(3-5) by (simp add: assms(1) str_index_append [OF assms(2)])

lemma keys_block:
  assumes "keyOk kv" "prevRune \<noteq> bslash" "fst kv \<notin> fst ` set kvs"
  shows "keysLoop (pre @ renderKey kv @ rest) (renderKey kv @ rest) (length pre) False start prevRune kvs =
    keysLoop (pre @ renderKey kv @ rest) rest (length (pre @ renderKey kv)) False (Suc (length pre)) rbr
      (kvs @ [kv])"
proof -
  let ?s = "pre @ renderKey kv @ rest" and ?k = "escapeBrackets (fst kv)" and ?v = "escapeBrackets (snd kv)"
  from assms(1) have k: "bslash \<notin> set (fst kv)" and v: "bslash \<notin> set (snd kv)"
    and ne: "fst kv \<noteq> []" "snd kv \<noteq> []" and eq: "eqsign \<notin> set ?k"
    by (auto simp: keyOk_def escape_char)
  have l1: "last (lbr # ?k) \<noteq> bslash" and l2: "last (eqsign # ?v) \<noteq> bslash"
    using last_escape [OF k, of lbr] last_escape [OF v, of eqsign] by simp_all
  have body: "drop (Suc (length pre)) (take (Suc (Suc (length pre + length ?k + length ?v))) ?s) = ?k @ eqsign # ?v"
    by (simp add: renderKey_def)
  have upd: "AList.update (fst kv) (snd kv) kvs = kvs @ [kv]"
    using assms(3) by (induction kvs) auto
  have "keysLoop ?s (renderKey kv @ rest) (length pre) False start prevRune kvs =
      keysLoop ?s (?k @ eqsign # ?v @ rbr # rest) (Suc (length pre)) True (Suc (length pre)) lbr kvs"
    using assms(2) by (simp add: renderKey_def)
  also have "\<dots> = keysLoop ?s (?v @ rbr # rest) (Suc (Suc (length pre + length ?k))) True (Suc (length pre)) eqsign kvs"
    using l1 by (simp add: keys_escaped [OF k] del: last.simps)
  also have "\<dots> = keysLoop ?s (rbr # rest) (Suc (Suc (length pre + length ?k + length ?v))) True
      (Suc (length pre)) (last (eqsign # ?v)) kvs"
    by (simp add: keys_escaped [OF v] del: last.simps)
  also have "\<dots> = keysLoop ?s rest (length (pre @ renderKey kv)) False (Suc (length pre)) rbr (kvs @ [kv])"
    using keys_close [OF body eq _ _ l2] ne
    by (simp add: upd unescape_escape [OF k] unescape_escape [OF v] renderKey_def add.assoc del: last.simps keysLoop.simps)
  finally show ?thesis .
qed

lemma keys_all:
  "list_all keyOk ks \<Longrightarrow> prevRune \<noteq> bslash \<Longrightarrow> distinct (map fst (kvs @ ks)) \<Longrightarrow>
   \<exists>st i. keysLoop (pre @ concat (map renderKey ks)) (concat (map renderKey ks)) (length pre) False start prevRune kvs
     = Inr (kvs @ ks, False)"
proof (induction ks arbitrary: pre start prevRune kvs)
  case Nil
  then show ?case by simp
next
  case (Cons kv ks)
  let ?rest = "concat (map renderKey ks)"
  from Cons.prems have ok: "keyOk kv" "fst kv \<notin> fst ` set kvs" by auto
  have "keysLoop ((pre @ renderKey kv) @ ?rest) ?rest (length (pre @ renderKey kv)) False
      (Suc (length pre)) rbr (kvs @ [kv]) = Inr ((kvs @ [kv]) @ ks, False)"
    using Cons.IH [of rbr "kvs @ [kv]" "pre @ renderKey kv"] Cons.prems by simp
  then show ?case using keys_block [OF ok(1) Cons.prems(2) ok(2), of pre ?rest start] by simp
qed

lemma bracketIdx_skip:
  "lbr \<notin> set w \<Longrightarrow> bracketIdx (w @ rest) i prevC = bracketIdx rest (i + length w) (last (prevC # w))"
  by (induction w arbitrary: i prevC) auto

lemma toPathElem_render:
  assumes "elemOk e"
  shows "toPathElem (renderElem e) = Inr e"
proof -
  let ?n = "pe_Name e" and ?ks = "concat (map renderKey (pe_Key e))"
  from assms have n: "?n \<noteq> []" "lbr \<notin> set ?n" "bslash \<notin> set ?n" "list_all keyOk (pe_Key e)"
    "distinct (map fst (pe_Key e))"
    by (auto simp: elemOk_def)
  show ?thesis
  proof (cases "pe_Key e")
    case Nil
    then show ?thesis using bracketIdx_skip [OF n(2), of "[]" 0 nul]
      by (cases e) (simp add: toPathElem_def renderElem_def)
  next
    case (Cons kv ks)
    have l: "last (nul # ?n) \<noteq> bslash" by (rule last_notin [OF n(3)]) simp
    have idx: "bracketIdx (renderElem e) 0 nul = Some (length ?n)"
      using bracketIdx_skip [OF n(2), of ?ks 0 nul] l Cons
      by (simp add: renderElem_def renderKey_def del: last.simps)
    have "parseXPathKeys ?ks = Inr (pe_Key e)"
      using keys_all [of "pe_Key e" nul "[]" "[]"] n Cons
      by (simp add: parseXPathKeys_def renderKey_def)
    with n(1) show ?thesis
      by (simp add: toPathElem_def idx) (simp add: renderElem_def)
  qed
qed

lemma last_renderElem: "elemOk e \<Longrightarrow> last (renderElem e) \<noteq> slash"
proof (cases "pe_Key e" rule: rev_cases)
  case Nil
  assume "elemOk e"
  with Nil show ?thesis by (auto simp: elemOk_def renderElem_def) (metis last_in_set)
next
  case (snoc ks kv)
  then show ?thesis by (simp add: renderElem_def renderKey_def)
qed

lemma last_join:
  "es \<noteq> [] \<Longrightarrow> list_all elemOk es \<Longrightarrow>
   str_join [slash] (map renderElem es) \<noteq> [] \<and> last (str_join [slash] (map renderElem es)) \<noteq> slash"
  by (induction es rule: induct_list012) (auto simp: last_renderElem renderElem_not_Nil)

lemma traverse_render: "list_all elemOk es \<Longrightarrow> traverse toPathElem (map renderElem es) = Inr es"
  by (induction es) (auto simp: toPathElem_render)

text \<open>Both the relative and the absolute form (with a leading slash) of the rendering parse back.\<close>

lemma toPathElems_render:
  assumes "list_all elemOk es" "lead = [] \<or> lead = [slash]"
  shows "toPathElems (lead @ str_join [slash] (map renderElem es)) = Inr es"
proof (cases "es = []")
  case True
  have "toPathElems [] = Inr []" "toPathElems [slash] = Inr []"
    by (simp_all add: toPathElems_def hasSuffix_single Let_def)
  with True assms(2) show ?thesis by auto
next
  case False
  let ?p = "str_join [slash] (map renderElem es)"
  have nosuffix: "\<not> hasSuffix (lead @ ?p) [slash]"
    using last_join [OF False assms(1)] by (simp add: hasSuffix_single)
  have buf: "scanElems ((lead @ ?p) @ [slash]) [] nul False =
      Inr ((if lead = [] then [] else [nul]) @ concat (map (\<lambda>e. renderElem e @ [nul]) es), False)"
    using assms by (auto simp: join_slash [OF False] scan_path)
  have "filter (\<lambda>s. s \<noteq> []) (str_split nul ((if lead = [] then [] else [nul]) @
      concat (map (\<lambda>e. renderElem e @ [nul]) es))) = map renderElem es"
    using split_buffer [OF assms(1)] by simp
  with nosuffix show ?thesis
    using traverse_render [OF assms(1)]
    by (simp only: toPathElems_def Let_def if_False buf rbind.simps prod.case)
qed

lemma ParsePath_render:
  assumes "list_all elemOk (p_Elem p)" "p_Origin p = []" "p_Target p = []"
  shows "ParsePath (slash # renderPath p) = Inr p"
proof -
  have "originIdx (slash # renderPath p) = None"
    by (auto simp: originIdx_def split: option.split)
  with toPathElems_render [OF assms(1), of "[slash]"] assms(2,3) show ?thesis
    by (simp add: ParsePath_def renderPath_def)
qed

text \<open>C2: parsing inverts rendering. For every path without origin whose names, keys and
  values are non-empty and free of the reserved characters (brackets in keys and values are
  escaped, slashes and brackets allowed there), \<open>ParsePath\<close> of its absolute rendering returns
  exactly that path: names, keys, values and their order.\<close>

theorem ParsePath_rendered:
  assumes "list_all elemOk (p_Elem p)" "p_Origin p = []" "p_Target p = []"
  shows "ParsePath (slash # renderPath p) = Inr p"
  by (rule ParsePath_render [OF assms])

theorem ParsePath_rendered_witness:
  "ParsePath (slash # renderPath \<lparr>p_Origin = [], p_Target = [], p_Elem =
     [\<lparr>pe_Name = ''interface'', pe_Key = [(''name'', ''ethernet-1/1'')]\<rparr>,
      \<lparr>pe_Name = ''subinterface'', pe_Key = [(''index'', ''[0]'')]\<rparr>]\<rparr>) =
   Inr \<lparr>p_Origin = [], p_Target = [], p_Elem =
     [\<lparr>pe_Name = ''interface'', pe_Key = [(''name'', ''ethernet-1/1'')]\<rparr>,
      \<lparr>pe_Name = ''subinterface'', pe_Key = [(''index'', ''[0]'')]\<rparr>]\<rparr>"
  by (rule ParsePath_rendered) (simp_all add: elemOk_def keyOk_def char_defs)

text \<open>A text of the form \<open>origin:/path\<close> parses to the path with that origin, for every
  origin without colon and slash and every well-formed element list.\<close>

theorem ParsePath_origin:
  assumes "list_all elemOk (p_Elem p)" "p_Target p = []" "{colon, slash} \<inter> set (p_Origin p) = {}"
  shows "ParsePath (p_Origin p @ [colon, slash] @ renderPath p) = Inr p"
proof -
  let ?o = "p_Origin p"
  have "hd (?o @ colon # slash # renderPath p) \<noteq> slash"
    using assms(3) by (cases ?o) auto
  then have "originIdx (?o @ [colon, slash] @ renderPath p) = Some (length ?o)"
    using assms(3) str_index_append [of colon ?o "slash # renderPath p"]
    by (simp add: originIdx_def nth_append)
  with toPathElems_render [OF assms(1), of "[slash]"] assms(2) show ?thesis
    by (simp add: ParsePath_def renderPath_def)
qed

theorem ParsePath_origin_witness:
  "ParsePath (''srl'' @ [colon, slash] @ renderPath \<lparr>p_Origin = ''srl'', p_Target = [], p_Elem =
     [\<lparr>pe_Name = ''interface'', pe_Key = [(''name'', ''ethernet-1/1'')]\<rparr>,
      \<lparr>pe_Name = ''subinterface'', pe_Key = [(''index'', ''0'')]\<rparr>]\<rparr>) =
   Inr \<lparr>p_Origin = ''srl'', p_Target = [], p_Elem =
     [\<lparr>pe_Name = ''interface'', pe_Key = [(''name'', ''ethernet-1/1'')]\<rparr>,
      \<lparr>pe_Name = ''subinterface'', pe_Key = [(''index'', ''0'')]\<rparr>]\<rparr>"
  using ParsePath_origin [of "\<lparr>p_Origin = ''srl'', p_Target = [], p_Elem =
     [\<lparr>pe_Name = ''interface'', pe_Key = [(''name'', ''ethernet-1/1'')]\<rparr>,
      \<lparr>pe_Name = ''subinterface'', pe_Key = [(''index'', ''0'')]\<rparr>]\<rparr>"]
  by (simp add: elemOk_def keyOk_def char_defs)

definition sortKeys :: "PathElem \<Rightarrow> PathElem" where
  "sortKeys e = e\<lparr>pe_Key := map (\<lambda>k. (k, map_get (pe_Key e) k)) (sort (map fst (pe_Key e)))\<rparr>"

definition noBrackets :: "PathElem \<Rightarrow> bool" where
  "noBrackets e \<longleftrightarrow> (\<forall>kv\<in>set (pe_Key e). {lbr, rbr} \<inter> (set (fst kv) \<union> set (snd kv)) = {})"

lemma escape_id: "{lbr, rbr} \<inter> set s = {} \<Longrightarrow> escapeBrackets s = s"
  by (induction s) auto

lemma sortKeys_subset: "set (pe_Key (sortKeys e)) \<subseteq> set (pe_Key e)"
  by (auto simp: sortKeys_def intro!: map_get_in rev_image_eqI)

lemma elemOk_sortKeys: "elemOk e \<Longrightarrow> elemOk (sortKeys e)"
  using sortKeys_subset [of e]
  by (auto simp: elemOk_def sortKeys_def list_all_iff o_def dest!: subsetD)

lemma printElem_render:
  assumes "noBrackets e"
  shows "printElem False e = renderElem (sortKeys e)"
proof -
  have "renderKey (k, map_get (pe_Key e) k) = printKey (pe_Key e) k" if "k \<in> set (map fst (pe_Key e))" for k
    using assms map_get_in [OF that] by (auto simp: noBrackets_def renderKey_def printKey_def escape_id)
  then show ?thesis
    by (simp add: printElem_def renderElem_def sortKeys_def o_def)
       (metis (no_types, lifting) map_eq_conv set_sort set_map)
qed



text \<open>\<open>ToXPath\<close> writes an origin as \<open>origin:elem\<close> with no slash, which
  \<open>ParsePath\<close> does not take for an origin: a path with an origin and at least one element is
  never read back.\<close>

theorem ToXPath_origin_lost:
  assumes "list_all elemOk (p_Elem p)" "p_Elem p \<noteq> []" "p_Origin p \<noteq> []" "colon \<notin> set (p_Origin p)"
  shows "ParsePath (ToXPath (Some p) noKeys) \<noteq> Inr p"
proof -
  let ?o = "p_Origin p"
  obtain e es where es: "p_Elem p = e # es" using assms(2) by (cases "p_Elem p") auto
  with assms(1) obtain c n where n: "pe_Name e = c # n" "c \<noteq> slash"
    by (cases "pe_Name e") (auto simp: elemOk_def)
  have "\<exists>r. str_join [slash] (map (printElem noKeys) (p_Elem p)) = c # r"
    by (cases es) (auto simp: es printElem_def n(1))
  then obtain r where x: "ToXPath (Some p) noKeys = ?o @ colon # c # r"
    using assms(3) by (auto simp: ToXPath_def)
  have "originIdx (ToXPath (Some p) noKeys) = None"
    using str_index_append [OF assms(4), of "c # r"] n(2) by (simp add: x originIdx_def nth_append)
  then show ?thesis using assms(3) by (auto simp: ParsePath_def x)
qed

theorem ToXPath_origin_lost_witness:
  "ParsePath (ToXPath (Some \<lparr>p_Origin = ''srl'', p_Target = [], p_Elem =
     [\<lparr>pe_Name = ''interface'', pe_Key = [(''name'', ''ethernet-1/1'')]\<rparr>,
      \<lparr>pe_Name = ''subinterface'', pe_Key = [(''index'', ''0'')]\<rparr>]\<rparr>) True) \<noteq>
   Inr \<lparr>p_Origin = ''srl'', p_Target = [], p_Elem =
     [\<lparr>pe_Name = ''interface'', pe_Key = [(''name'', ''ethernet-1/1'')]\<rparr>,
      \<lparr>pe_Name = ''subinterface'', pe_Key = [(''index'', ''0'')]\<rparr>]\<rparr>"
  by (rule ToXPath_origin_lost) (simp_all add: elemOk_def keyOk_def char_defs)

definition keysOk :: "(string \<times> string) list \<Rightarrow> bool" where
  "keysOk kvs \<longleftrightarrow> distinct (map fst kvs) \<and> list_all (\<lambda>kv. fst kv \<noteq> [] \<and> snd kv \<noteq> []) kvs"

lemma replacer_nil [simp]: "escapedBracketsReplacer s = [] \<longleftrightarrow> s = []"
  by (cases s rule: escapedBracketsReplacer.cases) auto

lemma keysOk_update:
  "keysOk kvs \<Longrightarrow> k \<noteq> [] \<Longrightarrow> v \<noteq> [] \<Longrightarrow> keysOk (AList.update k v kvs)"
proof -
  assume a: "keysOk kvs" "k \<noteq> []" "v \<noteq> []"
  have "set (AList.update k v kvs) \<subseteq> insert (k, v) (set kvs)"
    by (induction kvs) auto
  with a show ?thesis
    by (auto simp: keysOk_def distinct_update list_all_iff)
qed

lemma keysLoop_wf:
  "keysLoop s rs i inKey start prevRune kvs = Inr (kvs', b) \<Longrightarrow> keysOk kvs \<Longrightarrow> keysOk kvs'"
proof (induction rs arbitrary: i inKey start prevRune kvs)
  case Nil
  then show ?case by simp
next
  case (Cons r rs)
  show ?case
  proof (cases "r = rbr \<and> prevRune \<noteq> bslash")
    case True
    let ?kv = "drop start (take i s)"
    from True Cons.prems(1) obtain eq where
      k: "take eq ?kv \<noteq> []" and v: "drop (Suc eq) ?kv \<noteq> []" and
      rec: "keysLoop s rs (Suc i) False start r (AList.update (escapedBracketsReplacer (take eq ?kv))
        (escapedBracketsReplacer (drop (Suc eq) ?kv)) kvs) = Inr (kvs', b)"
      by (auto simp: Let_def simp del: drop_drop split: if_split_asm option.split_asm)
    from Cons.IH [OF rec] keysOk_update [OF Cons.prems(2)] k v show ?thesis
      by (simp del: drop_drop)
  next
    case False
    with Cons show ?thesis by (simp split: if_split_asm)
  qed
qed

lemma toPathElem_wf:
  assumes "toPathElem s = Inr e" "s \<noteq> []"
  shows "pe_Name e \<noteq> [] \<and> keysOk (pe_Key e)"
proof -
  have "keysOk kvs" if "parseXPathKeys t = Inr kvs" for t kvs
    using that keysLoop_wf [of t t 0 False 0 nul "[]" kvs]
    by (auto simp: parseXPathKeys_def keysOk_def split: if_split_asm)
  with assms show ?thesis
    by (auto simp: toPathElem_def keysOk_def split: option.splits if_split_asm)
qed

text \<open>C30: every element of a parsed path has a non-empty name, pairwise different keys, and
  no empty key or value, whatever the input text.\<close>

theorem ParsePath_wellformed:
  assumes "ParsePath s = Inr p" "e \<in> set (p_Elem p)"
  shows "pe_Name e \<noteq> [] \<and> distinct (map fst (pe_Key e)) \<and>
    (\<forall>(k, v) \<in> set (pe_Key e). k \<noteq> [] \<and> v \<noteq> [])"
proof -
  from assms obtain t where "toPathElems t = Inr (p_Elem p)"
    by (auto simp: ParsePath_def emptyPath_def Let_def split: if_split_asm prod.splits)
  then obtain xs where "traverse toPathElem (filter (\<lambda>s. s \<noteq> []) xs) = Inr (p_Elem p)"
    by (auto simp: toPathElems_def Let_def split: if_split_asm prod.splits)
  from traverse_Inr_set [OF this assms(2)] toPathElem_wf show ?thesis
    by (fastforce simp: keysOk_def list_all_iff)
qed

theorem ParsePath_wellformed_witness:
  "ParsePath ''a[k=v]/b'' = Inr \<lparr>p_Origin = [], p_Target = [], p_Elem =
     [\<lparr>pe_Name = ''a'', pe_Key = [(''k'', ''v'')]\<rparr>, \<lparr>pe_Name = ''b'', pe_Key = []\<rparr>]\<rparr> \<and>
   pe_Name \<lparr>pe_Name = ''a'', pe_Key = [(''k'', ''v'')]\<rparr> \<noteq> [] \<and>
   distinct (map fst [(''k'', ''v'')])"
proof -
  let ?a = "\<lparr>pe_Name = ''a'', pe_Key = [(''k'', ''v'')]\<rparr>"
  have p: "ParsePath ''a[k=v]/b'' = Inr \<lparr>p_Origin = [], p_Target = [], p_Elem =
     [?a, \<lparr>pe_Name = ''b'', pe_Key = []\<rparr>]\<rparr>"
    by code_simp
  from ParsePath_wellformed [OF p, of ?a] p show ?thesis by simp
qed

text \<open>Go visits a map in random order; neither \<open>ToXPath\<close> nor \<open>ToStrings\<close>
  lets that order show: two paths whose key maps hold the same pairs print alike.\<close>

theorem printing_order_independent:
  assumes "map pe_Name (p_Elem p) = map pe_Name (p_Elem q)"
    and "list_all2 (\<lambda>e f. mset (pe_Key e) = mset (pe_Key f) \<and> distinct (map fst (pe_Key e))) (p_Elem p) (p_Elem q)"
    and "p_Origin p = p_Origin q" "p_Target p = p_Target q"
  shows "ToXPath (Some p) noKeys = ToXPath (Some q) noKeys \<and>
    ToStrings (Some p) pfx nokeys' = ToStrings (Some q) pfx nokeys'"
proof -
  have get: "map_get m = map_get m'" if "mset m = mset m'" "distinct (map fst m)" for m m' :: "(string \<times> string) list"
    using map_of_perm [OF that] by (simp add: map_get_def fun_eq_iff)
  have vals: "sortedVals m = map (map_get m) (sort (map fst m))" for m
    by (auto simp: sortedVals_def map_get_def split: list.split)
  have "map (printElem noKeys) (p_Elem p) = map (printElem noKeys) (p_Elem q) \<and>
    map (\<lambda>e. pe_Name e # (if nokeys' then [] else sortedVals (pe_Key e))) (p_Elem p) =
    map (\<lambda>e. pe_Name e # (if nokeys' then [] else sortedVals (pe_Key e))) (p_Elem q)"
    using assms(2,1)
  proof (induction rule: list_all2_induct)
    case Nil
    then show ?case by simp
  next
    case (Cons e es f fs)
    then have "sort (map fst (pe_Key e)) = sort (map fst (pe_Key f))" "map_get (pe_Key e) = map_get (pe_Key f)"
      using sort_keys_perm get by blast+
    with Cons show ?case by (simp add: printElem_def printKey_def [abs_def] vals)
  qed
  with assms(3,4) show ?thesis by (simp add: ToXPath_def ToStrings_def)
qed

theorem printing_order_independent_witness:
  "ToXPath (Some (emptyPath\<lparr>p_Elem := [\<lparr>pe_Name = ''a'', pe_Key = [(''k'', ''1''), (''j'', ''2'')]\<rparr>]\<rparr>)) False =
   ToXPath (Some (emptyPath\<lparr>p_Elem := [\<lparr>pe_Name = ''a'', pe_Key = [(''j'', ''2''), (''k'', ''1'')]\<rparr>]\<rparr>)) False"
  using printing_order_independent
    [of "emptyPath\<lparr>p_Elem := [\<lparr>pe_Name = ''a'', pe_Key = [(''k'', ''1''), (''j'', ''2'')]\<rparr>]\<rparr>"
        "emptyPath\<lparr>p_Elem := [\<lparr>pe_Name = ''a'', pe_Key = [(''j'', ''2''), (''k'', ''1'')]\<rparr>]\<rparr>" False]
  by (simp add: emptyPath_def add_mset_commute)

lemma scan_plain_key:
  "{lbr, rbr} \<inter> set w = {} \<Longrightarrow>
   scanElems (w @ rest) buffer prevC True = scanElems rest (buffer @ w) (last (prevC # w)) True"
  by (induction w arbitrary: buffer prevC) auto

text \<open>\<open>ToXPath\<close> does not escape: a key value that holds an opening bracket is printed
  as text that \<open>ParsePath\<close> rejects as malformed.\<close>

theorem ToXPath_unescaped_bracket:
  assumes "p_Elem p = \<lparr>pe_Name = n, pe_Key = [(k, a @ lbr # b)]\<rparr> # es" "p_Origin p = []"
    and "{slash, lbr, rbr, bslash} \<inter> set n = {}" "{lbr, rbr, bslash} \<inter> (set k \<union> set a) = {}"
    and "originIdx (ToXPath (Some p) False) = None"
  shows "ParsePath (ToXPath (Some p) False) = Inl errMalformedXPath"
proof -
  let ?w = "k @ eqsign # a"
  obtain rest where x: "ToXPath (Some p) False = n @ lbr # ?w @ lbr # rest"
    by (cases es) (auto simp: ToXPath_def assms(1,2) printElem_def printKey_def map_get_def)
  have l: "last (nul # n) \<noteq> bslash" "last (lbr # ?w) \<noteq> bslash"
    by (rule last_notin; use assms(3,4) in auto)+
  have "scanElems (n @ lbr # ?w @ lbr # r) [] nul False = Inl errMalformedXPath" for r
    using assms(3,4) l scan_name [of n "lbr # ?w @ lbr # r" "[]" nul]
      scan_plain_key [of ?w "lbr # r" "n @ [lbr]" lbr]
    by (simp del: last.simps)
  from this [of rest] this [of "rest @ [slash]"]
  have "toPathElems (ToXPath (Some p) False) = Inl errMalformedXPath"
    by (simp add: toPathElems_def x Let_def)
  with assms(5) show ?thesis by (simp add: ParsePath_def x)
qed

theorem ToXPath_unescaped_bracket_witness:
  "ParsePath (ToXPath (Some (emptyPath\<lparr>p_Elem :=
     [\<lparr>pe_Name = ''interface'', pe_Key = [(''name'', ''eth[1]'')]\<rparr>]\<rparr>)) False) = Inl errMalformedXPath"
  using ToXPath_unescaped_bracket
    [of "emptyPath\<lparr>p_Elem := [\<lparr>pe_Name = ''interface'', pe_Key = [(''name'', ''eth[1]'')]\<rparr>]\<rparr>"
        "''interface''" "''name''" "''eth''" "''1]''" "[]"]
  by (simp add: emptyPath_def char_defs originIdx_def ToXPath_def printElem_def printKey_def map_get_def)

lemma containsMod_iff: "containsMod a ss \<longleftrightarrow> (\<exists>s\<in>set ss. sublist s a)"
  by (induction ss) (auto simp: str_contains_sublist)

text \<open>Sorting modules with \<open>SortModulesAB\<close> is deterministic: the order in which the
  modules were collected from a Go map does not reach the result, and every deprioritized module
  (\<open>ietf\<close>, \<open>iana\<close>) comes after every other one.\<close>

theorem module_sort_deterministic:
  fixes name :: "'m \<Rightarrow> string"
  assumes "mset ms = mset ms'" "inj_on name (set ms)"
  shows "sort_by (\<lambda>a b. SortModulesAB (name a) (name b) dep) ms =
      sort_by (\<lambda>a b. SortModulesAB (name a) (name b) dep) ms' \<and>
    sorted_wrt (\<lambda>a b. containsMod (name a) dep \<longrightarrow> containsMod (name b) dep)
      (sort_by (\<lambda>a b. SortModulesAB (name a) (name b) dep) ms)"
proof
  show "sort_by (\<lambda>a b. SortModulesAB (name a) (name b) dep) ms =
      sort_by (\<lambda>a b. SortModulesAB (name a) (name b) dep) ms'"
    by (rule module_order.sort_by_perm [OF assms])
  show "sorted_wrt (\<lambda>a b. containsMod (name a) dep \<longrightarrow> containsMod (name b) dep)
      (sort_by (\<lambda>a b. SortModulesAB (name a) (name b) dep) ms)"
    by (rule sorted_wrt_mono_rel [OF _ module_order.sorted_sort_by])
       (auto simp: SortModulesAB_def Let_def split: if_split_asm)
qed

theorem module_sort_deterministic_witness:
  "sort_by (\<lambda>a b. SortModulesAB a b DeprioritizedModules) [''ietf-if'', ''srl_nokia-if'', ''openconfig-if''] =
   sort_by (\<lambda>a b. SortModulesAB a b DeprioritizedModules) [''srl_nokia-if'', ''openconfig-if'', ''ietf-if'']"
  using module_sort_deterministic [of "[''ietf-if'', ''srl_nokia-if'', ''openconfig-if'']"
      "[''srl_nokia-if'', ''openconfig-if'', ''ietf-if'']" id DeprioritizedModules]
  by (simp add: add_mset_commute)


end
