(* ===== verification/YangData.thy ===== *)
theory YangData
  imports XPath "HOL-Library.Word"
begin

text \<open>
  YANG entries as the server sees them.

  Entries, types and their methods belong to the goyang package, which is not part of this
  repository. The data the server reads from them is a record; the methods it calls are the
  parameter \<open>yang_api\<close>, an argument of every definition that uses one of them.

  A pointer to an entry is the entry together with the chain of entries that hold it
  (\<open>Ptr\<close>). \<open>Parent\<close> is nil or that holder: \<open>NewSchema\<close> puts module entries into
  the root's \<open>Dir\<close> and leaves their \<open>Parent\<close> nil, which \<open>a_Linked\<close> records.
\<close>

section \<open>Data\<close>

datatype tristate = TSUnset | TSTrue | TSFalse

datatype entry_kind = LeafEntry | DirectoryEntry | ChoiceEntry | CaseEntry | OtherEntry

datatype type_kind = Yunion | Yidentityref | Yleafref | Ykind nat

text \<open>Handles of goyang objects the server passes on and never looks into.\<close>

type_synonym node = nat
type_synonym enum = nat

record yang_number =
  num_Value :: "64 word"
  num_Negative :: bool

record yang_range =
  r_Min :: yang_number
  r_Max :: yang_number

record identity =
  id_Name :: string
  id_Node :: node

datatype yang_type = YangType
  (yt_Name: string) (yt_Kind: type_kind) (yt_Units: string) (yt_Path: string)
  (yt_OptionalInstance: bool) (yt_Enum: "enum option") (yt_Bit: "(string \<times> int) list option")
  (yt_Range: "yang_range list") (yt_Length: "yang_range list") (yt_Pattern: "string list")
  (yt_IdentityBase: "identity list option") (yt_Type: "yang_type list")

record list_attr =
  la_MinElements :: "64 word"
  la_MaxElements :: "64 word"
  la_OrderedBy :: "string option"

text \<open>The statements kept in \<open>Entry.Extra\<close>: the server looks for \<open>*yang.Value\<close> and
  \<open>*yang.Must\<close> and skips everything else.\<close>

datatype extra_stmt = ExtraValue string | ExtraMust string "string option" | ExtraOther

record entry_attrs =
  a_Name :: string
  a_Description :: string
  a_Units :: string
  a_Key :: string
  a_Kind :: entry_kind
  a_Config :: tristate
  a_Mandatory :: tristate
  a_Type :: "yang_type option"
  a_ListAttr :: "list_attr option"
  a_Prefix :: "string option"
  a_Node :: "node option"
  a_Extra :: "(string \<times> extra_stmt list) list"
  a_Linked :: bool

text \<open>\<open>Dir\<close> is \<open>None\<close> for a nil map.\<close>

datatype entry = Entry (attrs: entry_attrs) (dir: "(string \<times> entry) list option")

datatype eptr = Ptr (ent: entry) (anc: "entry list")

record yang_module =
  m_Name :: string
  m_Prefix :: string
  m_NName :: string
  m_Import :: "(string \<times> string) list"

text \<open>The goyang methods: \<open>Is*\<close>, \<open>Namespace().Name\<close>, \<open>Path()\<close>, the default values,
  \<open>TypeKind.String\<close>, \<open>EnumType.Names\<close>, \<open>FindModuleByPrefix(..).Name\<close> and
  \<open>RootNode\<close> (\<open>m_Import\<close> holds prefix and name of each import).\<close>

record yang_api =
  IsLeaf :: "eptr \<Rightarrow> bool"
  IsLeafList :: "eptr \<Rightarrow> bool"
  IsList :: "eptr \<Rightarrow> bool"
  IsContainer :: "eptr \<Rightarrow> bool"
  IsChoice :: "eptr \<Rightarrow> bool"
  IsCase :: "eptr \<Rightarrow> bool"
  IsDir :: "eptr \<Rightarrow> bool"
  NamespaceName :: "eptr \<Rightarrow> string"
  EPath :: "eptr \<Rightarrow> string"
  SingleDefaultValue :: "eptr \<Rightarrow> string option"
  DefaultValues :: "eptr \<Rightarrow> string list"
  KindString :: "type_kind \<Rightarrow> string"
  EnumNames :: "enum \<Rightarrow> string list"
  FindModuleByPrefix :: "node option \<Rightarrow> string \<Rightarrow> string option"
  RootNode :: "node \<Rightarrow> yang_module"

section \<open>Access\<close>

abbreviation e_Name :: "eptr \<Rightarrow> string" where "e_Name p \<equiv> a_Name (attrs (ent p))"
abbreviation e_Key :: "eptr \<Rightarrow> string" where "e_Key p \<equiv> a_Key (attrs (ent p))"

definition dirl :: "entry \<Rightarrow> (string \<times> entry) list" where
  "dirl e = (case dir e of None \<Rightarrow> [] | Some d \<Rightarrow> d)"

definition e_Dir :: "eptr \<Rightarrow> (string \<times> eptr) list" where
  "e_Dir p = map (\<lambda>(k, c). (k, Ptr c (ent p # anc p))) (dirl (ent p))"

text \<open>\<open>for _, ee := range e.Dir\<close>\<close>

definition e_children :: "eptr \<Rightarrow> eptr list" where
  "e_children p = map (\<lambda>(k, c). Ptr c (ent p # anc p)) (dirl (ent p))"

definition e_Parent :: "eptr \<Rightarrow> eptr option" where
  "e_Parent p = (case anc p of [] \<Rightarrow> None
     | q # qs \<Rightarrow> if a_Linked (attrs (ent p)) then Some (Ptr q qs) else None)"

definition RootName :: string where
  "RootName = ''__root__''"

text \<open>The choice and case test that guards most walks.\<close>

abbreviation isCC :: "yang_api \<Rightarrow> eptr \<Rightarrow> bool" where
  "isCC Y p \<equiv> IsChoice Y p \<or> IsCase Y p"

lemma size_dirl [termination_simp]: "(k, c) \<in> set (dirl e) \<Longrightarrow> size c < size e"
proof (cases e)
  case (Entry a d)
  assume "(k, c) \<in> set (dirl e)"
  with Entry obtain l where l: "d = Some l" "(k, c) \<in> set l"
    by (auto simp: dirl_def split: option.splits)
  have "size c \<le> size_list (size_prod (\<lambda>_. 0) size) l"
    using size_list_estimation' [OF l(2), of "size c" "size_prod (\<lambda>_. 0) size"] by simp
  with Entry l(1) show ?thesis by simp
qed

lemma size_children [termination_simp]: "c \<in> set (e_children p) \<Longrightarrow> size (ent c) < size (ent p)"
  by (auto simp: e_children_def dest: size_dirl)

lemma e_children_snd: "e_children p = map snd (e_Dir p)"
  by (simp add: e_children_def e_Dir_def split_def)

lemma e_Dir_children: "(k, c) \<in> set (e_Dir p) \<Longrightarrow> c \<in> set (e_children p)"
  by (force simp: e_children_snd)

lemma children_anc: "c \<in> set (e_children p) \<Longrightarrow> anc c = ent p # anc p"
  by (auto simp: e_children_def)

lemma children_Parent:
  "c \<in> set (e_children p) \<Longrightarrow> a_Linked (attrs (ent c)) \<Longrightarrow> e_Parent c = Some p"
  by (cases p) (auto simp: e_children_def e_Parent_def)

lemma Parent_anc: "e_Parent p = Some q \<Longrightarrow> anc p = ent q # anc q"
  by (auto simp: e_Parent_def split: list.splits if_splits)

lemma Parent_length [termination_simp]: "e_Parent p = Some q \<Longrightarrow> length (anc q) < length (anc p)"
  by (simp add: Parent_anc)

end
