(* ===== verification/Fixture.thy ===== *)
theory Fixture
  imports YangData
begin

text \<open>
  A concrete instance for the witnesses: the schema of
  \<open>pkg/schema/testdata/leafref-under-choice\<close> as entries, and a \<open>yang_api\<close> that
  classifies entries by their kind and list attributes, as goyang documents it.
\<close>

definition kindApi :: yang_api where
  "kindApi = \<lparr>
     IsLeaf = (\<lambda>p. a_Kind (attrs (ent p)) = LeafEntry \<and> a_ListAttr (attrs (ent p)) = None),
     IsLeafList = (\<lambda>p. a_Kind (attrs (ent p)) = LeafEntry \<and> a_ListAttr (attrs (ent p)) \<noteq> None),
     IsList = (\<lambda>p. a_Kind (attrs (ent p)) = DirectoryEntry \<and> a_ListAttr (attrs (ent p)) \<noteq> None),
     IsContainer = (\<lambda>p. a_Kind (attrs (ent p)) = DirectoryEntry \<and> a_ListAttr (attrs (ent p)) = None),
     IsChoice = (\<lambda>p. a_Kind (attrs (ent p)) = ChoiceEntry),
     IsCase = (\<lambda>p. a_Kind (attrs (ent p)) = CaseEntry),
     IsDir = (\<lambda>p. dir (ent p) \<noteq> None),
     NamespaceName = (\<lambda>p. ''urn:lrc''),
     EPath = (\<lambda>p. concat (map (\<lambda>e. CHR ''/'' # a_Name (attrs e)) (rev (ent p # anc p)))),
     SingleDefaultValue = (\<lambda>p. None),
     DefaultValues = (\<lambda>p. []),
     KindString = (\<lambda>k. case k of Yunion \<Rightarrow> ''union'' | Yidentityref \<Rightarrow> ''identityref''
        | Yleafref \<Rightarrow> ''leafref'' | Ykind n \<Rightarrow> ''string''),
     EnumNames = (\<lambda>n. []),
     FindModuleByPrefix = (\<lambda>n p. Some ''lrc''),
     RootNode = (\<lambda>n. \<lparr>m_Name = ''lrc'', m_Prefix = ''lrc'', m_NName = ''lrc'', m_Import = []\<rparr>)\<rparr>"

definition fxAttrs :: "string \<Rightarrow> entry_kind \<Rightarrow> entry_attrs" where
  "fxAttrs n k = \<lparr>a_Name = n, a_Description = ''d'', a_Units = [], a_Key = [], a_Kind = k,
     a_Config = TSUnset, a_Mandatory = TSUnset, a_Type = None, a_ListAttr = None,
     a_Prefix = Some ''lrc'', a_Node = Some 0, a_Extra = [], a_Linked = True\<rparr>"

definition fxType :: "type_kind \<Rightarrow> string \<Rightarrow> yang_type" where
  "fxType k p = YangType ''t'' k [] p False None None [] [] [] None []"

definition fxLeaf :: "string \<Rightarrow> yang_type \<Rightarrow> entry" where
  "fxLeaf n t = Entry ((fxAttrs n LeafEntry)\<lparr>a_Type := Some t\<rparr>) None"

definition fxDir :: "string \<Rightarrow> entry_kind \<Rightarrow> entry list \<Rightarrow> entry" where
  "fxDir n k cs = Entry (fxAttrs n k) (Some (map (\<lambda>c. (a_Name (attrs c), c)) cs))"

definition fxList :: "string \<Rightarrow> string \<Rightarrow> entry list \<Rightarrow> entry" where
  "fxList n ks cs = Entry ((fxAttrs n DirectoryEntry)\<lparr>a_Key := ks,
      a_ListAttr := Some \<lparr>la_MinElements = 0, la_MaxElements = 0, la_OrderedBy = None\<rparr>\<rparr>)
      (Some (map (\<lambda>c. (a_Name (attrs c), c)) cs))"

definition fxString :: yang_type where
  "fxString = fxType (Ykind 0) []"

definition fxDetailList :: entry where
  "fxDetailList = fxList ''detail-list'' ''id''
     [fxLeaf ''id'' fxString, fxLeaf ''source-id'' fxString, fxLeaf ''ref-id'' (fxType Yleafref ''../source-id'')]"

definition fxChoice :: entry where
  "fxChoice = fxDir ''detail-choice'' ChoiceEntry
     [fxDir ''variant-a'' CaseEntry [fxDetailList], fxDir ''variant-b'' CaseEntry [fxLeaf ''other-leaf'' fxString]]"

definition fxHost :: entry where
  "fxHost = fxDir ''host'' DirectoryEntry [fxChoice]"

definition fxModule :: entry where
  "fxModule = Entry ((fxAttrs ''lrc'' DirectoryEntry)\<lparr>a_Linked := False\<rparr>) (Some [(''host'', fxHost)])"

definition fxRoot :: entry where
  "fxRoot = Entry ((fxAttrs RootName DirectoryEntry)\<lparr>a_Node := None, a_Prefix := None, a_Linked := False\<rparr>)
     (Some [(''lrc'', fxModule)])"

definition fxModulePtr :: eptr where
  "fxModulePtr = Ptr fxModule [fxRoot]"

text \<open>The pointer to the leaf \<open>source-id\<close>, the target of the fixture's leafref.\<close>

definition fxSourceId :: eptr where
  "fxSourceId = Ptr (fxLeaf ''source-id'' fxString)
     [fxDetailList, fxDir ''variant-a'' CaseEntry [fxDetailList], fxChoice, fxHost, fxModule, fxRoot]"

definition fxRefId :: eptr where
  "fxRefId = Ptr (fxLeaf ''ref-id'' (fxType Yleafref ''../source-id'')) (anc fxSourceId)"

lemmas fx_defs = kindApi_def fxAttrs_def fxType_def fxLeaf_def fxDir_def fxList_def fxString_def
  fxDetailList_def fxChoice_def fxHost_def fxModule_def fxRoot_def fxModulePtr_def fxSourceId_def
  fxRefId_def RootName_def

end
