(* ===== verification/YangEntry.thy ===== *)
theory YangEntry
  imports Fixture
begin

text \<open>
  The helpers that walk entries: \<open>getChildren\<close>, \<open>getParent\<close>, \<open>getEntry\<close>
  (\<open>pkg/schema/object.go\<close>), \<open>isState\<close> (\<open>pkg/schema/container.go\<close>) and
  \<open>getEntryPath\<close> (\<open>pkg/store/persiststore/persiststore.go\<close>).

  The inductive relations \<open>data_child\<close> and \<open>data_path\<close> say what the data tree of RFC 7950
  is: choice and case nodes do not appear in it. The lemmas show that the walks compute exactly
  these relations, and that the path read off an entry on the way up is the path that led down
  to it.
\<close>

section \<open>Walking down\<close>

function getChildren :: "yang_api \<Rightarrow> eptr \<Rightarrow> eptr list" where
  "getChildren Y e =
     (if IsChoice Y e \<or> IsCase Y e \<or> IsContainer Y e \<or> IsList Y e
      then concat (map (\<lambda>ee. if IsChoice Y ee \<or> IsCase Y ee then getChildren Y ee else [ee]) (e_children e))
      else [])"
  by pat_completeness auto
termination
  by (relation "measure (\<lambda>(Y, e). size (ent e))") (auto dest: size_children)

declare getChildren.simps [simp del]

text \<open>\<open>strings.SplitN(pe[0], ":", 2)\<close>, last part: the element name without module prefix.\<close>

definition unprefixed :: "string \<Rightarrow> string" where
  "unprefixed p = last (splitN2 colon p)"

primrec getEntry :: "yang_api \<Rightarrow> eptr \<Rightarrow> string list \<Rightarrow> eptr res" where
  "getEntry Y e [] =
     (if IsCase Y e \<or> IsChoice Y e then
        (case map_of (e_Dir e) (e_Name e) of Some ee \<Rightarrow> Inr ee | None \<Rightarrow> Inr e)
      else Inr e)"
| "getEntry Y e (p # ps) =
     (if dir (ent e) = None then Inl (Errorf ''not found'' [])
      else
        (case find (\<lambda>ee. e_Name ee = unprefixed p) (getChildren Y e) of
           Some ee \<Rightarrow> getEntry Y ee ps
         | None \<Rightarrow> Inl (Errorf ''%q not a child entry of %v'' [p, e_Name e])))"

section \<open>Walking up\<close>

definition getParent :: "eptr option \<Rightarrow> eptr option" where
  "getParent eo = (case eo of None \<Rightarrow> None
     | Some e \<Rightarrow> (case e_Parent e of
          Some p \<Rightarrow> if e_Name p = RootName then None else Some p
        | None \<Rightarrow> None))"

function isState :: "eptr \<Rightarrow> bool" where
  "isState e =
     (if a_Config (attrs (ent e)) = TSFalse then True
      else (case e_Parent e of Some p \<Rightarrow> isState p | None \<Rightarrow> False))"
  by pat_completeness auto
termination
  by (relation "measure (\<lambda>e. length (anc e))") (auto dest: Parent_length)

declare isState.simps [simp del]

text \<open>
  \<open>getEntryPath\<close>: the inner loop skips choice and case parents (running off the top is a nil
  dereference), the outer one collects names up to the module.
\<close>

function skipChoiceCase :: "yang_api \<Rightarrow> eptr \<Rightarrow> eptr res" where
  "skipChoiceCase Y e =
     (case e_Parent e of
        None \<Rightarrow> Inl (GoPanic ''nil pointer dereference'')
      | Some p \<Rightarrow> if IsCase Y p \<or> IsChoice Y p then skipChoiceCase Y p else Inr p)"
  by pat_completeness auto
termination
  by (relation "measure (\<lambda>(Y, e). length (anc e))") (auto dest: Parent_length)

declare skipChoiceCase.simps [simp del]

lemma skipChoiceCase_length:
  "skipChoiceCase Y e = Inr q \<Longrightarrow> length (anc q) < length (anc e)"
proof (induction Y e rule: skipChoiceCase.induct)
  case (1 Y e)
  then obtain p where "e_Parent e = Some p"
    by (subst (asm) skipChoiceCase.simps) (auto split: option.splits)
  with 1 show ?case
    by (subst (asm) (2) skipChoiceCase.simps) (force dest: Parent_length split: if_splits)
qed

function entryPathLoop :: "yang_api \<Rightarrow> eptr \<Rightarrow> string list \<Rightarrow> string list res" where
  "entryPathLoop Y e rs =
     (case e_Parent e of
        None \<Rightarrow> Inr rs
      | Some p \<Rightarrow>
          if e_Name p = RootName then Inr rs
          else rbind (skipChoiceCase Y e) (\<lambda>q. entryPathLoop Y q (rs @ [e_Name q])))"
  by pat_completeness auto
termination
  by (relation "measure (\<lambda>(Y, e, rs). length (anc e))") (auto dest: skipChoiceCase_length)

declare entryPathLoop.simps [simp del]

text \<open>\<open>reverse\<close> swaps the ends of the slice towards the middle.\<close>

function reverseLoop :: "nat \<Rightarrow> string list \<Rightarrow> string list" where
  "reverseLoop i arr =
     (if i < length arr div 2
      then reverseLoop (Suc i) (arr[i := arr ! (length arr - i - 1), length arr - i - 1 := arr ! i])
      else arr)"
  by pat_completeness auto
termination
  by (relation "measure (\<lambda>(i, arr). length arr div 2 - i)") auto

declare reverseLoop.simps [simp del]

definition reverse :: "string list \<Rightarrow> string list" where
  "reverse arr = reverseLoop 0 arr"

definition getEntryPath :: "yang_api \<Rightarrow> eptr \<Rightarrow> string list res" where
  "getEntryPath Y e = rbind (entryPathLoop Y e [e_Name e]) (\<lambda>rs. Inr (reverse rs))"

lemma length_reverseLoop: "length (reverseLoop i arr) = length arr"
proof (induction i arr rule: reverseLoop.induct)
  case (1 i arr)
  then show ?case by (subst reverseLoop.simps) simp
qed

lemma reverseLoop_nth:
  "j < length arr \<Longrightarrow> reverseLoop i arr ! j =
     (if i \<le> j \<and> j < length arr - i then arr ! (length arr - j - 1) else arr ! j)"
proof (induction i arr rule: reverseLoop.induct)
  case (1 i arr)
  show ?case
  proof (cases "i < length arr div 2")
    case True
    then show ?thesis
      using 1 by (subst reverseLoop.simps) (auto simp: nth_list_update)
  next
    case False
    then have "reverseLoop i arr = arr" by (subst reverseLoop.simps) simp
    moreover have "length arr - j - 1 = j" if "i \<le> j" "j < length arr - i"
      using False that by linarith
    ultimately show ?thesis using 1 by auto
  qed
qed

lemma reverse_rev [simp]: "reverse arr = rev arr"
  by (rule nth_equalityI) (auto simp: reverse_def length_reverseLoop reverseLoop_nth rev_nth)

section \<open>The data tree\<close>

text \<open>\<open>data_child e c\<close>: in the data tree, \<open>c\<close> is a child of \<open>e\<close>: reached
  through choice and case nodes only, and not one itself. \<open>data_path\<close> follows a list of names,
  each of which may carry a module prefix.\<close>

inductive data_child :: "yang_api \<Rightarrow> eptr \<Rightarrow> eptr \<Rightarrow> bool" for Y where
  child: "isCC Y e \<or> IsContainer Y e \<or> IsList Y e \<Longrightarrow> c \<in> set (e_children e) \<Longrightarrow> \<not> isCC Y c \<Longrightarrow>
    data_child Y e c"
| through: "isCC Y e \<or> IsContainer Y e \<or> IsList Y e \<Longrightarrow> ee \<in> set (e_children e) \<Longrightarrow> isCC Y ee \<Longrightarrow>
    data_child Y ee c \<Longrightarrow> data_child Y e c"

inductive data_path :: "yang_api \<Rightarrow> eptr \<Rightarrow> string list \<Rightarrow> eptr \<Rightarrow> bool" for Y where
  here: "data_path Y e [] e"
| down: "data_child Y e c \<Longrightarrow> e_Name c = unprefixed p \<Longrightarrow> data_path Y c ps e' \<Longrightarrow>
    data_path Y e (p # ps) e'"

inductive_cases data_path_NilE: "data_path Y e [] e'"
inductive_cases data_path_ConsE: "data_path Y e (p # ps) e'"

lemma getChildren_sound: "c \<in> set (getChildren Y e) \<Longrightarrow> data_child Y e c"
proof (induction Y e rule: getChildren.induct)
  case (1 Y e)
  from "1.prems" have d: "isCC Y e \<or> IsContainer Y e \<or> IsList Y e"
    by (subst (asm) getChildren.simps) (auto split: if_splits)
  with "1.prems" obtain ee where ee: "ee \<in> set (e_children e)"
    "c \<in> set (if isCC Y ee then getChildren Y ee else [ee])"
    by (subst (asm) getChildren.simps) (auto split: if_splits)
  show ?case
  proof (cases "isCC Y ee")
    case True
    with 1 ee d have "data_child Y ee c" by auto
    with d ee(1) True show ?thesis by (rule data_child.through)
  next
    case False
    with ee d show ?thesis by (auto intro: data_child.child)
  qed
qed

lemma getChildren_complete: "data_child Y e c \<Longrightarrow> c \<in> set (getChildren Y e)"
proof (induction rule: data_child.induct)
  case (child e c)
  then show ?case by (subst getChildren.simps) force
next
  case (through e ee c)
  then show ?case by (subst getChildren.simps) auto
qed

lemma getChildren_data: "data_child Y e c \<Longrightarrow> \<not> isCC Y c"
  by (induction rule: data_child.induct) auto

text \<open>\<open>getChildren\<close> returns exactly the data-tree children of an entry: every entry
  reached through nested choice and case nodes, none of which is itself a choice or a case.\<close>

theorem getChildren_spec:
  "set (getChildren Y e) = {c. data_child Y e c} \<and> set (getChildren Y e) \<inter> {c. isCC Y c} = {}"
  using getChildren_sound getChildren_complete getChildren_data by blast

lemma children_dir: "c \<in> set (e_children e) \<Longrightarrow> dir (ent e) \<noteq> None"
  by (cases "dir (ent e)") (auto simp: e_children_def dirl_def)

lemma data_child_dir: "data_child Y e c \<Longrightarrow> dir (ent e) \<noteq> None"
  by (cases rule: data_child.cases) (auto dest: children_dir)

lemma getChildren_size: "data_child Y e c \<Longrightarrow> size (ent c) < size (ent e)"
proof (induction rule: data_child.induct)
  case (child e c)
  then show ?case by (simp add: size_children)
next
  case (through e ee c)
  then show ?case using size_children [of ee e] by linarith
qed

text \<open>YANG gives the data children of a node different names, also across the cases of a choice
  (RFC 7950, 7.9); \<open>unique_names\<close> checks a whole subtree.\<close>

function unique_names :: "yang_api \<Rightarrow> eptr \<Rightarrow> bool" where
  "unique_names Y e \<longleftrightarrow>
     distinct (map e_Name (getChildren Y e)) \<and> list_all (unique_names Y) (getChildren Y e)"
  by pat_completeness auto
termination
  by (relation "measure (\<lambda>(Y, e). size (ent e))") (auto dest!: getChildren_sound getChildren_size)

declare unique_names.simps [simp del]

lemma unique_names_distinct: "unique_names Y e \<Longrightarrow> distinct (map e_Name (getChildren Y e))"
  by (subst (asm) unique_names.simps) simp

lemma unique_names_child: "unique_names Y e \<Longrightarrow> data_child Y e c \<Longrightarrow> unique_names Y c"
  by (subst (asm) unique_names.simps) (auto simp: list_all_iff dest: getChildren_complete)

lemma getEntry_sound: "getEntry Y e pe = Inr e' \<Longrightarrow> \<not> isCC Y e \<Longrightarrow> data_path Y e pe e'"
proof (induction pe arbitrary: e)
  case Nil
  then show ?case by (auto intro: data_path.here)
next
  case (Cons p ps)
  from Cons.prems(1) obtain ee where ee: "find (\<lambda>ee. e_Name ee = unprefixed p) (getChildren Y e) = Some ee"
    "getEntry Y ee ps = Inr e'"
    by (auto split: if_splits option.splits)
  then have "ee \<in> set (getChildren Y e)" "e_Name ee = unprefixed p"
    by (auto simp: find_Some_iff)
  with ee(2) Cons.IH getChildren_sound getChildren_data show ?case by (metis data_path.down)
qed

lemma find_distinct:
  "distinct (map f xs) \<Longrightarrow> x \<in> set xs \<Longrightarrow> find (\<lambda>y. f y = f x) xs = Some x"
  by (induction xs) auto

lemma getEntry_complete: "data_path Y e pe e' \<Longrightarrow> \<not> isCC Y e \<Longrightarrow> unique_names Y e \<Longrightarrow> getEntry Y e pe = Inr e'"
proof (induction rule: data_path.induct)
  case (here e)
  then show ?case by simp
next
  case (down e c p ps e')
  have c: "c \<in> set (getChildren Y e)" "\<not> isCC Y c"
    using down.hyps(1) getChildren_complete getChildren_data by blast+
  have "distinct (map e_Name (getChildren Y e))"
    using down.prems(2) by (rule unique_names_distinct)
  then have f: "find (\<lambda>ee. e_Name ee = unprefixed p) (getChildren Y e) = Some c"
    using find_distinct [OF _ c(1), of e_Name] down.hyps(2) by simp
  have "unique_names Y c"
    using down.prems(2) down.hyps(1) by (rule unique_names_child)
  with down c f data_child_dir show ?case by auto
qed

text \<open>\<open>getEntry\<close> is path lookup in the data tree. On an entry that is not a choice or
  case and whose data children have different names, it returns \<open>e'\<close> exactly when the path leads
  to \<open>e'\<close>; so it never misses a path, whatever the order in which \<open>Dir\<close> is visited.\<close>

theorem getEntry_spec:
  assumes "\<not> isCC Y e" "unique_names Y e"
  shows "getEntry Y e pe = Inr e' \<longleftrightarrow> data_path Y e pe e'"
  using getEntry_sound getEntry_complete assms by blast

theorem getEntry_spec_witness:
  "getEntry kindApi fxModulePtr [''host'', ''lrc:detail-list'', ''source-id''] = Inr fxSourceId \<and>
   data_path kindApi fxModulePtr [''host'', ''lrc:detail-list'', ''source-id''] fxSourceId"
proof -
  have g: "getEntry kindApi fxModulePtr [''host'', ''lrc:detail-list'', ''source-id''] = Inr fxSourceId"
    by code_simp
  moreover have "\<not> isCC kindApi fxModulePtr" "unique_names kindApi fxModulePtr" by code_simp+
  ultimately show ?thesis using getEntry_spec [of kindApi fxModulePtr] by blast
qed

fun wfLinked :: "entry \<Rightarrow> bool" where
  "wfLinked e = list_all (\<lambda>c. a_Linked (attrs c) \<and> a_Name (attrs c) \<noteq> RootName \<and> wfLinked c) (map snd (dirl e))"

declare wfLinked.simps [simp del]

lemma wfLinked_child:
  "wfLinked (ent e) \<Longrightarrow> c \<in> set (e_children e) \<Longrightarrow>
   e_Parent c = Some e \<and> e_Name c \<noteq> RootName \<and> wfLinked (ent c)"
  by (subst (asm) wfLinked.simps) (force simp: list_all_iff e_children_def intro!: children_Parent)

lemma data_child_skip:
  "data_child Y e c \<Longrightarrow> wfLinked (ent e) \<Longrightarrow>
   wfLinked (ent c) \<and> e_Name c \<noteq> RootName \<and>
   (\<exists>p. e_Parent c = Some p \<and> (e_Name p \<noteq> RootName \<or> p = e)) \<and>
   skipChoiceCase Y c = (if isCC Y e then skipChoiceCase Y e else Inr e)"
proof (induction rule: data_child.induct)
  case (child e c)
  with wfLinked_child [of e c] show ?case by (auto simp: skipChoiceCase.simps [of Y c])
next
  case (through e ee c)
  have ee: "e_Parent ee = Some e" "e_Name ee \<noteq> RootName" "wfLinked (ent ee)"
    using through wfLinked_child by blast+
  with through show ?case by (auto simp: skipChoiceCase.simps [of Y ee])
qed

lemma entryPathLoop_data_path:
  "data_path Y e pe e' \<Longrightarrow> \<not> isCC Y e \<Longrightarrow> wfLinked (ent e) \<Longrightarrow> e_Name e \<noteq> RootName \<Longrightarrow>
   entryPathLoop Y e' [e_Name e'] = entryPathLoop Y e (rev (e_Name e # map unprefixed pe))"
proof (induction rule: data_path.induct)
  case (here e)
  then show ?case by simp
next
  case (down e c p ps e')
  note c = data_child_skip [OF down.hyps(1) down.prems(2)]
  have "entryPathLoop Y e' [e_Name e'] = entryPathLoop Y c (rev (e_Name c # map unprefixed ps))"
    using down.IH getChildren_data [OF down.hyps(1)] c by blast
  also have "\<dots> = entryPathLoop Y e (rev (e_Name c # map unprefixed ps) @ [e_Name e])"
    using c down.prems by (auto simp: entryPathLoop.simps [of Y c])
  finally show ?case using down.hyps(2) by simp
qed

lemma getEntryPath_data_path:
  assumes "data_path Y m pe e" "e_Parent m = None" "\<not> isCC Y m" "wfLinked (ent m)" "e_Name m \<noteq> RootName"
  shows "getEntryPath Y e = Inr (e_Name m # map unprefixed pe)"
  using entryPathLoop_data_path [OF assms(1,3-5)] assms(2)
  by (simp add: getEntryPath_def entryPathLoop.simps [of Y m])

text \<open>C19: the way up agrees with the way down. The path the persistent store computes for an
  entry found under a module is the module's name followed by the names of the path that leads to
  it, without prefixes and without choice and case nodes; it never dereferences a nil parent.\<close>

theorem getEntryPath_spec:
  assumes "data_path Y m pe e" "e_Parent m = None" "\<not> isCC Y m" "wfLinked (ent m)" "e_Name m \<noteq> RootName"
  shows "getEntryPath Y e = Inr (e_Name m # map unprefixed pe)"
  by (rule getEntryPath_data_path [OF assms])

theorem getEntryPath_spec_witness:
  "getEntryPath kindApi fxSourceId = Inr [''lrc'', ''host'', ''detail-list'', ''source-id'']"
proof -
  have "data_path kindApi fxModulePtr [''host'', ''detail-list'', ''source-id''] fxSourceId"
    by (rule getEntry_sound; code_simp)
  moreover have "e_Parent fxModulePtr = None" "\<not> isCC kindApi fxModulePtr" "wfLinked (ent fxModulePtr)"
    "e_Name fxModulePtr \<noteq> RootName" by code_simp+
  ultimately have "getEntryPath kindApi fxSourceId =
      Inr (e_Name fxModulePtr # map unprefixed [''host'', ''detail-list'', ''source-id''])"
    by (rule getEntryPath_spec)
  then show ?thesis by (simp add: fx_defs unprefixed_def splitN2_def char_defs)
qed

text \<open>A node is state data exactly when it or one of its ancestors is marked
  \<open>config false\<close>.\<close>

theorem isState_inherited:
  "isState e \<longleftrightarrow> (\<exists>a. (\<lambda>x y. e_Parent x = Some y)\<^sup>*\<^sup>* e a \<and> a_Config (attrs (ent a)) = TSFalse)"
proof (induction e rule: isState.induct)
  case (1 e)
  show ?case
  proof (cases "e_Parent e")
    case None
    then show ?thesis
      by (subst isState.simps) (auto elim: converse_rtranclpE)
  next
    case (Some p)
    have "(\<lambda>x y. e_Parent x = Some y)\<^sup>*\<^sup>* e a \<longleftrightarrow> a = e \<or> (\<lambda>x y. e_Parent x = Some y)\<^sup>*\<^sup>* p a" for a
      using Some by (auto elim: converse_rtranclpE intro: converse_rtranclp_into_rtranclp)
    with 1 Some show ?thesis
      by (subst isState.simps) auto
  qed
qed

section \<open>The order of siblings\<close>

text \<open>The comparison of \<open>sortFn\<close>. The calls that would sort the children with it are commented out.\<close>

definition sortFn :: "yang_api \<Rightarrow> eptr \<Rightarrow> eptr \<Rightarrow> bool" where
  "sortFn Y a b =
     (if IsLeaf Y a then (if IsLeaf Y b then e_Name a < e_Name b else True)
      else if IsChoice Y a then
        (if IsLeaf Y b then False else if IsChoice Y b then e_Name a < e_Name b else True)
      else if IsCase Y a then
        (if IsLeaf Y b then False else if IsChoice Y b then False
         else if IsCase Y b then e_Name a < e_Name b else True)
      else if IsContainer Y a then (if IsContainer Y b then e_Name a < e_Name b else False)
      else False)"

text \<open>It is no order to sort by: a list ties with every container, and two containers do not tie.\<close>

lemma sortFn_no_weak_order:
  assumes "IsContainer Y a" "IsContainer Y b" "e_Name a < e_Name b" "\<not> IsContainer Y l"
    and "\<not> IsLeaf Y a" "\<not> isCC Y a" "\<not> IsLeaf Y b" "\<not> isCC Y b" "\<not> IsLeaf Y l" "\<not> isCC Y l"
  shows "sortFn Y a b \<and> \<not> sortFn Y a l \<and> \<not> sortFn Y l a \<and> \<not> sortFn Y b l \<and> \<not> sortFn Y l b"
  using assms by (simp add: sortFn_def)

end
