(* ===== verification/SchemaObject.thy ===== *)
theory SchemaObject
  imports YangEntry
begin

text \<open>
  \<open>pkg/schema/object.go\<close> and the \<open>Schema\<close> struct of \<open>pkg/schema/schema.go\<close>:
  entry lookup over all modules (\<open>GetEntry\<close>), the channel variant (\<open>GetEntryCh\<close>) and
  the conversion of a flat element list into a path (\<open>BuildPath\<close>).
\<close>

section \<open>Schema state\<close>

record schema_config =
  cfg_Name :: string
  cfg_Vendor :: string
  cfg_Version :: string
  cfg_Files :: "string list"
  cfg_Directories :: "string list"
  cfg_Excludes :: "string list"

text \<open>\<open>sc_root\<close> is \<open>None\<close> once \<open>Reset\<close> has dropped it. \<open>sc_annot\<close> holds, per entry,
  the \<open>REF_\<close> annotations \<open>buildReferences\<close> writes into \<open>Entry.Annotation\<close>.\<close>

record schema =
  sc_config :: schema_config
  sc_root :: "entry option"
  sc_status :: string
  sc_annot :: "(eptr \<times> (string \<times> eptr) list) list"

definition rootPtr :: "schema \<Rightarrow> eptr option" where
  "rootPtr sc = map_option (\<lambda>r. Ptr r []) (sc_root sc)"

abbreviation nilDeref :: gerr where
  "nilDeref \<equiv> GoPanic ''nil pointer dereference''"

section \<open>Lookup\<close>

text \<open>\<open>e.Prefix.Name == prefix\<close>, where a nil \<open>Prefix\<close> is dereferenced.\<close>

definition prefixIs :: "eptr \<Rightarrow> string \<Rightarrow> bool res" where
  "prefixIs e pfx = (case a_Prefix (attrs (ent e)) of None \<Rightarrow> Inl nilDeref | Some n \<Rightarrow> Inr (n = pfx))"

text \<open>The test of the shortcut and of the module loop: \<open>x, ok := Dir[path]; ok \<and> (!foundPrefix ||
  x.Prefix.Name == prefix)\<close>.\<close>

definition dirHas :: "eptr \<Rightarrow> string \<Rightarrow> bool \<Rightarrow> string \<Rightarrow> bool res" where
  "dirHas e path foundPrefix pfx =
     (case map_of (e_Dir e) path of
        None \<Rightarrow> Inr False
      | Some ee \<Rightarrow> if foundPrefix then prefixIs ee pfx else Inr True)"

text \<open>The loop over the imports of the module that defines \<open>e\<close>.\<close>

fun importLoop :: "eptr \<Rightarrow> string \<Rightarrow> string \<Rightarrow> string \<Rightarrow> (string \<times> string) list \<Rightarrow> eptr list res" where
  "importLoop root pfx path pathElement [] =
     Inl (Errorf ''error getting Element for pathElement %q'' [pathElement])"
| "importLoop root pfx path pathElement ((ip, iname) # is) =
     (if pfx = ip then
        (case map_of (e_Dir root) iname of
           None \<Rightarrow> Inl (Errorf ''module %q not found in loaded modules'' [iname])
         | Some foundEntry \<Rightarrow>
             if map_of (e_Dir foundEntry) path \<noteq> None then Inr [foundEntry]
             else importLoop root pfx path pathElement is)
      else importLoop root pfx path pathElement is)"

definition FindPossibleModulesForPathElement ::
    "yang_api \<Rightarrow> schema \<Rightarrow> eptr option \<Rightarrow> string \<Rightarrow> eptr list res" where
  "FindPossibleModulesForPathElement Y sc eo pathElement =
     (case eo of
        None \<Rightarrow> Inl (Errorf ''nil yang entry'' [])
      | Some e \<Rightarrow>
          (let (cpfx, cpath, foundPrefix) = str_cut colon pathElement;
               path = (if foundPrefix then cpath else cpfx);
               pfx = (if foundPrefix then cpfx else []) in
           rbind (dirHas e path foundPrefix pfx) (\<lambda>shortcut.
             if shortcut then Inr [the (map_of (e_Dir e) path)]
             else
               (case a_Node (attrs (ent e)) of
                  None \<Rightarrow>
                    if e_Name e \<noteq> RootName
                    then Inl (Errorf ''entry has no Node but is not root, instead is %s'' [e_Name e])
                    else
                      (case rootPtr sc of
                         None \<Rightarrow> Inl nilDeref
                       | Some root \<Rightarrow>
                           rbind (rfilter (\<lambda>entry. dirHas entry path foundPrefix pfx) (e_children root))
                             (\<lambda>entries.
                                if entries = []
                                then Inl (Errorf ''unable to find entry for prefix %q, path %q in root'' [pfx, path])
                                else Inr (sort_by (\<lambda>i j. SortModulesAB (e_Name i) (e_Name j) DeprioritizedModules) entries)))
                | Some n \<Rightarrow>
                    (case rootPtr sc of
                       None \<Rightarrow> Inl nilDeref
                     | Some root \<Rightarrow>
                         (let md = RootNode Y n in
                          if pfx = m_Prefix md then
                            (case map_of (e_Dir root) (m_Name md) of
                               None \<Rightarrow> Inl (Errorf ''module %q not found in loaded modules'' [m_Name md])
                             | Some foundEntry \<Rightarrow>
                                 if map_of (e_Dir foundEntry) path \<noteq> None then Inr [foundEntry]
                                 else importLoop root pfx path pathElement (m_Import md))
                          else importLoop root pfx path pathElement (m_Import md)))))))"

text \<open>The loop of \<open>GetEntry\<close>: the first module in which the path resolves.\<close>

fun firstEntry :: "yang_api \<Rightarrow> eptr list \<Rightarrow> string list \<Rightarrow> eptr option" where
  "firstEntry Y [] pe = None"
| "firstEntry Y (md # mods) pe =
     (case getEntry Y md pe of Inr e \<Rightarrow> Some e | Inl _ \<Rightarrow> firstEntry Y mods pe)"

text \<open>With an empty path \<open>GetEntry\<close> returns the root; where that is nil every caller dereferences
  it at once, which the model reports here.\<close>

definition GetEntry :: "yang_api \<Rightarrow> schema \<Rightarrow> string list \<Rightarrow> eptr res" where
  "GetEntry Y sc pe =
     (case pe of
        [] \<Rightarrow> (case rootPtr sc of None \<Rightarrow> Inl nilDeref | Some r \<Rightarrow> Inr r)
      | p0 # _ \<Rightarrow>
          rbind (FindPossibleModulesForPathElement Y sc (rootPtr sc) p0) (\<lambda>mods.
            case firstEntry Y mods pe of
              Some e \<Rightarrow> Inr e
            | None \<Rightarrow>
                (case mods of
                   [md] \<Rightarrow>
                     if length pe = 1 \<and> e_Name md = p0 then Inr md
                     else Inl (Errorf ''schema entry %q not found'' [str_join [slash] pe])
                 | _ \<Rightarrow> Inl (Errorf ''schema entry %q not found'' [str_join [slash] pe]))))"

section \<open>Lookup over a channel\<close>

text \<open>The entries sent before the function returned, and the error it returned, if any.\<close>

type_synonym sent = "eptr list \<times> gerr option"

primrec getEntryCh :: "yang_api \<Rightarrow> eptr \<Rightarrow> string list \<Rightarrow> sent" where
  "getEntryCh Y e [] =
     (if IsCase Y e \<or> IsChoice Y e then
        (case map_of (e_Dir e) (e_Name e) of Some ee \<Rightarrow> ([ee], None) | None \<Rightarrow> ([], None))
      else ([], None))"
| "getEntryCh Y e (p # ps) =
     (if dir (ent e) = None then ([], Some (Errorf ''not found'' []))
      else
        (case find (\<lambda>ee. e_Name ee = p) (getChildren Y e) of
           Some ee \<Rightarrow> (let (es, err) = getEntryCh Y ee ps in (ee # es, err))
         | None \<Rightarrow> ([], Some (Errorf ''%q not found'' [p]))))"

text \<open>The first child of the root whose \<open>Dir\<close> has \<open>first\<close>.\<close>

fun findChild :: "eptr list \<Rightarrow> string \<Rightarrow> eptr option" where
  "findChild [] k = None"
| "findChild (e # es) k = (case map_of (e_Dir e) k of Some c \<Rightarrow> Some c | None \<Rightarrow> findChild es k)"

text \<open>The prefix split of \<open>GetEntryCh\<close> and \<open>BuildPath\<close>: \<open>index > 0\<close>.\<close>

definition cutFirst :: "string \<Rightarrow> string \<times> string \<times> bool" where
  "cutFirst p0 = (case str_index colon p0 of
     Some i \<Rightarrow> if i > 0 then (take i p0, drop (Suc i) p0, True) else (p0, p0, False)
   | None \<Rightarrow> (p0, p0, False))"

definition GetEntryCh :: "yang_api \<Rightarrow> schema \<Rightarrow> string list \<Rightarrow> sent" where
  "GetEntryCh Y sc pe =
     (case rootPtr sc of
        None \<Rightarrow> ([], Some nilDeref)
      | Some root \<Rightarrow>
          (case pe of
             [] \<Rightarrow> ([root], None)
           | p0 # ps \<Rightarrow>
               (let (first, p0', found) = cutFirst p0;
                    rest = (if found then p0' # ps else ps) in
                case map_of (e_Dir root) first of
                  Some e \<Rightarrow> getEntryCh Y e rest
                | None \<Rightarrow>
                    (case findChild (e_children root) first of
                       Some cc \<Rightarrow> (let (es, err) = getEntryCh Y cc rest in (cc # es, err))
                     | None \<Rightarrow> ([], Some (Errorf ''entry %q not found'' [p0']))))))"

section \<open>Building a path\<close>

text \<open>\<open>findChoiceCase\<close>: the entry named \<open>pe[1]\<close> below a choice of \<open>e\<close>, directly or one
  case deeper. \<open>findCC\<close> is its loop.\<close>

fun inCases :: "yang_api \<Rightarrow> eptr list \<Rightarrow> string \<Rightarrow> eptr option" where
  "inCases Y [] k = None"
| "inCases Y (c # cs) k =
     (if \<not> IsCase Y c then inCases Y cs k
      else (case map_of (e_Dir c) k of Some e \<Rightarrow> Some e | None \<Rightarrow> inCases Y cs k))"

fun findCC :: "yang_api \<Rightarrow> eptr list \<Rightarrow> string \<Rightarrow> eptr option" where
  "findCC Y [] k = None"
| "findCC Y (ee # es) k =
     (if \<not> IsChoice Y ee then findCC Y es k
      else
        (case map_of (e_Dir ee) k of
           Some eee \<Rightarrow>
             if \<not> IsCase Y eee then Some eee
             else (case inCases Y (e_children ee) k of Some x \<Rightarrow> Some x | None \<Rightarrow> findCC Y es k)
         | None \<Rightarrow> (case inCases Y (e_children ee) k of Some x \<Rightarrow> Some x | None \<Rightarrow> findCC Y es k)))"

definition findChoiceCase :: "yang_api \<Rightarrow> eptr \<Rightarrow> string list \<Rightarrow> eptr res" where
  "findChoiceCase Y e pe =
     (case pe of
        [] \<Rightarrow> Inr e
      | [_] \<Rightarrow> Inl (GoPanic ''index out of range'')
      | _ # k # _ \<Rightarrow>
          (case findCC Y (e_children e) k of
             Some x \<Rightarrow> Inr x
           | None \<Rightarrow> Inl (Errorf ''unknown element %s'' [k])))"

text \<open>The loop of the choice branch: each child is a case with the element in it, or else the
  element is looked up in the choice itself.\<close>

fun choiceFind :: "yang_api \<Rightarrow> eptr \<Rightarrow> string \<Rightarrow> eptr list \<Rightarrow> eptr option" where
  "choiceFind Y e k [] = None"
| "choiceFind Y e k (c # cs) =
     (case (if IsCase Y c then map_of (e_Dir c) k else map_of (e_Dir e) k) of
        Some ee \<Rightarrow> Some ee
      | None \<Rightarrow> choiceFind Y e k cs)"

text \<open>
  \<open>buildPath\<close> recurses in tail position only. \<open>buildStep\<close> is its body: it ends with the
  elements collected so far (\<open>Done\<close>) or names the arguments of the recursive call
  (\<open>Next\<close>).
\<close>

datatype bp_step = Done "PathElem list" | Next "string list" "PathElem list" eptr

definition assignKeys :: "string list \<Rightarrow> string list \<Rightarrow> (string \<times> string) list" where
  "assignKeys keys vals = fold (\<lambda>(k, v) m. AList.update k v m) (zip keys vals) []"

definition buildStep :: "yang_api \<Rightarrow> string list \<Rightarrow> PathElem list \<Rightarrow> eptr \<Rightarrow> bp_step res" where
  "buildStep Y pe elems e =
     (let cpe = \<lparr>pe_Name = e_Name e, pe_Key = []\<rparr> in
      case pe of
        [] \<Rightarrow> Inr (Done (elems @ [cpe]))
      | p0 # ps \<Rightarrow>
          if IsList Y e then
            (let keys = sort (str_fields (e_Key e));
                 count = Suc (min (length keys) (length ps));
                 elems' = elems @ [cpe\<lparr>pe_Key := assignKeys keys ps\<rparr>] in
             if length pe = count then Inr (Done elems')
             else
               (case map_of (e_Dir e) (pe ! count) of
                  Some ee \<Rightarrow> Inr (Next (drop count pe) elems' ee)
                | None \<Rightarrow>
                    (case findChoiceCase Y e (drop (count - 1) pe) of
                       Inl err \<Rightarrow> Inl (Wrap ''list %s - %v'' [e_Name e] err)
                     | Inr ee \<Rightarrow> Inr (Next (drop count pe) elems' ee))))
          else if IsChoice Y e then
            (case choiceFind Y e p0 (e_children e) of
               Some ee \<Rightarrow> Inr (Next ps (elems @ [cpe]) ee)
             | None \<Rightarrow> Inl (Errorf ''choice %s - unknown element %s'' [e_Name e, p0]))
          else if IsCase Y e then
            (case map_of (e_Dir e) p0 of
               Some ee \<Rightarrow> Inr (Next ps elems ee)
             | None \<Rightarrow>
                 (case map_of (e_Dir e) (e_Name e) of
                    Some ee \<Rightarrow> Inr (Next pe elems ee)
                  | None \<Rightarrow> Inl (Errorf ''case %s - unknown element %s'' [e_Name e, p0])))
          else if IsContainer Y e then
            (case map_of (e_Dir e) p0 of
               Some ee \<Rightarrow>
                 if IsChoice Y ee then Inr (Next ps elems ee)
                 else Inr (Next pe (elems @ [cpe]) ee)
             | None \<Rightarrow>
                 (case ps of
                    [] \<Rightarrow> Inr (Done (elems @ [cpe]))
                  | p1 # _ \<Rightarrow>
                      (case map_of (e_Dir e) p1 of
                         Some ee \<Rightarrow> Inr (Next ps (elems @ [cpe]) ee)
                       | None \<Rightarrow>
                           (case findChoiceCase Y e pe of
                              Inl err \<Rightarrow> Inl (Wrap ''container %s - %v'' [e_Name e] err)
                            | Inr ee \<Rightarrow> Inr (Next ps (elems @ [cpe]) ee)))))
          else if IsLeaf Y e then
            (if length pe \<noteq> 1 then Inl (Errorf ''leaf %s - unknown element %v'' [e_Name e, p0])
             else Inr (Done (elems @ [cpe])))
          else if IsLeafList Y e then
            (case ps of
               [] \<Rightarrow> Inr (Done (elems @ [cpe]))
             | [v] \<Rightarrow> Inr (Done (elems @ [cpe\<lparr>pe_Key := [(e_Name e, v)]\<rparr>]))
             | _ # p2 # _ \<Rightarrow> Inl (Errorf ''leafList %s - unknown element %q'' [e_Name e, p2]))
          else Inr (Done elems))"

lemma map_of_child: "map_of (e_Dir e) k = Some c \<Longrightarrow> c \<in> set (e_children e)"
  using e_Dir_children map_of_SomeD by metis

lemma map_of_child_size: "map_of (e_Dir e) k = Some c \<Longrightarrow> size (ent c) < size (ent e)"
  by (blast dest: map_of_child size_children)

lemma inCases_in: "inCases Y cs k = Some x \<Longrightarrow> \<exists>c\<in>set cs. x \<in> set (e_children c)"
  by (induction cs) (auto split: if_splits option.splits dest: map_of_child)

lemma findCC_in:
  "findCC Y es k = Some x \<Longrightarrow> \<exists>ee\<in>set es. x \<in> set (e_children ee) \<or> (\<exists>c\<in>set (e_children ee). x \<in> set (e_children c))"
  by (induction es) (auto split: if_splits option.splits dest: map_of_child inCases_in)

lemma findCC_size: "findCC Y (e_children e) k = Some x \<Longrightarrow> size (ent x) < size (ent e)"
  by (drule findCC_in) (meson order_less_trans size_children)

lemma findChoiceCase_size: "findChoiceCase Y e pe = Inr x \<Longrightarrow> pe \<noteq> [] \<Longrightarrow> size (ent x) < size (ent e)"
  by (auto simp: findChoiceCase_def split: list.splits option.splits dest: findCC_size)

lemma choiceFind_size:
  "choiceFind Y e k cs = Some x \<Longrightarrow> set cs \<subseteq> set (e_children e) \<Longrightarrow> size (ent x) < size (ent e)"
proof (induction cs)
  case Nil
  then show ?case by simp
next
  case (Cons c cs)
  then show ?case
    by (auto split: if_splits option.splits dest!: map_of_child_size)
      (use size_children [of c e] in linarith)
qed

lemma buildStep_size: "buildStep Y pe elems e = Inr (Next pe' elems' e') \<Longrightarrow> size (ent e') < size (ent e)"
  by (auto simp: buildStep_def Let_def split: list.splits if_splits option.splits sum.splits
      dest: map_of_child_size findChoiceCase_size choiceFind_size)

function buildPath :: "yang_api \<Rightarrow> string list \<Rightarrow> PathElem list \<Rightarrow> eptr \<Rightarrow> PathElem list res" where
  "buildPath Y pe elems e =
     (case buildStep Y pe elems e of
        Inl err \<Rightarrow> Inl err
      | Inr (Done es) \<Rightarrow> Inr es
      | Inr (Next pe' elems' e') \<Rightarrow> buildPath Y pe' elems' e')"
  by pat_completeness auto
termination
  by (relation "measure (\<lambda>(Y, pe, elems, e). size (ent e))") (auto dest: buildStep_size)

declare buildPath.simps [simp del]

text \<open>\<open>BuildPath\<close> on the path \<open>p\<close> with elements \<open>elems\<close>; the result is what \<open>p.Elem\<close>
  holds when it returns without error.\<close>

definition BuildPath :: "yang_api \<Rightarrow> schema \<Rightarrow> string list \<Rightarrow> PathElem list \<Rightarrow> PathElem list res" where
  "BuildPath Y sc pe elems =
     (case pe of
        [] \<Rightarrow> Inr elems
      | p0 # ps \<Rightarrow>
          (case rootPtr sc of
             None \<Rightarrow> Inl nilDeref
           | Some root \<Rightarrow>
               (let (first, p0', found) = cutFirst p0; pe' = p0' # ps in
                case map_of (e_Dir root) first of
                  Some e \<Rightarrow>
                    (case map_of (e_Dir e) p0' of
                       Some ee \<Rightarrow>
                         rbind (buildPath Y pe' elems ee) (\<lambda>es.
                           case es of
                             [] \<Rightarrow> Inl (GoPanic ''index out of range'')
                           | x # xs \<Rightarrow> Inr (x\<lparr>pe_Name := first @ [colon] @ pe_Name x\<rparr> # xs))
                     | None \<Rightarrow> Inl (Errorf ''elem %q not found in module %q'' [p0', first]))
                | None \<Rightarrow>
                    (case findChild (e_children root) p0' of
                       Some ee \<Rightarrow> buildPath Y pe' elems ee
                     | None \<Rightarrow> Inl (Errorf ''path %v does not exist in schema %s''
                         (pe' @ [cfg_Name (sc_config sc), cfg_Vendor (sc_config sc), cfg_Version (sc_config sc)]))))))"

section \<open>Lookup is deterministic path resolution\<close>

definition moduleOk :: "yang_api \<Rightarrow> eptr \<Rightarrow> bool" where
  "moduleOk Y m \<longleftrightarrow> e_Parent m = None \<and> \<not> isCC Y m \<and> e_Name m \<noteq> RootName \<and> colon \<notin> set (e_Name m) \<and>
     wfLinked (ent m) \<and> unique_names Y m \<and> list_all (\<lambda>c. a_Prefix (attrs (ent c)) \<noteq> None) (e_children m)"

definition rootOk :: "yang_api \<Rightarrow> entry \<Rightarrow> bool" where
  "rootOk Y r \<longleftrightarrow> a_Node (attrs r) = None \<and> a_Name (attrs r) = RootName \<and>
     list_all (\<lambda>(k, m). k = e_Name m \<and> moduleOk Y m) (e_Dir (Ptr r [])) \<and>
     distinct (map fst (e_Dir (Ptr r [])))"

definition candidate :: "string \<Rightarrow> eptr \<Rightarrow> bool" where
  "candidate p0 m \<longleftrightarrow>
     (case map_of (e_Dir m) (unprefixed p0) of
        None \<Rightarrow> False
      | Some ee \<Rightarrow> colon \<in> set p0 \<longrightarrow> a_Prefix (attrs (ent ee)) = Some (takeWhile (\<lambda>c. c \<noteq> colon) p0))"

lemma cut_unprefixed:
  "str_cut colon p0 = (if colon \<in> set p0 then (takeWhile (\<lambda>c. c \<noteq> colon) p0, unprefixed p0, True) else (p0, [], False))
   \<and> (colon \<notin> set p0 \<longrightarrow> unprefixed p0 = p0)"
proof (cases "str_index colon p0")
  case None
  then have "colon \<notin> set p0" by (simp add: str_index_None)
  with None show ?thesis by (auto simp: str_cut_def unprefixed_def splitN2_def)
next
  case (Some i)
  note s = str_index_Some [OF Some]
  then have "takeWhile (\<lambda>c. c \<noteq> colon) p0 = take i p0"
    by (metis (mono_tags, lifting) takeWhile_append2 takeWhile.simps(2) append_Nil2)
  moreover have "colon \<in> set p0" using s by (metis in_set_conv_decomp)
  ultimately show ?thesis using Some by (simp add: str_cut_def unprefixed_def splitN2_def)
qed

lemma dirHas_candidate:
  assumes "moduleOk Y m"
  shows "dirHas m (unprefixed p0) (colon \<in> set p0) (takeWhile (\<lambda>c. c \<noteq> colon) p0) = Inr (candidate p0 m)"
proof (cases "map_of (e_Dir m) (unprefixed p0)")
  case None
  then show ?thesis by (simp add: dirHas_def candidate_def)
next
  case (Some ee)
  then have "ee \<in> set (e_children m)" using e_Dir_children map_of_SomeD by metis
  with assms have "a_Prefix (attrs (ent ee)) \<noteq> None" by (simp add: moduleOk_def list_all_iff)
  with Some show ?thesis by (auto simp: dirHas_def candidate_def prefixIs_def)
qed

lemma rootOk_module: "rootOk Y r \<Longrightarrow> m \<in> set (e_children (Ptr r [])) \<Longrightarrow> moduleOk Y m"
  by (auto simp: rootOk_def e_children_snd list_all_iff)

lemma rootOk_names: "rootOk Y r \<Longrightarrow> map e_Name (e_children (Ptr r [])) = map fst (e_Dir (Ptr r []))"
  by (auto simp: rootOk_def e_children_snd list_all_iff)

lemma rootOk_inj:
  assumes "rootOk Y r" "set ms \<subseteq> set (e_children (Ptr r []))"
  shows "inj_on e_Name (set ms)"
proof -
  have "distinct (map e_Name (e_children (Ptr r [])))"
    using rootOk_names [OF assms(1)] assms(1) by (simp add: rootOk_def)
  then show ?thesis using assms(2) by (meson distinct_map inj_on_subset)
qed

abbreviation modLess :: "eptr \<Rightarrow> eptr \<Rightarrow> bool" where
  "modLess i j \<equiv> SortModulesAB (e_Name i) (e_Name j) DeprioritizedModules"

lemma FindPossible_root:
  assumes "rootOk Y r" "sc_root sc = Some r" "map_of (e_Dir (Ptr r [])) (unprefixed p0) = None"
  shows "FindPossibleModulesForPathElement Y sc (rootPtr sc) p0 =
    (case filter (candidate p0) (e_children (Ptr r [])) of
       [] \<Rightarrow> Inl (Errorf ''unable to find entry for prefix %q, path %q in root''
          [if colon \<in> set p0 then takeWhile (\<lambda>c. c \<noteq> colon) p0 else [], unprefixed p0])
     | ms \<Rightarrow> Inr (sort_by modLess ms))"
proof -
  let ?pf = "if colon \<in> set p0 then takeWhile (\<lambda>c. c \<noteq> colon) p0 else []"
  have d: "dirHas m (unprefixed p0) (colon \<in> set p0) ?pf = Inr (candidate p0 m)"
    if "m \<in> set (e_children (Ptr r []))" for m
    using dirHas_candidate [OF rootOk_module [OF assms(1) that], of p0]
    by (auto simp: dirHas_def candidate_def split: option.splits)
  have f: "rfilter (\<lambda>m. dirHas m (unprefixed p0) (colon \<in> set p0) ?pf) (e_children (Ptr r [])) =
      Inr (filter (candidate p0) (e_children (Ptr r [])))"
    by (rule rfilter_pure) (rule d)
  have "dirHas (Ptr r []) (unprefixed p0) (colon \<in> set p0) ?pf = Inr False"
    using assms(3) by (simp add: dirHas_def)
  moreover have "a_Node (attrs r) = None" "a_Name (attrs r) = RootName"
    using assms(1) by (simp_all add: rootOk_def)
  moreover have "str_cut colon p0 = (if colon \<in> set p0 then ?pf else p0, if colon \<in> set p0 then unprefixed p0 else [],
      colon \<in> set p0)" "colon \<notin> set p0 \<Longrightarrow> p0 = unprefixed p0"
    using cut_unprefixed [of p0] by auto
  ultimately show ?thesis using f assms(2)
    by (cases "colon \<in> set p0"; cases "filter (candidate p0) (e_children (Ptr r []))")
       (simp_all add: FindPossibleModulesForPathElement_def rootPtr_def)
qed

lemma firstEntry_Some:
  "firstEntry Y ms pe = Some e \<longleftrightarrow>
   (\<exists>xs m ys. ms = xs @ m # ys \<and> getEntry Y m pe = Inr e \<and> (\<forall>x\<in>set xs. \<exists>err. getEntry Y x pe = Inl err))"
  (is "_ \<longleftrightarrow> ?first ms")
proof (induction ms)
  case Nil
  then show ?case by simp
next
  case (Cons a ms)
  show ?case
  proof (cases "getEntry Y a pe")
    case (Inl err)
    have "?first (a # ms) \<longleftrightarrow> ?first ms"
    proof
      assume "?first (a # ms)"
      then obtain xs m ys where x: "a # ms = xs @ m # ys" "getEntry Y m pe = Inr e"
        "\<forall>x\<in>set xs. \<exists>err. getEntry Y x pe = Inl err" by blast
      with Inl obtain xs' where "xs = a # xs'" by (cases xs) auto
      with x show "?first ms" by auto
    next
      assume "?first ms"
      then obtain xs m ys where "ms = xs @ m # ys" "getEntry Y m pe = Inr e"
        "\<forall>x\<in>set xs. \<exists>err. getEntry Y x pe = Inl err" by blast
      with Inl show "?first (a # ms)" by (intro exI [of _ "a # xs"]) auto
    qed
    with Cons Inl show ?thesis by simp
  next
    case (Inr e')
    have "?first (a # ms) \<longleftrightarrow> e' = e"
      using Inr by (auto simp: Cons_eq_append_conv intro: exI [of _ "[]"])
    with Inr show ?thesis by simp
  qed
qed

lemma getEntry_fails:
  "moduleOk Y m \<Longrightarrow> (\<exists>err. getEntry Y m pe = Inl err) \<longleftrightarrow> \<not> (\<exists>e. data_path Y m pe e)"
  using getEntry_sound getEntry_complete
  by (metis moduleOk_def sum.exhaust sum.distinct(1))

lemma sorted_first:
  assumes "rootOk Y r" "set cs \<subseteq> set (e_children (Ptr r []))"
    and "sorted_wrt (\<lambda>a b. \<not> modLess b a) cs"
  shows "(\<exists>xs m ys. cs = xs @ m # ys \<and> P m \<and> (\<forall>x\<in>set xs. \<not> Q x)) \<longleftrightarrow>
    (\<exists>m\<in>set cs. P m \<and> (\<forall>m'\<in>set cs. modLess m' m \<longrightarrow> \<not> Q m'))"
proof
  assume "\<exists>xs m ys. cs = xs @ m # ys \<and> P m \<and> (\<forall>x\<in>set xs. \<not> Q x)"
  then obtain xs m ys where cs: "cs = xs @ m # ys" "P m" "\<forall>x\<in>set xs. \<not> Q x" by blast
  with assms(3) have "\<forall>y\<in>set (m # ys). \<not> modLess y m"
    using module_order.irrefl by (auto simp: sorted_wrt_append)
  with cs show "\<exists>m\<in>set cs. P m \<and> (\<forall>m'\<in>set cs. modLess m' m \<longrightarrow> \<not> Q m')" by auto
next
  assume "\<exists>m\<in>set cs. P m \<and> (\<forall>m'\<in>set cs. modLess m' m \<longrightarrow> \<not> Q m')"
  then obtain m where m: "m \<in> set cs" "P m" "\<forall>m'\<in>set cs. modLess m' m \<longrightarrow> \<not> Q m'" by blast
  from split_list_first [OF m(1)] obtain xs ys where cs: "cs = xs @ m # ys" "m \<notin> set xs" by blast
  have "\<not> Q x" if x: "x \<in> set xs" for x
  proof -
    have "e_Name x \<noteq> e_Name m"
      using rootOk_inj [OF assms(1,2)] x cs by (metis Un_iff inj_onD list.set_intros(1) set_append)
    moreover have "\<not> modLess m x" using assms(3) x cs(1) by (simp add: sorted_wrt_append)
    ultimately have "modLess x m" using module_order.total by blast
    with m(3) x cs(1) show ?thesis by simp
  qed
  with cs m(2) show "\<exists>xs m ys. cs = xs @ m # ys \<and> P m \<and> (\<forall>x\<in>set xs. \<not> Q x)" by blast
qed

lemma GetEntry_mods:
  assumes "FindPossibleModulesForPathElement Y sc (rootPtr sc) p0 = Inr cs" "\<forall>x\<in>set cs. e_Name x \<noteq> p0"
  shows "GetEntry Y sc (p0 # ps) = Inr e \<longleftrightarrow> firstEntry Y cs (p0 # ps) = Some e"
  using assms by (cases "firstEntry Y cs (p0 # ps)") (auto simp: GetEntry_def simp del: firstEntry.simps split: list.splits)

lemma GetEntry_first:
  assumes "rootOk Y r" "sc_root sc = Some r" "map_of (e_Dir (Ptr r [])) (unprefixed p0) = None"
  shows "GetEntry Y sc (p0 # ps) = Inr e \<longleftrightarrow>
    firstEntry Y (sort_by modLess (filter (candidate p0) (e_children (Ptr r [])))) (p0 # ps) = Some e"
proof (cases "filter (candidate p0) (e_children (Ptr r []))")
  case Nil
  then show ?thesis using FindPossible_root [OF assms] by (simp add: GetEntry_def)
next
  case (Cons m ms)
  let ?cs = "sort_by modLess (filter (candidate p0) (e_children (Ptr r [])))"
  have notmod: "e_Name x \<noteq> p0" if "x \<in> set ?cs" for x
  proof
    assume n: "e_Name x = p0"
    have x: "x \<in> set (e_children (Ptr r []))" using that by simp
    then have "colon \<notin> set p0" using rootOk_module [OF assms(1)] n by (auto simp: moduleOk_def)
    then have "unprefixed p0 = e_Name x" using cut_unprefixed n by simp
    moreover have "e_Name x \<in> fst ` set (e_Dir (Ptr r []))"
      using rootOk_names [OF assms(1)] x by (metis imageI set_map)
    ultimately show False using assms(3) by (simp add: map_of_eq_None_iff)
  qed
  have f: "FindPossibleModulesForPathElement Y sc (rootPtr sc) p0 = Inr ?cs"
    using FindPossible_root [OF assms] Cons by simp
  show ?thesis by (rule GetEntry_mods [OF f]) (use notmod in blast)
qed

text \<open>C8: \<open>GetEntry\<close> resolves a path in the first module, in the order of
  \<open>SortModulesAB\<close>, that has it. The first element may carry a prefix, which then has to be the
  prefix of the module's top-level node. The answer is determined by the set of loaded modules: the
  random order in which Go visits \<open>root.Dir\<close> does not show.\<close>

theorem GetEntry_spec:
  assumes "rootOk Y r" "sc_root sc = Some r" "map_of (e_Dir (Ptr r [])) (unprefixed p0) = None"
  shows "GetEntry Y sc (p0 # ps) = Inr e \<longleftrightarrow>
    (\<exists>m \<in> set (e_children (Ptr r [])). candidate p0 m \<and> data_path Y m (p0 # ps) e \<and>
      (\<forall>m' \<in> set (e_children (Ptr r [])). candidate p0 m' \<and> modLess m' m \<longrightarrow>
         \<not> (\<exists>e'. data_path Y m' (p0 # ps) e')))"
proof -
  let ?ms = "e_children (Ptr r [])" and ?pe = "p0 # ps"
  let ?cs = "sort_by modLess (filter (candidate p0) ?ms)"
  have ok: "moduleOk Y m" if "m \<in> set ?cs" for m using rootOk_module [OF assms(1)] that by simp
  have dp: "getEntry Y m ?pe = Inr e \<longleftrightarrow> data_path Y m ?pe e" if "m \<in> set ?cs" for m e
    using ok [OF that] getEntry_sound getEntry_complete by (metis moduleOk_def)
  have sub: "set ?cs \<subseteq> set ?ms" by auto
  have "GetEntry Y sc ?pe = Inr e \<longleftrightarrow> (\<exists>m\<in>set ?cs. getEntry Y m ?pe = Inr e \<and>
        (\<forall>m'\<in>set ?cs. modLess m' m \<longrightarrow> \<not> \<not> (\<exists>err. getEntry Y m' ?pe = Inl err)))"
    unfolding GetEntry_first [OF assms] firstEntry_Some
    by (subst sorted_first [OF assms(1) sub module_order.sorted_sort_by, symmetric]) simp
  also have "\<dots> \<longleftrightarrow> (\<exists>m\<in>set ?cs. data_path Y m ?pe e \<and>
        (\<forall>m'\<in>set ?cs. modLess m' m \<longrightarrow> \<not> (\<exists>e'. data_path Y m' ?pe e')))"
    unfolding not_not by (intro bex_cong ball_cong conj_cong imp_cong refl) (simp_all only: dp getEntry_fails [OF ok])
  also have "\<dots> \<longleftrightarrow> (\<exists>m \<in> set ?ms. candidate p0 m \<and> data_path Y m ?pe e \<and>
      (\<forall>m' \<in> set ?ms. candidate p0 m' \<and> modLess m' m \<longrightarrow> \<not> (\<exists>e'. data_path Y m' ?pe e')))"
    by auto
  finally show ?thesis .
qed

definition fxSchema :: schema where
  "fxSchema = \<lparr>sc_config = \<lparr>cfg_Name = ''lrc'', cfg_Vendor = ''test'', cfg_Version = ''0.0.0'', cfg_Files = [],
     cfg_Directories = [], cfg_Excludes = []\<rparr>, sc_root = Some fxRoot, sc_status = ''ok'', sc_annot = []\<rparr>"

theorem GetEntry_spec_witness:
  "GetEntry kindApi fxSchema [''lrc:host'', ''detail-list'', ''source-id''] = Inr fxSourceId \<and>
   (\<exists>m \<in> set (e_children (Ptr fxRoot [])). data_path kindApi m [''lrc:host'', ''detail-list'', ''source-id''] fxSourceId)"
proof -
  have "rootOk kindApi fxRoot" "sc_root fxSchema = Some fxRoot"
    "map_of (e_Dir (Ptr fxRoot [])) (unprefixed ''lrc:host'') = None"
    "GetEntry kindApi fxSchema [''lrc:host'', ''detail-list'', ''source-id''] = Inr fxSourceId"
    by code_simp+
  then show ?thesis using GetEntry_spec [of kindApi fxRoot fxSchema "''lrc:host''"] by blast
qed

section \<open>Building a path inverts flattening it\<close>

text \<open>\<open>choice_member Y e n c\<close>: \<open>c\<close> is called \<open>n\<close> in a choice of \<open>e\<close>, directly
  (a shorthand case) or in one of its cases.\<close>

definition choice_member :: "yang_api \<Rightarrow> eptr \<Rightarrow> string \<Rightarrow> eptr \<Rightarrow> bool" where
  "choice_member Y e n c \<longleftrightarrow> (\<exists>ch\<in>set (e_children e). IsChoice Y ch \<and>
     (map_of (e_Dir ch) n = Some c \<and> \<not> IsCase Y c \<or>
      (\<exists>k\<in>set (e_children ch). IsCase Y k \<and> map_of (e_Dir k) n = Some c)))"

text \<open>One step of a data path that \<open>buildPath\<close> supports: a child that is no choice, or the only
  member of that name in the choices of \<open>e\<close>.\<close>

definition bp_child :: "yang_api \<Rightarrow> eptr \<Rightarrow> eptr \<Rightarrow> bool" where
  "bp_child Y e c \<longleftrightarrow> map_of (e_Dir e) (e_Name c) = Some c \<or>
     map_of (e_Dir e) (e_Name c) = None \<and> choice_member Y e (e_Name c) c \<and>
       (\<forall>c'. choice_member Y e (e_Name c) c' \<longrightarrow> c' = c)"

text \<open>\<open>follows Y e els\<close>: \<open>els\<close> is an instance path that starts at the node \<open>e\<close>. Lists
  carry their keys in the order of their names; only the last element may leave keys out.\<close>

inductive follows :: "yang_api \<Rightarrow> eptr \<Rightarrow> PathElem list \<Rightarrow> bool" for Y where
  leaf: "IsLeaf Y e \<Longrightarrow> \<not> IsList Y e \<Longrightarrow> \<not> isCC Y e \<Longrightarrow> \<not> IsContainer Y e \<Longrightarrow>
    follows Y e [\<lparr>pe_Name = e_Name e, pe_Key = []\<rparr>]"
| leaflist: "IsLeafList Y e \<Longrightarrow> \<not> IsList Y e \<Longrightarrow> \<not> isCC Y e \<Longrightarrow> \<not> IsContainer Y e \<Longrightarrow> \<not> IsLeaf Y e \<Longrightarrow>
    ks = [] \<or> ks = [(e_Name e, v)] \<Longrightarrow> follows Y e [\<lparr>pe_Name = e_Name e, pe_Key = ks\<rparr>]"
| list_end: "IsList Y e \<Longrightarrow> distinct (str_fields (e_Key e)) \<Longrightarrow> length vs \<le> length (str_fields (e_Key e)) \<Longrightarrow>
    follows Y e [\<lparr>pe_Name = e_Name e, pe_Key = zip (sort (str_fields (e_Key e))) vs\<rparr>]"
| list_next: "IsList Y e \<Longrightarrow> distinct (str_fields (e_Key e)) \<Longrightarrow> length vs = length (str_fields (e_Key e)) \<Longrightarrow>
    bp_child Y e c \<Longrightarrow> follows Y c els \<Longrightarrow>
    follows Y e (\<lparr>pe_Name = e_Name e, pe_Key = zip (sort (str_fields (e_Key e))) vs\<rparr> # els)"
| container_end: "IsContainer Y e \<Longrightarrow> \<not> IsList Y e \<Longrightarrow> \<not> isCC Y e \<Longrightarrow> map_of (e_Dir e) (e_Name e) = None \<Longrightarrow>
    follows Y e [\<lparr>pe_Name = e_Name e, pe_Key = []\<rparr>]"
| container_next: "IsContainer Y e \<Longrightarrow> \<not> IsList Y e \<Longrightarrow> \<not> isCC Y e \<Longrightarrow> map_of (e_Dir e) (e_Name e) = None \<Longrightarrow>
    bp_child Y e c \<Longrightarrow> follows Y c els \<Longrightarrow>
    follows Y e (\<lparr>pe_Name = e_Name e, pe_Key = []\<rparr> # els)"

lemma inCases_iff:
  "(\<exists>c. inCases Y cs n = Some c) \<longleftrightarrow> (\<exists>k\<in>set cs. \<exists>c. IsCase Y k \<and> map_of (e_Dir k) n = Some c)"
  by (induction cs) (auto split: option.splits)

lemma inCases_Some: "inCases Y cs n = Some c \<Longrightarrow> \<exists>k\<in>set cs. IsCase Y k \<and> map_of (e_Dir k) n = Some c"
  by (induction cs) (auto split: if_splits option.splits)

lemma findCC_Some:
  "findCC Y es n = Some c \<Longrightarrow> \<exists>ch\<in>set es. IsChoice Y ch \<and>
     (map_of (e_Dir ch) n = Some c \<and> \<not> IsCase Y c \<or>
      (\<exists>k\<in>set (e_children ch). IsCase Y k \<and> map_of (e_Dir k) n = Some c))"
  by (induction es) (auto split: if_splits option.splits dest: inCases_Some)

lemma findCC_None:
  "findCC Y es n = None \<Longrightarrow> ch \<in> set es \<Longrightarrow> IsChoice Y ch \<Longrightarrow>
     inCases Y (e_children ch) n = None \<and> (\<forall>c. map_of (e_Dir ch) n = Some c \<longrightarrow> IsCase Y c)"
  by (induction es) (auto split: if_splits option.splits)

lemma findCC_member:
  assumes "choice_member Y e n c" "\<forall>c'. choice_member Y e n c' \<longrightarrow> c' = c"
  shows "findCC Y (e_children e) n = Some c"
proof (cases "findCC Y (e_children e) n")
  case None
  from assms(1) obtain ch where ch: "ch \<in> set (e_children e)" "IsChoice Y ch"
    and c: "map_of (e_Dir ch) n = Some c \<and> \<not> IsCase Y c \<or> (\<exists>k\<in>set (e_children ch). IsCase Y k \<and> map_of (e_Dir k) n = Some c)"
    by (auto simp: choice_member_def)
  then show ?thesis using findCC_None [OF None ch] inCases_iff [of Y "e_children ch" n] by auto
next
  case (Some x)
  then have "choice_member Y e n x" using findCC_Some unfolding choice_member_def by fast
  with assms(2) Some show ?thesis by simp
qed


lemma update_new: "k \<notin> set (map fst m) \<Longrightarrow> AList.update k v m = m @ [(k, v)]"
  by (induction m) auto

lemma fold_update_zip:
  "distinct (map fst m @ ks) \<Longrightarrow> fold (\<lambda>(k, v) m. AList.update k v m) (zip ks vs) m = m @ zip ks vs"
proof (induction ks arbitrary: m vs)
  case Nil
  then show ?case by simp
next
  case (Cons k ks)
  show ?case
  proof (cases vs)
    case Nil
    then show ?thesis by simp
  next
    case c: (Cons v vs')
    from Cons.prems have "AList.update k v m = m @ [(k, v)]" by (intro update_new) auto
    moreover from Cons.prems have "distinct (map fst (m @ [(k, v)]) @ ks)" by auto
    ultimately show ?thesis using Cons.IH [of "m @ [(k, v)]" vs'] c by simp
  qed
qed

lemma assignKeys_zip: "distinct ks \<Longrightarrow> assignKeys ks vs = zip ks vs"
  by (simp add: assignKeys_def fold_update_zip)

definition flat :: "PathElem list \<Rightarrow> string list" where
  "flat els = concat (map (\<lambda>e. pe_Name e # map snd (pe_Key e)) els)"

lemma flat_Cons [simp]: "flat (x # xs) = pe_Name x # map snd (pe_Key x) @ flat xs"
  by (simp add: flat_def)

lemma flat_Nil [simp]: "flat [] = []"
  by (simp add: flat_def)

lemma follows_head: "follows Y e els \<Longrightarrow> \<exists>el els'. els = el # els' \<and> pe_Name el = e_Name e"
  by (cases rule: follows.cases) auto

lemma follows_not_CC: "follows Y e els \<Longrightarrow> \<not> IsList Y e \<Longrightarrow> \<not> isCC Y e"
  by (cases rule: follows.cases) auto

lemma bp_child_step:
  assumes "bp_child Y e c"
  shows "map_of (e_Dir e) (e_Name c) = Some c \<or>
    map_of (e_Dir e) (e_Name c) = None \<and> findChoiceCase Y e (x # e_Name c # ps) = Inr c"
  using assms findCC_member [of Y e "e_Name c" c]
  by (auto simp: bp_child_def findChoiceCase_def)


lemma sortedVals_eq: "sortedVals m = map (map_get m) (sort (map fst m))"
  by (simp add: sortedVals_def map_get_def split: list.split)

lemma map_get_zip: "distinct (map fst m) \<Longrightarrow> map (map_get m) (map fst m) = map snd m"
  by (auto simp: map_get_def)

lemma sortedVals_zip:
  assumes "distinct ks" "length vs \<le> length ks"
  shows "sortedVals (zip (sort ks) vs) = vs"
proof -
  let ?m = "zip (sort ks) vs"
  have f: "map fst ?m = take (length vs) (sort ks)"
    using assms(2) by (simp add: map_fst_zip_take)
  have "sort (map fst ?m) = map fst ?m"
    unfolding f by (rule sorted_sort_id) (simp add: sorted_wrt_take)
  moreover have "distinct (map fst ?m)" unfolding f using assms(1) by simp
  ultimately have "sortedVals ?m = map snd ?m" by (simp only: sortedVals_eq map_get_zip)
  then show ?thesis using assms(2) by (simp add: map_snd_zip_take)
qed

lemma ToStrings_follows: "follows Y e els \<Longrightarrow> ToStrings (Some \<lparr>p_Origin = g, p_Target = t, p_Elem = els\<rparr>) False False = flat els"
proof (induction rule: follows.induct)
  case (list_end e vs)
  then show ?case by (simp add: ToStrings_def sortedVals_zip map_snd_zip_take)
next
  case (list_next e vs c els)
  then show ?case by (simp add: ToStrings_def sortedVals_zip)
next
  case (leaflist e ks v)
  then show ?case by (auto simp: ToStrings_def sortedVals_def)
qed (simp_all add: ToStrings_def sortedVals_def)

lemma buildStep_list:
  assumes "IsList Y e" "distinct (str_fields (e_Key e))" "length vs \<le> length (str_fields (e_Key e))"
    and "rest = [] \<or> length vs = length (str_fields (e_Key e))"
  shows "buildStep Y (n # vs @ rest) acc e =
    (let acc' = acc @ [\<lparr>pe_Name = e_Name e, pe_Key = zip (sort (str_fields (e_Key e))) vs\<rparr>] in
     case rest of
       [] \<Rightarrow> Inr (Done acc')
     | x # _ \<Rightarrow>
         (case map_of (e_Dir e) x of
            Some ee \<Rightarrow> Inr (Next rest acc' ee)
          | None \<Rightarrow>
              (case findChoiceCase Y e (last (n # vs) # rest) of
                 Inl err \<Rightarrow> Inl (Wrap ''list %s - %v'' [e_Name e] err)
               | Inr ee \<Rightarrow> Inr (Next rest acc' ee))))"
proof -
  have l: "min (length (sort (str_fields (e_Key e)))) (length (vs @ rest)) = length vs"
    using assms(3,4) by (cases "rest = []") auto
  have z: "zip (sort (str_fields (e_Key e))) (vs @ rest) = zip (sort (str_fields (e_Key e))) vs"
    using assms(4) by (cases "rest = []") (auto simp: zip_append2)
  have d: "drop (length vs) (n # vs @ rest) = last (n # vs) # rest"
    by (cases vs rule: rev_cases) auto
  show ?thesis
    using assms(1,2) d z unfolding buildStep_def Let_def list.case l
    by (cases rest) (simp_all add: assignKeys_zip del: last.simps split: option.splits sum.splits)
qed

lemma buildPath_flat:
  "follows Y e els \<Longrightarrow> buildPath Y (flat els) acc e = Inr (acc @ els)"
proof (induction arbitrary: acc rule: follows.induct)
  case (leaf e)
  then show ?case by (subst buildPath.simps) (simp add: buildStep_def)
next
  case (leaflist e ks v)
  then show ?case by (subst buildPath.simps) (auto simp: buildStep_def)
next
  case (list_end e vs)
  then show ?case
    using buildStep_list [of Y e vs "[]" "e_Name e" acc]
    by (subst buildPath.simps) (simp add: map_snd_zip_take Let_def)
next
  case (list_next e vs c els)
  obtain el els' where els: "els = el # els'" "pe_Name el = e_Name c" using follows_head [OF list_next.hyps(5)] by blast
  with list_next bp_child_step [OF list_next.hyps(4), of "last (e_Name e # vs)" "map snd (pe_Key el) @ flat els'"] show ?case
    using buildStep_list [of Y e vs "flat els" "e_Name e" acc]
    by (subst buildPath.simps) (auto simp: Let_def simp del: last.simps)
next
  case (container_end e)
  then show ?case by (subst buildPath.simps) (simp add: buildStep_def)
next
  case (container_next e c els)
  obtain el els' where els: "els = el # els'" "pe_Name el = e_Name c" using follows_head [OF container_next.hyps(6)] by blast
  with container_next bp_child_step [OF container_next.hyps(5), of "e_Name e" "map snd (pe_Key el) @ flat els'"] show ?case
    by (subst buildPath.simps) (auto simp: buildStep_def)
qed

lemma findChild_unique:
  assumes "m \<in> set ms" "map_of (e_Dir m) n = Some e" "\<And>m'. m' \<in> set ms \<Longrightarrow> m' \<noteq> m \<Longrightarrow> map_of (e_Dir m') n = None"
  shows "findChild ms n = Some e"
  using assms(1,3) by (induction ms) (use assms(2) in \<open>fastforce split: option.split\<close>)+

text \<open>C17: \<open>BuildPath\<close> inverts \<open>ToStrings\<close>. The flat element list of an instance
  path, names and key values in the order \<open>ToStrings\<close> writes them, is turned back into that
  path, keys under their names, through containers, lists, leaf-lists and the members of choices,
  when exactly one module defines the first node.\<close>

theorem BuildPath_inverts_ToStrings:
  assumes "sc_root sc = Some r" "m \<in> set (e_children (Ptr r []))" "map_of (e_Dir m) (e_Name e) = Some e"
    and "\<forall>m' \<in> set (e_children (Ptr r [])). map_of (e_Dir m') (e_Name e) \<noteq> None \<longrightarrow> m' = m"
    and "map_of (e_Dir (Ptr r [])) (e_Name e) = None" "colon \<notin> set (e_Name e)" "follows Y e els"
  shows "BuildPath Y sc (ToStrings (Some \<lparr>p_Origin = g, p_Target = t, p_Elem = els\<rparr>) False False) [] = Inr els"
proof -
  obtain el els' where els: "els = el # els'" "pe_Name el = e_Name e" using follows_head [OF assms(7)] by blast
  with assms(6) have c: "cutFirst (pe_Name el) = (e_Name e, e_Name e, False)" by (simp add: cutFirst_def)
  have f: "findChild (e_children (Ptr r [])) (e_Name e) = Some e"
    by (rule findChild_unique [OF assms(2,3)]) (use assms(4) in blast)
  have "BuildPath Y sc (flat els) [] = buildPath Y (flat els) [] e"
    using assms(1,5) els c f by (simp add: BuildPath_def rootPtr_def)
  then show ?thesis using ToStrings_follows [OF assms(7)] buildPath_flat [OF assms(7)] by simp
qed

theorem BuildPath_inverts_ToStrings_witness:
  "BuildPath kindApi fxSchema [''host'', ''detail-list'', ''7'', ''source-id''] [] =
     Inr [\<lparr>pe_Name = ''host'', pe_Key = []\<rparr>, \<lparr>pe_Name = ''detail-list'', pe_Key = [(''id'', ''7'')]\<rparr>,
          \<lparr>pe_Name = ''source-id'', pe_Key = []\<rparr>]"
proof -
  let ?host = "Ptr fxHost [fxModule, fxRoot]" and ?list = "Ptr fxDetailList (tl (anc fxSourceId))"
  let ?els = "[\<lparr>pe_Name = ''host'', pe_Key = []\<rparr>, \<lparr>pe_Name = ''detail-list'', pe_Key = [(''id'', ''7'')]\<rparr>,
          \<lparr>pe_Name = ''source-id'', pe_Key = []\<rparr>]"
  have leaf: "follows kindApi fxSourceId [\<lparr>pe_Name = ''source-id'', pe_Key = []\<rparr>]"
    using follows.leaf [of kindApi fxSourceId] by (simp add: fx_defs)
  have k: "sort (str_fields (e_Key ?list)) = [''id'']" by code_simp
  have "bp_child kindApi ?list fxSourceId" unfolding bp_child_def by (rule disjI1) code_simp
  then have list: "follows kindApi ?list (tl ?els)"
    using follows.list_next [of kindApi ?list "[''7'']" fxSourceId, OF _ _ _ _ leaf] k
    by (simp add: fx_defs str_fields_def isSpace_def)
  have c: "choice_member kindApi ?host ''detail-list'' c \<longleftrightarrow> c = ?list" for c
    by (auto simp: choice_member_def e_children_def e_Dir_def dirl_def fx_defs)
  then have "bp_child kindApi ?host ?list"
    by (simp add: bp_child_def fx_defs e_Dir_def dirl_def)
  then have f: "follows kindApi ?host ?els"
    using follows.container_next [of kindApi ?host ?list, OF _ _ _ _ _ list]
    by (simp add: fx_defs e_Dir_def dirl_def)
  have "BuildPath kindApi fxSchema (ToStrings (Some \<lparr>p_Origin = [], p_Target = [], p_Elem = ?els\<rparr>) False False) [] = Inr ?els"
    by (rule BuildPath_inverts_ToStrings [of _ fxRoot fxModulePtr ?host, OF _ _ _ _ _ _ f])
       (simp_all add: fxSchema_def fx_defs e_children_def e_Dir_def dirl_def char_defs)
  then show ?thesis by (simp add: ToStrings_def sortedVals_def)
qed

text \<open>A container that has a leaf of its own name is not addressable. For the element list
  that names only the container, \<open>buildPath\<close> descends into the leaf, because it first looks for
  the container's own name among its children, and answers with the path of the leaf.\<close>

theorem buildPath_same_name:
  assumes "IsContainer Y e" "\<not> IsList Y e" "\<not> isCC Y e" "map_of (e_Dir e) (e_Name e) = Some c"
    and "IsLeaf Y c" "\<not> IsList Y c" "\<not> isCC Y c" "\<not> IsContainer Y c"
  shows "buildPath Y [e_Name e] acc e =
    Inr (acc @ [\<lparr>pe_Name = e_Name e, pe_Key = []\<rparr>, \<lparr>pe_Name = e_Name c, pe_Key = []\<rparr>])"
  using assms by (simp add: buildPath.simps [of Y _ _ e] buildPath.simps [of Y _ _ c] buildStep_def)

theorem buildPath_same_name_witness:
  "buildPath kindApi [''a''] [] (Ptr (fxDir ''a'' DirectoryEntry [fxLeaf ''a'' fxString]) []) =
     Inr [\<lparr>pe_Name = ''a'', pe_Key = []\<rparr>, \<lparr>pe_Name = ''a'', pe_Key = []\<rparr>]"
  using buildPath_same_name [of kindApi "Ptr (fxDir ''a'' DirectoryEntry [fxLeaf ''a'' fxString]) []"
      "Ptr (fxLeaf ''a'' fxString) [fxDir ''a'' DirectoryEntry [fxLeaf ''a'' fxString]]" "[]"]
  by (simp add: fx_defs e_Dir_def dirl_def)

end
