(* ===== verification/References.thy ===== *)
theory References
  imports SchemaObject
begin

text \<open>
  \<open>pkg/schema/references.go\<close>: leafref paths. \<open>normalizePath\<close> turns the path of a leafref
  into an absolute list of names, \<open>buildReferences\<close> notes at each target which leafs refer to
  it, \<open>buildPathUpFromEntry\<close> prints an entry's position.

  The main lemma is that a relative leafref resolves to the node the data tree says, also when
  choice and case nodes lie on the way up.
\<close>

section \<open>Normalising a path\<close>

definition hasRelativePathElem :: "Path \<Rightarrow> bool" where
  "hasRelativePathElem p = list_ex (\<lambda>pe. pe_Name pe = ''..'') (p_Elem p)"

definition isRelativeKey :: "string \<Rightarrow> bool" where
  "isRelativeKey v = (str_contains v ''..'' \<or> str_contains v ''current()'')"

definition hasRelativeKeys :: "Path \<Rightarrow> bool" where
  "hasRelativeKeys p = list_ex (\<lambda>pe. list_ex (\<lambda>(k, v). isRelativeKey v) (pe_Key pe)) (p_Elem p)"

text \<open>\<open>for (ce.IsCase() || ce.IsChoice()) && ce.Parent != nil { ce = ce.Parent.Parent }\<close>; the
  test dereferences \<open>ce\<close>.\<close>

function skipPairs :: "yang_api \<Rightarrow> eptr option \<Rightarrow> eptr res" where
  "skipPairs Y None = Inl nilDeref"
| "skipPairs Y (Some ce) =
     (if IsCase Y ce \<or> IsChoice Y ce then
        (case e_Parent ce of None \<Rightarrow> Inr ce | Some p \<Rightarrow> skipPairs Y (e_Parent p))
      else Inr ce)"
  by pat_completeness auto
termination
  by (relation "measure (\<lambda>(Y, ce). case ce of None \<Rightarrow> 0 | Some e \<Rightarrow> Suc (length (anc e)))")
     (auto dest!: Parent_length split: option.splits)

declare skipPairs.simps(2) [simp del]

text \<open>The loop over the elements of a relative path: the entry it stands at and the elements kept.
  The test on nil only matters before the first element.\<close>

primrec relLoop :: "yang_api \<Rightarrow> PathElem list \<Rightarrow> eptr \<Rightarrow> PathElem list \<Rightarrow> (eptr \<times> PathElem list) res" where
  "relLoop Y [] ce np = Inr (ce, np)"
| "relLoop Y (pe # pes) ce np =
     (if pe_Name pe = ''..'' then rbind (skipPairs Y (e_Parent ce)) (\<lambda>ce'. relLoop Y pes ce' np)
      else relLoop Y pes ce (np @ [pe]))"

function upLoop :: "yang_api \<Rightarrow> eptr \<Rightarrow> PathElem list \<Rightarrow> PathElem list" where
  "upLoop Y ce np =
     (case e_Parent ce of
        None \<Rightarrow> np
      | Some p \<Rightarrow>
          if e_Name p = RootName then np
          else upLoop Y p (if \<not> IsChoice Y ce \<and> \<not> IsCase Y ce
                           then \<lparr>pe_Name = e_Name ce, pe_Key = []\<rparr> # np else np))"
  by pat_completeness auto
termination
  by (relation "measure (\<lambda>(Y, ce, np). length (anc ce))") (auto dest: Parent_length)

declare upLoop.simps [simp del]

definition relativeToAbsPath :: "yang_api \<Rightarrow> Path \<Rightarrow> eptr \<Rightarrow> Path res" where
  "relativeToAbsPath Y p e =
     rbind (relLoop Y (p_Elem p) e []) (\<lambda>(ce, np).
       Inr \<lparr>p_Origin = [], p_Target = [], p_Elem = upLoop Y ce np\<rparr>)"

text \<open>The inner loops of \<open>relativeToAbsPathKeys\<close>, which move the current entry along the
  path in a key value.\<close>

function skipUp :: "yang_api \<Rightarrow> eptr \<Rightarrow> eptr" where
  "skipUp Y ce =
     (if IsCase Y ce \<or> IsChoice Y ce then (case e_Parent ce of None \<Rightarrow> ce | Some p \<Rightarrow> skipUp Y p) else ce)"
  by pat_completeness auto
termination
  by (relation "measure (\<lambda>(Y, ce). length (anc ce))") (auto dest: Parent_length)

declare skipUp.simps [simp del]

definition keyForward :: "yang_api \<Rightarrow> eptr option \<Rightarrow> PathElem \<Rightarrow> eptr option res" where
  "keyForward Y ceo kpe =
     (case ceo of
        None \<Rightarrow> Inl nilDeref
      | Some ce \<Rightarrow>
          if pe_Name kpe = ''current()'' then Inr (Some (skipUp Y ce))
          else if pe_Name kpe = ''..'' then Inr (e_Parent (skipUp Y ce))
          else Inr (map_of (e_Dir ce) (unprefixed (pe_Name kpe))))"

text \<open>A key value that does not parse leaves a nil path, which is dereferenced.\<close>

definition absKey :: "yang_api \<Rightarrow> eptr \<Rightarrow> string \<Rightarrow> string res" where
  "absKey Y e v =
     (case ParsePath (trimSpace v) of
        Inl _ \<Rightarrow> Inl nilDeref
      | Inr keyPath \<Rightarrow>
          rbind (rfold (keyForward Y) (Some e) (p_Elem keyPath)) (\<lambda>ceo.
            case ceo of None \<Rightarrow> Inl nilDeref | Some ce \<Rightarrow> Inr (EPath Y ce)))"

definition relativeToAbsPathKeys :: "yang_api \<Rightarrow> Path \<Rightarrow> eptr \<Rightarrow> Path res" where
  "relativeToAbsPathKeys Y p e =
     rbind (traverse (\<lambda>pe.
              rbind (traverse (\<lambda>(k, v). if isRelativeKey v then rbind (absKey Y e v) (\<lambda>v'. Inr (k, v')) else Inr (k, v))
                       (pe_Key pe))
                (\<lambda>ks. Inr (pe\<lparr>pe_Key := ks\<rparr>))) (p_Elem p))
       (\<lambda>es. Inr (p\<lparr>p_Elem := es\<rparr>))"

text \<open>The parse error is dropped: the path is then nil and the element list empty.\<close>

definition normalizePath :: "yang_api \<Rightarrow> string \<Rightarrow> eptr \<Rightarrow> string list res" where
  "normalizePath Y p e =
     (case ParsePath p of
        Inl _ \<Rightarrow> Inr (ToStrings None False True)
      | Inr scp \<Rightarrow>
          rbind (if hasRelativePathElem scp then relativeToAbsPath Y scp e else Inr scp) (\<lambda>scp1.
          rbind (if hasRelativeKeys scp1 then relativeToAbsPathKeys Y scp1 e else Inr scp1) (\<lambda>scp2.
            Inr (ToStrings (Some (scp2\<lparr>p_Elem := map (\<lambda>pe. pe\<lparr>pe_Name := unprefixed (pe_Name pe)\<rparr>) (p_Elem scp2)\<rparr>))
                   False True))))"

section \<open>References\<close>

text \<open>\<open>refEntry.Annotation["REF_"+e.Path()] = e\<close>\<close>

definition annotate :: "schema \<Rightarrow> eptr \<Rightarrow> string \<Rightarrow> eptr \<Rightarrow> schema" where
  "annotate sc refEntry k e =
     (let old = (case map_of (sc_annot sc) refEntry of None \<Rightarrow> [] | Some a \<Rightarrow> a) in
      sc\<lparr>sc_annot := AList.update refEntry (AList.update k e old) (sc_annot sc)\<rparr>)"

definition addReference :: "yang_api \<Rightarrow> schema \<Rightarrow> eptr \<Rightarrow> schema res" where
  "addReference Y sc e =
     (case a_Type (attrs (ent e)) of
        None \<Rightarrow> Inr sc
      | Some yt \<Rightarrow>
          if KindString Y (yt_Kind yt) = ''leafref'' then
            rbind (normalizePath Y (yt_Path yt) e) (\<lambda>pes.
              case GetEntry Y sc pes of
                Inl err \<Rightarrow> Inl (Wrap ''leafref %q normalized to %v: %w'' (yt_Path yt # pes) err)
              | Inr refEntry \<Rightarrow> Inr (annotate sc refEntry (''REF_'' @ EPath Y e) e))
          else Inr sc)"

text \<open>Below a choice or case child the grandchildren are visited first, and again when the
  child itself is.\<close>

function buildReferences :: "yang_api \<Rightarrow> schema \<Rightarrow> eptr \<Rightarrow> schema res" where
  "buildReferences Y sc e =
     (if isState e then Inr sc
      else
        rbind (addReference Y sc e) (\<lambda>sc1.
          rfold (\<lambda>sc2 ce.
             rbind (if IsCase Y ce \<or> IsChoice Y ce
                    then rfold (\<lambda>sc3 cce. buildReferences Y sc3 cce) sc2 (e_children ce) else Inr sc2)
               (\<lambda>sc4. buildReferences Y sc4 ce)) sc1 (e_children e)))"
  by pat_completeness auto
termination
  by (relation "measure (\<lambda>(Y, sc, e). size (ent e))") (auto dest: size_children intro: order_less_trans)

declare buildReferences.simps [simp del]

definition buildReferencesAnnotation :: "yang_api \<Rightarrow> schema \<Rightarrow> schema res" where
  "buildReferencesAnnotation Y sc =
     (case rootPtr sc of
        None \<Rightarrow> Inl nilDeref
      | Some root \<Rightarrow> rfold (buildReferences Y) sc (e_children root))"

text \<open>The loop of \<open>buildPathUpFromEntry\<close> collects from the entry upwards; the slice is then
  reversed in place.\<close>

function parentElems :: "yang_api \<Rightarrow> eptr \<Rightarrow> PathElem list" where
  "parentElems Y e =
     (case getParent (Some e) of
        None \<Rightarrow> []
      | Some p \<Rightarrow>
          if IsCase Y p \<or> IsChoice Y p then parentElems Y p
          else \<lparr>pe_Name = e_Name p, pe_Key = []\<rparr> # parentElems Y p)"
  by pat_completeness auto
termination
  by (relation "measure (\<lambda>(Y, e). length (anc e))")
     (auto simp: getParent_def dest: Parent_length split: option.splits if_splits)

declare parentElems.simps [simp del]

definition buildPathUpFromEntry :: "yang_api \<Rightarrow> eptr option \<Rightarrow> Path option" where
  "buildPathUpFromEntry Y eo = map_option (\<lambda>e.
     \<lparr>p_Origin = [], p_Target = [],
      p_Elem = rev (\<lparr>pe_Name = e_Name e, pe_Key = []\<rparr> # parentElems Y e)\<rparr>) eo"

section \<open>Leafrefs resolve to the node of the data tree\<close>

text \<open>goyang puts a case between a choice and each of its members, also where the module uses the
  shorthand; so the members of a choice are cases and cases occur nowhere else.\<close>

function caseShape :: "yang_api \<Rightarrow> eptr \<Rightarrow> bool" where
  "caseShape Y e = list_all (\<lambda>c. (IsChoice Y e \<longleftrightarrow> IsCase Y c) \<and> \<not> (IsCase Y c \<and> IsChoice Y c) \<and> caseShape Y c)
     (e_children e)"
  by pat_completeness auto
termination
  by (relation "measure (\<lambda>(Y, e). size (ent e))") (auto dest: size_children)

declare caseShape.simps [simp del]

lemma caseShape_child:
  "caseShape Y e \<Longrightarrow> c \<in> set (e_children e) \<Longrightarrow>
   (IsChoice Y e \<longleftrightarrow> IsCase Y c) \<and> \<not> (IsCase Y c \<and> IsChoice Y c) \<and> caseShape Y c"
  by (subst (asm) caseShape.simps) (auto simp: list_all_iff)

lemma data_child_shape: "data_child Y e c \<Longrightarrow> caseShape Y e \<Longrightarrow> caseShape Y c"
  by (induction rule: data_child.induct) (blast dest: caseShape_child)+

lemma skipPairs_data_child:
  "data_child Y e c \<Longrightarrow> wfLinked (ent e) \<Longrightarrow> caseShape Y e \<Longrightarrow> \<not> (IsCase Y e \<and> IsChoice Y e) \<Longrightarrow>
   skipPairs Y (e_Parent c) =
     (if IsCase Y e then skipPairs Y (Some e) else if IsChoice Y e then skipPairs Y (e_Parent e) else Inr e)"
proof (induction rule: data_child.induct)
  case (child e c)
  then have "e_Parent c = Some e" "\<not> IsChoice Y e"
    using wfLinked_child caseShape_child by blast+
  then show ?case by (simp add: skipPairs.simps(2))
next
  case (through e ee c)
  have ee: "e_Parent ee = Some e" "wfLinked (ent ee)" "caseShape Y ee"
    "IsChoice Y e \<longleftrightarrow> IsCase Y ee" "\<not> (IsCase Y ee \<and> IsChoice Y ee)"
    using through wfLinked_child caseShape_child by blast+
  then have ih: "skipPairs Y (e_Parent c) =
      (if IsCase Y ee then skipPairs Y (Some ee) else if IsChoice Y ee then skipPairs Y (Some e) else Inr ee)"
    using through.IH by simp
  show ?case
  proof (cases "IsCase Y ee")
    case True
    with ih ee through.prems show ?thesis by (auto simp: skipPairs.simps(2) [of Y ee])
  next
    case False
    with ih ee through.hyps show ?thesis by (auto simp: skipPairs.simps(2) [of Y e])
  qed
qed

lemma upLoop_data_child:
  "data_child Y e c \<Longrightarrow> wfLinked (ent e) \<Longrightarrow> e_Name e \<noteq> RootName \<Longrightarrow>
   upLoop Y c np = upLoop Y e (\<lparr>pe_Name = e_Name c, pe_Key = []\<rparr> # np)"
proof (induction rule: data_child.induct)
  case (child e c)
  then have "e_Parent c = Some e" using wfLinked_child by blast
  with child show ?case by (simp add: upLoop.simps [of Y c])
next
  case (through e ee c)
  have "e_Parent ee = Some e" "e_Name ee \<noteq> RootName" "wfLinked (ent ee)"
    using through wfLinked_child by blast+
  with through show ?case by (auto simp: upLoop.simps [of Y ee])
qed

lemma data_path_keeps:
  "data_path Y e pe e' \<Longrightarrow> wfLinked (ent e) \<Longrightarrow> caseShape Y e \<Longrightarrow> \<not> isCC Y e \<Longrightarrow> e_Name e \<noteq> RootName \<Longrightarrow>
   wfLinked (ent e') \<and> caseShape Y e' \<and> \<not> isCC Y e' \<and> e_Name e' \<noteq> RootName"
proof (induction rule: data_path.induct)
  case (down e c p ps e')
  then show ?case
    using data_child_skip [OF down.hyps(1)] data_child_shape [OF down.hyps(1)] getChildren_data [OF down.hyps(1)]
    by blast
qed simp

lemma upLoop_data_path:
  "data_path Y m pe e \<Longrightarrow> wfLinked (ent m) \<Longrightarrow> e_Name m \<noteq> RootName \<Longrightarrow>
   upLoop Y e np = upLoop Y m (map (\<lambda>p. \<lparr>pe_Name = unprefixed p, pe_Key = []\<rparr>) pe @ np)"
proof (induction arbitrary: np rule: data_path.induct)
  case (down e c p ps e')
  have "wfLinked (ent c)" "e_Name c \<noteq> RootName" using data_child_skip [OF down.hyps(1)] down.prems by blast+
  with down upLoop_data_child [OF down.hyps(1)] show ?case by simp
qed simp

lemma data_path_append: "data_path Y m pre a \<Longrightarrow> data_path Y a suf e \<Longrightarrow> data_path Y m (pre @ suf) e"
  by (induction rule: data_path.induct) (auto intro: data_path.down)

lemma data_path_snoc: "data_path Y a (suf @ [x]) e \<Longrightarrow> \<exists>b. data_path Y a suf b \<and> data_child Y b e"
proof (induction suf arbitrary: a)
  case Nil
  then show ?case by (auto elim!: data_path_ConsE data_path_NilE intro: data_path.here)
next
  case (Cons y ys)
  from Cons.prems obtain c where c: "data_child Y a c" "e_Name c = unprefixed y" "data_path Y c (ys @ [x]) e"
    by (auto elim: data_path_ConsE)
  with Cons.IH obtain b where "data_path Y c ys b" "data_child Y b e" by blast
  with c show ?case by (blast intro: data_path.down)
qed

lemma relLoop_keep: "list_all (\<lambda>q. pe_Name q \<noteq> ''..'') qs \<Longrightarrow> relLoop Y qs ce np = Inr (ce, np @ qs)"
  by (induction qs arbitrary: np) auto

lemma relLoop_up:
  assumes "wfLinked (ent a)" "caseShape Y a" "\<not> isCC Y a" "e_Name a \<noteq> RootName"
    and "list_all (\<lambda>d. pe_Name d = ''..'') ups" "list_all (\<lambda>q. pe_Name q \<noteq> ''..'') qs"
  shows "data_path Y a suf e \<Longrightarrow> length ups = length suf \<Longrightarrow> relLoop Y (ups @ qs) e [] = Inr (a, qs)"
  using assms(5)
proof (induction ups arbitrary: suf e)
  case Nil
  then show ?case using relLoop_keep [OF assms(6)] by (auto elim: data_path_NilE)
next
  case (Cons d ups)
  from Cons.prems(2) obtain suf' x where suf: "suf = suf' @ [x]" "length ups = length suf'"
    by (cases suf rule: rev_cases) auto
  with Cons.prems(1) data_path_snoc obtain b where b: "data_path Y a suf' b" "data_child Y b e" by blast
  then have "skipPairs Y (e_Parent e) = Inr b"
    using skipPairs_data_child [OF b(2)] data_path_keeps [OF b(1) assms(1-4)] by simp
  with Cons suf b(1) show ?case by simp
qed

lemma normalizePath_plain:
  assumes "ParsePath p = Inr scp" "p_Elem scp = qs" "\<not> hasRelativeKeys scp" "list_all (\<lambda>q. pe_Name q \<noteq> ''..'') qs"
  shows "normalizePath Y p e = Inr (map (unprefixed \<circ> pe_Name) qs)"
proof -
  have "\<not> hasRelativePathElem scp" using assms(2,4) by (auto simp: hasRelativePathElem_def list_all_iff list_ex_iff)
  then show ?thesis using assms by (simp add: normalizePath_def ToStrings_def comp_def concat_map_singleton)
qed

lemma normalizePath_relative:
  assumes "ParsePath p = Inr scp" "p_Elem scp = ups @ qs" "\<not> hasRelativeKeys scp"
    and "list_all (\<lambda>d. pe_Name d = ''..'') ups" "list_all (\<lambda>q. pe_Name q \<noteq> ''..'') qs" "ups \<noteq> []"
    and m: "e_Parent m = None" "wfLinked (ent m)" "caseShape Y m" "\<not> isCC Y m" "e_Name m \<noteq> RootName"
    and "data_path Y m pre a" "data_path Y a suf e" "length suf = length ups"
    and nc: "list_all (\<lambda>p. colon \<notin> set (unprefixed p)) pre"
  shows "normalizePath Y p e = Inr (map unprefixed pre @ map (unprefixed \<circ> pe_Name) qs)"
proof -
  note a = data_path_keeps [OF assms(12) m(2-5)]
  have r: "hasRelativePathElem scp" using assms(2,4,6) by (cases ups) (auto simp: hasRelativePathElem_def)
  have "relLoop Y (p_Elem scp) e [] = Inr (a, qs)"
    unfolding assms(2) by (rule relLoop_up [where suf = suf]) (use a assms in simp_all)
  moreover have "upLoop Y a qs = map (\<lambda>p. \<lparr>pe_Name = unprefixed p, pe_Key = []\<rparr>) pre @ qs"
    using upLoop_data_path [OF assms(12) m(2,5), of qs] m(1) by (simp add: upLoop.simps [of Y m])
  ultimately have abs: "relativeToAbsPath Y scp e =
      Inr \<lparr>p_Origin = [], p_Target = [], p_Elem = map (\<lambda>p. \<lparr>pe_Name = unprefixed p, pe_Key = []\<rparr>) pre @ qs\<rparr>"
    by (simp add: relativeToAbsPath_def)
  have "unprefixed (unprefixed p) = unprefixed p" if "p \<in> set pre" for p
    using nc that cut_unprefixed by (auto simp: list_all_iff)
  moreover have "\<not> hasRelativeKeys \<lparr>p_Origin = [], p_Target = [], p_Elem = map (\<lambda>p. \<lparr>pe_Name = unprefixed p, pe_Key = []\<rparr>) pre @ qs\<rparr>"
    using assms(2,3) by (auto simp: hasRelativeKeys_def list_ex_iff)
  ultimately show ?thesis using assms(1) r abs
    by (simp add: normalizePath_def ToStrings_def comp_def concat_map_singleton)
qed

lemma data_path_names:
  "data_path Y m pe e \<Longrightarrow> list_all (\<lambda>p. colon \<notin> set (unprefixed p)) pe \<Longrightarrow> data_path Y m (map unprefixed pe) e"
proof (induction rule: data_path.induct)
  case (down e c p ps e')
  then have "unprefixed (unprefixed p) = unprefixed p" using cut_unprefixed by simp
  with down show ?case by (auto intro: data_path.down)
qed (simp add: data_path.here)

lemma GetEntry_only_module:
  assumes "rootOk Y r" "sc_root sc = Some r" "m \<in> set (e_children (Ptr r []))"
    and "map_of (e_Dir (Ptr r [])) (unprefixed p0) = None" "candidate p0 m"
    and "\<forall>m' \<in> set (e_children (Ptr r [])). candidate p0 m' \<longrightarrow> m' = m"
    and "data_path Y m (p0 # ps) t"
  shows "GetEntry Y sc (p0 # ps) = Inr t"
proof -
  define cs where "cs = sort_by modLess (filter (candidate p0) (e_children (Ptr r [])))"
  have "set cs = {x \<in> set (e_children (Ptr r [])). candidate p0 x}" by (simp add: cs_def)
  then have "set cs = {m}" using assms(3,5,6) by blast
  then obtain xs where xs: "cs = m # xs" by (cases cs) auto
  have "moduleOk Y m" using rootOk_module assms(1,3) by blast
  then have "getEntry Y m (p0 # ps) = Inr t"
    by (intro getEntry_complete [OF assms(7)]) (simp_all only: moduleOk_def not_False_eq_True)
  then have "firstEntry Y cs (p0 # ps) = Some t" unfolding xs by (simp del: getEntry.simps)
  then show ?thesis unfolding cs_def using GetEntry_first [OF assms(1,2,4)] by blast
qed

text \<open>C3: a relative leafref resolves to the node its path denotes in the data tree. The leafref
  sits at the entry \<open>e\<close>; its path goes up \<open>length ups\<close> data nodes, to \<open>a\<close>, and from
  there along \<open>qs\<close> to \<open>t\<close>. Choice and case nodes between \<open>e\<close> and \<open>a\<close> do not
  count, as RFC 7950 requires, and prefixes in the path are ignored.\<close>

theorem leafref_resolves:
  assumes "rootOk Y r" "sc_root sc = Some r" "m \<in> set (e_children (Ptr r []))" "caseShape Y m"
    and "ParsePath p = Inr scp" "p_Elem scp = ups @ qs" "\<not> hasRelativeKeys scp"
    and "list_all (\<lambda>d. pe_Name d = ''..'') ups" "list_all (\<lambda>q. pe_Name q \<noteq> ''..'') qs" "ups \<noteq> []"
    and "data_path Y m pre a" "data_path Y a suf e" "length suf = length ups"
    and "data_path Y a (map pe_Name qs) t"
    and "list_all (\<lambda>p. colon \<notin> set (unprefixed p)) (pre @ map pe_Name qs)"
    and "map unprefixed (pre @ map pe_Name qs) = nm # nms"
    and "map_of (e_Dir (Ptr r [])) nm = None" "map_of (e_Dir m) nm \<noteq> None"
    and "\<forall>m' \<in> set (e_children (Ptr r [])). map_of (e_Dir m') nm \<noteq> None \<longrightarrow> m' = m"
  shows "rbind (normalizePath Y p e) (GetEntry Y sc) = Inr t"
proof -
  have m: "e_Parent m = None" "wfLinked (ent m)" "\<not> isCC Y m" "e_Name m \<noteq> RootName"
    using rootOk_module [OF assms(1,3)] by (simp_all add: moduleOk_def)
  have n: "normalizePath Y p e = Inr (nm # nms)"
    using normalizePath_relative [OF assms(5-10) m(1,2) assms(4) m(3,4) assms(11-13)] assms(15,16) by simp
  have "data_path Y m (pre @ map pe_Name qs) t"
    by (rule data_path_append [OF assms(11,14)])
  then have d: "data_path Y m (nm # nms) t" using data_path_names assms(15,16) by metis
  have "nm \<in> unprefixed ` set (pre @ map pe_Name qs)"
    using assms(16) by (metis list.set_intros(1) set_map)
  then have "colon \<notin> set nm" using assms(15) by (auto simp: list_all_iff)
  then have c: "unprefixed nm = nm" "candidate nm m' \<longleftrightarrow> map_of (e_Dir m') nm \<noteq> None" for m'
    using cut_unprefixed [of nm] by (auto simp: candidate_def split: option.splits)
  have "GetEntry Y sc (nm # nms) = Inr t"
    by (rule GetEntry_only_module [OF assms(1-3) _ _ _ d]) (use assms(17-19) c in auto)
  then show ?thesis using n by simp
qed

theorem leafref_resolves_witness:
  "rbind (normalizePath kindApi ''../source-id'' fxRefId) (GetEntry kindApi fxSchema) = Inr fxSourceId"
proof -
  let ?a = "Ptr fxDetailList (tl (anc fxSourceId))"
  let ?u = "[\<lparr>pe_Name = ''..'', pe_Key = []\<rparr>]" and ?q = "[\<lparr>pe_Name = ''source-id'', pe_Key = []\<rparr>]"
  have 1: "rootOk kindApi fxRoot" and 2: "sc_root fxSchema = Some fxRoot" by code_simp+
  have 3: "fxModulePtr \<in> set (e_children (Ptr fxRoot []))" and 4: "caseShape kindApi fxModulePtr" by code_simp+
  have 5: "ParsePath ''../source-id'' = Inr \<lparr>p_Origin = [], p_Target = [], p_Elem = ?u @ ?q\<rparr>" by code_simp
  have 6: "data_path kindApi fxModulePtr [''host'', ''detail-list''] ?a"
    and 7: "data_path kindApi ?a [''ref-id''] fxRefId" and 8: "data_path kindApi ?a (map pe_Name ?q) fxSourceId"
    by (rule getEntry_sound; code_simp)+
  show ?thesis
    by (rule leafref_resolves [where ups = ?u and nm = "''host''" and
          nms = "[''detail-list'', ''source-id'']", OF 1 2 3 4 5 _ _ _ _ _ 6 7 _ 8])
       (simp_all add: hasRelativeKeys_def unprefixed_def splitN2_def char_defs fx_defs e_Dir_def dirl_def e_children_def)
qed

text \<open>A leafref whose path does not parse is not reported. \<open>normalizePath\<close> drops the
  parse error and returns no elements, for which \<open>GetEntry\<close> answers with the schema root.\<close>

theorem leafref_malformed_is_root:
  assumes "ParsePath p = Inl err" "sc_root sc = Some r"
  shows "rbind (normalizePath Y p e) (GetEntry Y sc) = Inr (Ptr r [])"
  using assms by (simp add: normalizePath_def ToStrings_def GetEntry_def rootPtr_def)

theorem leafref_malformed_is_root_witness:
  "rbind (normalizePath kindApi ''../a]b'' fxRefId) (GetEntry kindApi fxSchema) = Inr (Ptr fxRoot [])"
proof -
  have "ParsePath ''../a]b'' = Inl errMalformedXPath" by code_simp
  then show ?thesis by (rule leafref_malformed_is_root) (simp add: fxSchema_def)
qed

section \<open>The position of an entry\<close>

lemma parentElems_data_child:
  "data_child Y e c \<Longrightarrow> wfLinked (ent e) \<Longrightarrow> e_Name e \<noteq> RootName \<Longrightarrow>
   parentElems Y c = (if isCC Y e then parentElems Y e else \<lparr>pe_Name = e_Name e, pe_Key = []\<rparr> # parentElems Y e)"
proof (induction rule: data_child.induct)
  case (child e c)
  then have "e_Parent c = Some e" using wfLinked_child by blast
  with child show ?case by (auto simp: parentElems.simps [of Y c] getParent_def)
next
  case (through e ee c)
  have "e_Parent ee = Some e" "e_Name ee \<noteq> RootName" "wfLinked (ent ee)"
    using through wfLinked_child by blast+
  with through show ?case by (auto simp: parentElems.simps [of Y ee] getParent_def)
qed

lemma parentElems_data_path:
  "data_path Y m pe e \<Longrightarrow> wfLinked (ent m) \<Longrightarrow> e_Name m \<noteq> RootName \<Longrightarrow> \<not> isCC Y m \<Longrightarrow>
   rev (\<lparr>pe_Name = e_Name e, pe_Key = []\<rparr> # parentElems Y e) =
   rev (\<lparr>pe_Name = e_Name m, pe_Key = []\<rparr> # parentElems Y m) @ map (\<lambda>p. \<lparr>pe_Name = unprefixed p, pe_Key = []\<rparr>) pe"
proof (induction rule: data_path.induct)
  case (down e c p ps e')
  have "wfLinked (ent c)" "e_Name c \<noteq> RootName" "\<not> isCC Y c"
    using data_child_skip [OF down.hyps(1)] down.prems getChildren_data [OF down.hyps(1)] by blast+
  with down.IH have "rev (\<lparr>pe_Name = e_Name e', pe_Key = []\<rparr> # parentElems Y e') =
    rev (\<lparr>pe_Name = e_Name c, pe_Key = []\<rparr> # parentElems Y c) @ map (\<lambda>p. \<lparr>pe_Name = unprefixed p, pe_Key = []\<rparr>) ps"
    by blast
  then show ?case using parentElems_data_child [OF down.hyps(1)] down.prems down.hyps(2) by simp
qed simp

text \<open>The position printed for a reference is the module's name followed by the data path
  of the entry, without choice and case nodes.\<close>

theorem buildPathUpFromEntry_spec:
  assumes "data_path Y m pe e" "e_Parent m = None" "wfLinked (ent m)" "e_Name m \<noteq> RootName" "\<not> isCC Y m"
  shows "ToXPath (buildPathUpFromEntry Y (Some e)) True = str_join [slash] (e_Name m # map unprefixed pe)"
proof -
  define xs where "xs = rev (\<lparr>pe_Name = e_Name e, pe_Key = []\<rparr> # parentElems Y e)"
  have xs: "xs = \<lparr>pe_Name = e_Name m, pe_Key = []\<rparr> # map (\<lambda>p. \<lparr>pe_Name = unprefixed p, pe_Key = []\<rparr>) pe"
    unfolding xs_def parentElems_data_path [OF assms(1,3-5)]
    using assms(2) by (simp add: parentElems.simps [of Y m] getParent_def)
  have "ToXPath (buildPathUpFromEntry Y (Some e)) True = str_join [slash] (map (printElem True) xs)"
    by (simp add: buildPathUpFromEntry_def ToXPath_def xs_def)
  then show ?thesis by (simp add: xs printElem_def comp_def)
qed

theorem buildPathUpFromEntry_spec_witness:
  "ToXPath (buildPathUpFromEntry kindApi (Some fxSourceId)) True = ''lrc/host/detail-list/source-id''"
proof -
  have "data_path kindApi fxModulePtr [''host'', ''detail-list'', ''source-id''] fxSourceId"
    by (rule getEntry_sound; code_simp)
  moreover have "e_Parent fxModulePtr = None" "wfLinked (ent fxModulePtr)" "e_Name fxModulePtr \<noteq> RootName"
    "\<not> isCC kindApi fxModulePtr" by code_simp+
  ultimately have "ToXPath (buildPathUpFromEntry kindApi (Some fxSourceId)) True =
      str_join [slash] (e_Name fxModulePtr # map unprefixed [''host'', ''detail-list'', ''source-id''])"
    by (rule buildPathUpFromEntry_spec)
  then show ?thesis by (simp add: fx_defs unprefixed_def splitN2_def char_defs)
qed

section \<open>Annotations are sound\<close>

definition leafrefTo :: "yang_api \<Rightarrow> schema \<Rightarrow> eptr \<Rightarrow> eptr \<Rightarrow> bool" where
  "leafrefTo Y sc e t \<longleftrightarrow> \<not> isState e \<and> (\<exists>yt pes. a_Type (attrs (ent e)) = Some yt \<and>
     KindString Y (yt_Kind yt) = ''leafref'' \<and> normalizePath Y (yt_Path yt) e = Inr pes \<and> GetEntry Y sc pes = Inr t)"

definition annotSound :: "yang_api \<Rightarrow> schema \<Rightarrow> schema \<Rightarrow> bool" where
  "annotSound Y sc0 sc \<longleftrightarrow> (\<exists>as. sc = sc0\<lparr>sc_annot := as\<rparr>) \<and>
     (\<forall>t as k e. map_of (sc_annot sc) t = Some as \<longrightarrow> map_of as k = Some e \<longrightarrow>
        k = ''REF_'' @ EPath Y e \<and> leafrefTo Y sc0 e t)"

lemma rootPtr_annot: "rootPtr (sc\<lparr>sc_annot := as\<rparr>) = rootPtr sc"
  by (simp add: rootPtr_def)

lemma GetEntry_annot [simp]: "GetEntry Y (sc\<lparr>sc_annot := as\<rparr>) pe = GetEntry Y sc pe"
  unfolding GetEntry_def FindPossibleModulesForPathElement_def rootPtr_annot ..

lemma addReference_sound:
  assumes "annotSound Y sc0 sc" "addReference Y sc e = Inr sc'" "\<not> isState e"
  shows "annotSound Y sc0 sc'"
proof (cases "sc' = sc")
  case True
  with assms(1) show ?thesis by simp
next
  case False
  with assms(2) obtain yt where yt: "a_Type (attrs (ent e)) = Some yt" "KindString Y (yt_Kind yt) = ''leafref''"
    by (auto simp: addReference_def split: option.splits if_splits)
  with assms(2) obtain pes where pes: "normalizePath Y (yt_Path yt) e = Inr pes"
    by (auto simp: addReference_def)
  with assms(2) yt obtain t where t: "GetEntry Y sc pes = Inr t" "sc' = annotate sc t (''REF_'' @ EPath Y e) e"
    by (cases "GetEntry Y sc pes") (auto simp: addReference_def)
  from assms(1) obtain as where as: "sc = sc0\<lparr>sc_annot := as\<rparr>" by (auto simp: annotSound_def)
  then have l: "leafrefTo Y sc0 e t" using yt pes t assms(3) by (auto simp: leafrefTo_def)
  have "k = ''REF_'' @ EPath Y e' \<and> leafrefTo Y sc0 e' t'"
    if m: "map_of (sc_annot sc') t' = Some as'" "map_of as' k = Some e'" for t' as' k e'
  proof (cases "t' = t")
    case True
    then have "map_of as' = (map_of (case map_of (sc_annot sc) t of None \<Rightarrow> [] | Some a \<Rightarrow> a))(''REF_'' @ EPath Y e \<mapsto> e)"
      using m(1) t(2) by (auto simp: annotate_def Let_def update_conv')
    with m(2) l True assms(1) show ?thesis
      by (auto simp: annotSound_def split: if_splits option.splits)
  next
    case False
    with m t(2) assms(1) show ?thesis by (auto simp: annotate_def Let_def update_conv' annotSound_def)
  qed
  moreover have "\<exists>as. sc' = sc0\<lparr>sc_annot := as\<rparr>" using as t(2) by (auto simp: annotate_def Let_def)
  ultimately show ?thesis by (auto simp: annotSound_def)
qed

lemma buildReferences_sound:
  "annotSound Y sc0 sc \<Longrightarrow> buildReferences Y sc e = Inr sc' \<Longrightarrow> annotSound Y sc0 sc'"
proof (induction "size (ent e)" arbitrary: e sc sc' rule: less_induct)
  case less
  show ?case
  proof (cases "isState e")
    case True
    with less.prems show ?thesis by (simp add: buildReferences.simps [of Y sc e])
  next
    case False
    with less.prems(2) obtain sc1 where sc1: "addReference Y sc e = Inr sc1"
      and f: "rfold (\<lambda>sc2 ce. rbind (if isCC Y ce then rfold (buildReferences Y) sc2 (e_children ce) else Inr sc2)
               (\<lambda>sc4. buildReferences Y sc4 ce)) sc1 (e_children e) = Inr sc'"
      by (subst (asm) buildReferences.simps) (auto simp: disj_commute)
    have step: "annotSound Y sc0 s'" if x: "x \<in> set (e_children e)" and s: "annotSound Y sc0 s"
      and r: "rbind (if isCC Y x then rfold (buildReferences Y) s (e_children x) else Inr s)
               (\<lambda>sc4. buildReferences Y sc4 x) = Inr s'" for x s s'
    proof -
      from r obtain sc4 where sc4: "(if isCC Y x then rfold (buildReferences Y) s (e_children x) else Inr s) = Inr sc4"
        and r': "buildReferences Y sc4 x = Inr s'" by auto
      have "annotSound Y sc0 sc4"
      proof (cases "isCC Y x")
        case True
        with sc4 have "rfold (buildReferences Y) s (e_children x) = Inr sc4" by simp
        then show ?thesis
          by (rule rfold_invariant [where P = "annotSound Y sc0", rotated 2])
             (use less.hyps size_children x s in \<open>meson order_less_trans\<close>)+
      next
        case False
        with sc4 s show ?thesis by simp
      qed
      with r' less.hyps size_children [OF x] show ?thesis by blast
    qed
    have "annotSound Y sc0 sc1" using addReference_sound less.prems(1) sc1 False by blast
    with step show ?thesis by (rule rfold_invariant [where P = "annotSound Y sc0", OF _ _ f])
  qed
qed

lemma buildReferencesAnnotation_annotSound:
  assumes "buildReferencesAnnotation Y sc = Inr sc'" "sc_annot sc = []"
  shows "annotSound Y sc sc'"
proof -
  have "sc = sc\<lparr>sc_annot := []\<rparr>" using assms(2) by simp
  then have i: "annotSound Y sc sc" unfolding annotSound_def using assms(2) by (metis map_of.simps(1) option.distinct(1))
  from assms(1) obtain root where "rfold (buildReferences Y) sc (e_children root) = Inr sc'"
    by (auto simp: buildReferencesAnnotation_def split: option.splits)
  then show ?thesis
    using rfold_invariant [where P = "annotSound Y sc" and f = "buildReferences Y"] buildReferences_sound i by blast
qed

text \<open>C26: \<open>buildReferencesAnnotation\<close> changes nothing but annotations, and every
  annotation it leaves is true: if leaf \<open>e\<close> is recorded at \<open>t\<close>, then \<open>e\<close> is a
  configuration leafref whose path resolves to \<open>t\<close> in this schema.\<close>

theorem buildReferencesAnnotation_sound:
  assumes "buildReferencesAnnotation Y sc = Inr sc'" "sc_annot sc = []"
  shows "sc' = sc\<lparr>sc_annot := sc_annot sc'\<rparr> \<and>
    (\<forall>t as k e. map_of (sc_annot sc') t = Some as \<longrightarrow> map_of as k = Some e \<longrightarrow>
       k = ''REF_'' @ EPath Y e \<and> leafrefTo Y sc e t)"
  using buildReferencesAnnotation_annotSound [OF assms] by (auto simp: annotSound_def)

theorem buildReferencesAnnotation_sound_witness:
  "buildReferencesAnnotation kindApi fxSchema =
     Inr (fxSchema\<lparr>sc_annot := [(fxSourceId, [(''REF_/__root__/lrc/host/detail-choice/variant-a/detail-list/ref-id'', fxRefId)])]\<rparr>) \<and>
   leafrefTo kindApi fxSchema fxRefId fxSourceId"
proof -
  have b: "buildReferencesAnnotation kindApi fxSchema =
     Inr (fxSchema\<lparr>sc_annot := [(fxSourceId, [(''REF_/__root__/lrc/host/detail-choice/variant-a/detail-list/ref-id'', fxRefId)])]\<rparr>)"
    by code_simp
  have "sc_annot fxSchema = []" by code_simp
  from buildReferencesAnnotation_sound [OF b this] b show ?thesis by simp
qed

end
