(* ===== verification/SchemaElem.thy ===== *)
theory SchemaElem
  imports References
begin

text \<open>
  From entries to schema messages: \<open>pkg/schema/leaf.go\<close>, \<open>leaf_list.go\<close>, \<open>container.go\<close>
  and \<open>SchemaElemFromYEntry\<close> of \<open>object.go\<close>.

  \<open>toSchemaType\<close> follows a leafref to the type of its target and has no bound on that
  recursion. The model takes fuel: \<open>None\<close> is a call that has not returned yet. The lemmas show
  for which entries some fuel suffices (leafref chains that end) and that a cycle of leafrefs
  exhausts every fuel.
\<close>

section \<open>Calls that may not return\<close>

type_synonym 'a run = "'a res option"

fun obind :: "'a run \<Rightarrow> ('a \<Rightarrow> 'b run) \<Rightarrow> 'b run" where
  "obind None f = None"
| "obind (Some (Inl e)) f = Some (Inl e)"
| "obind (Some (Inr a)) f = f a"

fun otraverse :: "('a \<Rightarrow> 'b run) \<Rightarrow> 'a list \<Rightarrow> 'b list run" where
  "otraverse f [] = Some (Inr [])"
| "otraverse f (x # xs) = obind (f x) (\<lambda>y. obind (otraverse f xs) (\<lambda>ys. Some (Inr (y # ys))))"

fun ofold :: "('s \<Rightarrow> 'a \<Rightarrow> 's run) \<Rightarrow> 's \<Rightarrow> 'a list \<Rightarrow> 's run" where
  "ofold f s [] = Some (Inr s)"
| "ofold f s (x # xs) = obind (f s x) (\<lambda>s'. ofold f s' xs)"

lemma obind_Inr_iff [simp]: "obind m f = Some (Inr b) \<longleftrightarrow> (\<exists>a. m = Some (Inr a) \<and> f a = Some (Inr b))"
  by (cases "(m, f)" rule: obind.cases) auto

section \<open>Messages\<close>

record number_msg =
  n_Value :: "64 word"
  n_Negative :: bool

record min_max =
  mm_Min :: number_msg
  mm_Max :: number_msg

record bit_msg =
  b_Name :: string
  b_Position :: "32 word"

record pattern_msg =
  pt_Pattern :: string
  pt_Inverted :: bool

record slt_base =
  t_Type :: string
  t_Range :: "min_max list"
  t_Length :: "min_max list"
  t_EnumNames :: "string list"
  t_Bits :: "bit_msg list"
  t_Units :: string
  t_TypeName :: string
  t_Leafref :: string
  t_OptionalInstance :: bool
  t_Patterns :: "pattern_msg list"

datatype leaf_type = SchemaLeafType
  (lt_base: slt_base) (lt_UnionTypes: "leaf_type list")
  (lt_IdentityPrefixesMap: "(string \<times> string) list") (lt_ModulePrefixMap: "(string \<times> string) list")
  (lt_LeafrefTargetType: "leaf_type option")

record must_stmt =
  ms_Statement :: string
  ms_Error :: string

record leaf_schema =
  l_Name :: string
  l_Namespace :: string
  l_Type :: leaf_type
  l_IsMandatory :: bool
  l_Units :: string
  l_MustStatements :: "must_stmt list"
  l_IsState :: bool
  l_Reference :: "string list"
  l_IfFeature :: "string list"
  l_Description :: string
  l_Default :: string
  l_Prefix :: string
  l_ModuleName :: string

record leaflist_schema =
  ll_Name :: string
  ll_Namespace :: string
  ll_Type :: leaf_type
  ll_Units :: string
  ll_MustStatements :: "must_stmt list"
  ll_IsState :: bool
  ll_IsUserOrdered :: bool
  ll_IfFeature :: "string list"
  ll_Defaults :: "string list"
  ll_Description :: string
  ll_MaxElements :: "64 word"
  ll_MinElements :: "64 word"
  ll_Prefix :: string
  ll_ModuleName :: string

record mandatory_child =
  mc_Name :: string
  mc_IsState :: bool

text \<open>A choice is a map from case names to the names of the elements in the case.\<close>

type_synonym choice_info = "(string \<times> (string \<times> string list) list) list"

record container_schema =
  c_Name :: string
  c_Namespace :: string
  c_Keys :: "leaf_schema list"
  c_Fields :: "leaf_schema list"
  c_Leaflists :: "leaflist_schema list"
  c_Children :: "string list"
  c_MandatoryChildren :: "mandatory_child list"
  c_MustStatements :: "must_stmt list"
  c_IsState :: bool
  c_IsPresence :: bool
  c_ChoiceInfo :: "choice_info option"
  c_IfFeature :: "string list"
  c_ChildsWithDefaults :: "string list"
  c_Description :: string
  c_MaxElements :: "64 word"
  c_MinElements :: "64 word"
  c_IsUserOrdered :: bool
  c_Prefix :: string
  c_ModuleName :: string

datatype schema_elem = Container container_schema | Field leaf_schema | Leaflist leaflist_schema

section \<open>Types\<close>

definition yRangeToSchemaMinMaxType :: "yang_range \<Rightarrow> min_max" where
  "yRangeToSchemaMinMaxType r =
     \<lparr>mm_Min = \<lparr>n_Value = num_Value (r_Min r), n_Negative = num_Negative (r_Min r)\<rparr>,
      mm_Max = \<lparr>n_Value = num_Value (r_Max r), n_Negative = num_Negative (r_Max r)\<rparr>\<rparr>"

text \<open>\<open>uint32(position)\<close> keeps the low 32 bits.\<close>

definition typeBits :: "yang_type \<Rightarrow> bit_msg list" where
  "typeBits yt =
     (case yt_Bit yt of
        None \<Rightarrow> []
      | Some bs \<Rightarrow> sort_by (\<lambda>a b. b_Position a < b_Position b)
          (map (\<lambda>(bitName, position). \<lparr>b_Name = bitName, b_Position = word_of_int position\<rparr>) bs))"

definition typeBase :: "yang_api \<Rightarrow> yang_type \<Rightarrow> slt_base" where
  "typeBase Y yt =
     \<lparr>t_Type = KindString Y (yt_Kind yt),
      t_Range = map yRangeToSchemaMinMaxType (yt_Range yt),
      t_Length = map yRangeToSchemaMinMaxType (yt_Length yt),
      t_EnumNames = (case yt_Enum yt of None \<Rightarrow> [] | Some en \<Rightarrow> EnumNames Y en),
      t_Bits = typeBits yt, t_Units = yt_Units yt, t_TypeName = yt_Name yt, t_Leafref = yt_Path yt,
      t_OptionalInstance = yt_OptionalInstance yt,
      t_Patterns = map (\<lambda>pat. \<lparr>pt_Pattern = pat, pt_Inverted = False\<rparr>) (yt_Pattern yt)\<rparr>"

definition identityMap :: "(identity \<Rightarrow> string) \<Rightarrow> identity list \<Rightarrow> (string \<times> string) list" where
  "identityMap f ids = fold (\<lambda>i m. AList.update (id_Name i) (f i) m) ids []"

primrec toSchemaType :: "nat \<Rightarrow> yang_api \<Rightarrow> schema \<Rightarrow> eptr \<Rightarrow> yang_type option \<Rightarrow> leaf_type run" where
  "toSchemaType 0 Y sc e yto = None"
| "toSchemaType (Suc n) Y sc e yto =
     (case yto of
        None \<Rightarrow> Some (Inl nilDeref)
      | Some yt \<Rightarrow>
          (case yt_Kind yt of
             Yunion \<Rightarrow>
               obind (otraverse (\<lambda>ytt. toSchemaType n Y sc e (Some ytt)) (yt_Type yt))
                 (\<lambda>us. Some (Inr (SchemaLeafType (typeBase Y yt) us [] [] None)))
           | Yidentityref \<Rightarrow>
               (case yt_IdentityBase yt of
                  None \<Rightarrow> Some (Inl (GoPanic ''expected identityref type to have IdentityBase''))
                | Some vals \<Rightarrow>
                    Some (Inr (SchemaLeafType (typeBase Y yt) []
                      (identityMap (\<lambda>i. m_Prefix (RootNode Y (id_Node i))) vals)
                      (identityMap (\<lambda>i. m_NName (RootNode Y (id_Node i))) vals) None)))
           | Yleafref \<Rightarrow>
               (case normalizePath Y (yt_Path yt) e of
                  Inl err \<Rightarrow> Some (Inl err)
                | Inr normalizedPath \<Rightarrow>
                    (case GetEntry Y sc normalizedPath of
                       Inl err \<Rightarrow> Some (Inl (Wrap ''leafref %q normalized to %v: %w'' (yt_Path yt # normalizedPath) err))
                     | Inr t \<Rightarrow>
                         obind (toSchemaType n Y sc t (a_Type (attrs (ent t))))
                           (\<lambda>tt. Some (Inr (SchemaLeafType (typeBase Y yt) [] [] [] (Some tt))))))
           | Ykind k \<Rightarrow> Some (Inr (SchemaLeafType (typeBase Y yt) [] [] [] None))))"

section \<open>Leafs and leaf-lists\<close>

definition extraStmts :: "eptr \<Rightarrow> string \<Rightarrow> extra_stmt list" where
  "extraStmts e k = (case map_of (a_Extra (attrs (ent e))) k of None \<Rightarrow> [] | Some l \<Rightarrow> l)"

definition mustOf :: "extra_stmt \<Rightarrow> must_stmt list" where
  "mustOf x = (case x of
     ExtraMust nm msg \<Rightarrow>
       [\<lparr>ms_Statement = map (\<lambda>c. if c = CHR 0x0A then CHR '' '' else c) nm,
         ms_Error = (case msg of None \<Rightarrow> [] | Some s \<Rightarrow> s)\<rparr>]
   | _ \<Rightarrow> [])"

definition getMustStatement :: "eptr \<Rightarrow> must_stmt list" where
  "getMustStatement e = concat (map mustOf (extraStmts e ''must''))"

definition getIfFeature :: "eptr \<Rightarrow> string list" where
  "getIfFeature e = concat (map (\<lambda>x. case x of ExtraValue nm \<Rightarrow> [nm] | _ \<Rightarrow> []) (extraStmts e ''if-feature''))"

definition prefixName :: "eptr \<Rightarrow> string" where
  "prefixName e = (case a_Prefix (attrs (ent e)) of None \<Rightarrow> [] | Some p \<Rightarrow> p)"

definition moduleName :: "yang_api \<Rightarrow> eptr \<Rightarrow> string" where
  "moduleName Y e =
     (case a_Prefix (attrs (ent e)) of
        None \<Rightarrow> []
      | Some p \<Rightarrow> (case FindModuleByPrefix Y (a_Node (attrs (ent e))) p of None \<Rightarrow> [] | Some m \<Rightarrow> m))"

definition leafReferences :: "yang_api \<Rightarrow> schema \<Rightarrow> eptr \<Rightarrow> string list" where
  "leafReferences Y sc e =
     (case map_of (sc_annot sc) e of
        None \<Rightarrow> []
      | Some as \<Rightarrow> map (\<lambda>(k, v). ToXPath (buildPathUpFromEntry Y (Some v)) True)
          (filter (\<lambda>(k, v). hasPrefix k ''REF_'') as))"

definition leafFromYEntry :: "nat \<Rightarrow> yang_api \<Rightarrow> schema \<Rightarrow> eptr \<Rightarrow> bool \<Rightarrow> leaf_schema run" where
  "leafFromYEntry n Y sc e withDesc =
     obind (toSchemaType n Y sc e (a_Type (attrs (ent e)))) (\<lambda>entryType.
       Some (Inr \<lparr>l_Name = e_Name e, l_Namespace = NamespaceName Y e, l_Type = entryType,
         l_IsMandatory = (a_Mandatory (attrs (ent e)) = TSTrue), l_Units = a_Units (attrs (ent e)),
         l_MustStatements = getMustStatement e, l_IsState = isState e,
         l_Reference = leafReferences Y sc e, l_IfFeature = getIfFeature e,
         l_Description = (if withDesc then a_Description (attrs (ent e)) else []),
         l_Default = (case SingleDefaultValue Y e of None \<Rightarrow> [] | Some v \<Rightarrow> v),
         l_Prefix = prefixName e, l_ModuleName = moduleName Y e\<rparr>))"

definition isUserOrdered :: "eptr \<Rightarrow> bool" where
  "isUserOrdered e = (case a_ListAttr (attrs (ent e)) of None \<Rightarrow> False | Some la \<Rightarrow> la_OrderedBy la = Some ''user'')"

definition maxElements :: "eptr \<Rightarrow> 64 word" where
  "maxElements e = (case a_ListAttr (attrs (ent e)) of None \<Rightarrow> 0 | Some la \<Rightarrow> la_MaxElements la)"

definition minElements :: "eptr \<Rightarrow> 64 word" where
  "minElements e = (case a_ListAttr (attrs (ent e)) of None \<Rightarrow> 0 | Some la \<Rightarrow> la_MinElements la)"

definition leafListFromYEntry :: "nat \<Rightarrow> yang_api \<Rightarrow> schema \<Rightarrow> eptr \<Rightarrow> bool \<Rightarrow> leaflist_schema run" where
  "leafListFromYEntry n Y sc e withDesc =
     obind (toSchemaType n Y sc e (a_Type (attrs (ent e)))) (\<lambda>entryType.
       Some (Inr \<lparr>ll_Name = e_Name e, ll_Namespace = NamespaceName Y e, ll_Type = entryType,
         ll_Units = a_Units (attrs (ent e)), ll_MustStatements = getMustStatement e, ll_IsState = isState e,
         ll_IsUserOrdered = isUserOrdered e, ll_IfFeature = getIfFeature e, ll_Defaults = DefaultValues Y e,
         ll_Description = (if withDesc then a_Description (attrs (ent e)) else []),
         ll_MaxElements = maxElements e, ll_MinElements = minElements e,
         ll_Prefix = prefixName e, ll_ModuleName = moduleName Y e\<rparr>))"

section \<open>Containers\<close>

definition getMandatoryChildren :: "eptr \<Rightarrow> mandatory_child list" where
  "getMandatoryChildren e =
     map (\<lambda>(k, v). \<lparr>mc_Name = k, mc_IsState = isState v\<rparr>)
       (filter (\<lambda>(k, v). a_Mandatory (attrs (ent v)) = TSTrue) (e_Dir e))"

definition isPresence :: "eptr \<Rightarrow> bool" where
  "isPresence e = list_ex (\<lambda>x. case x of ExtraValue _ \<Rightarrow> True | _ \<Rightarrow> False) (extraStmts e ''presence'')"

definition processChoice :: "eptr \<Rightarrow> choice_info \<Rightarrow> choice_info" where
  "processChoice e ci =
     AList.update (e_Name e) (map (\<lambda>(childName, cs). (childName, map fst (e_Dir cs))) (e_Dir e)) ci"

definition getChoiceInfo :: "yang_api \<Rightarrow> eptr \<Rightarrow> choice_info option" where
  "getChoiceInfo Y e =
     fold (\<lambda>de ci. if \<not> IsChoice Y de then ci
                    else Some (processChoice de (case ci of None \<Rightarrow> [] | Some c \<Rightarrow> c)))
       (e_children e) None"

text \<open>The first two branches of \<open>SchemaElemFromYEntry\<close>, the only ones \<open>containerFromYEntry\<close>
  takes.\<close>

definition leafElem :: "nat \<Rightarrow> yang_api \<Rightarrow> schema \<Rightarrow> eptr \<Rightarrow> bool \<Rightarrow> schema_elem run" where
  "leafElem n Y sc e withDesc =
     (if IsLeaf Y e then obind (leafFromYEntry n Y sc e withDesc) (\<lambda>l. Some (Inr (Field l)))
      else obind (leafListFromYEntry n Y sc e withDesc) (\<lambda>ll. Some (Inr (Leaflist ll))))"

definition addChild :: "nat \<Rightarrow> yang_api \<Rightarrow> schema \<Rightarrow> string list \<Rightarrow> bool \<Rightarrow> container_schema \<Rightarrow> eptr \<Rightarrow> container_schema run" where
  "addChild n Y sc keys withDesc c child =
     (if IsDir Y child then Some (Inr (c\<lparr>c_Children := c_Children c @ [e_Name child]\<rparr>))
      else if IsLeaf Y child \<or> IsLeafList Y child then
        obind (leafElem n Y sc child withDesc) (\<lambda>el.
          case el of
            Field f \<Rightarrow>
              if e_Name child \<in> set keys then Some (Inr (c\<lparr>c_Keys := c_Keys c @ [f]\<rparr>))
              else Some (Inr (c\<lparr>c_Fields := c_Fields c @ [f],
                c_ChildsWithDefaults := c_ChildsWithDefaults c @ (if l_Default f \<noteq> [] then [e_Name child] else [])\<rparr>))
          | Leaflist ll \<Rightarrow>
              Some (Inr (c\<lparr>c_Leaflists := c_Leaflists c @ [ll],
                c_ChildsWithDefaults := c_ChildsWithDefaults c @ (if ll_Defaults ll \<noteq> [] then [e_Name child] else [])\<rparr>))
          | Container _ \<Rightarrow> Some (Inr c))
      else Some (Inr c))"

text \<open>\<open>slices.Index\<close>\<close>

fun slicesIndex :: "string list \<Rightarrow> string \<Rightarrow> int" where
  "slicesIndex [] k = -1"
| "slicesIndex (x # xs) k = (if x = k then 0 else (let i = slicesIndex xs k in if i = -1 then -1 else i + 1))"

definition emptyContainer :: "yang_api \<Rightarrow> eptr \<Rightarrow> bool \<Rightarrow> container_schema" where
  "emptyContainer Y e withDesc =
     \<lparr>c_Name = e_Name e, c_Namespace = NamespaceName Y e, c_Keys = [], c_Fields = [], c_Leaflists = [],
      c_Children = [], c_MandatoryChildren = getMandatoryChildren e, c_MustStatements = getMustStatement e,
      c_IsState = isState e, c_IsPresence = isPresence e, c_ChoiceInfo = getChoiceInfo Y e,
      c_IfFeature = getIfFeature e, c_ChildsWithDefaults = [],
      c_Description = (if withDesc then a_Description (attrs (ent e)) else []),
      c_MaxElements = maxElements e, c_MinElements = minElements e, c_IsUserOrdered = isUserOrdered e,
      c_Prefix = prefixName e, c_ModuleName = moduleName Y e\<rparr>"

definition containerFromYEntry :: "nat \<Rightarrow> yang_api \<Rightarrow> schema \<Rightarrow> eptr \<Rightarrow> bool \<Rightarrow> container_schema run" where
  "containerFromYEntry n Y sc e withDesc =
     (let keys = str_fields (e_Key e) in
      obind (ofold (addChild n Y sc keys withDesc) (emptyContainer Y e withDesc) (getChildren Y e)) (\<lambda>c.
        Some (Inr (c\<lparr>c_Children := sort (c_Children c),
          c_Keys := sort_by (\<lambda>a b. slicesIndex keys (l_Name a) < slicesIndex keys (l_Name b)) (c_Keys c)\<rparr>))))"

definition SchemaElemFromYEntry :: "nat \<Rightarrow> yang_api \<Rightarrow> schema \<Rightarrow> eptr \<Rightarrow> bool \<Rightarrow> schema_elem run" where
  "SchemaElemFromYEntry n Y sc e withDesc =
     (if IsLeaf Y e \<or> IsLeafList Y e then leafElem n Y sc e withDesc
      else obind (containerFromYEntry n Y sc e withDesc) (\<lambda>c. Some (Inr (Container c))))"

section \<open>When the type of a leaf is computed\<close>

text \<open>\<open>typed Y sc e yt\<close>: every leafref reached from \<open>yt\<close> ends, after finitely many steps, in
  a type that is none, and every identityref has a base.\<close>

inductive typed :: "yang_api \<Rightarrow> schema \<Rightarrow> eptr \<Rightarrow> yang_type \<Rightarrow> bool" for Y sc where
  plain: "yt_Kind yt = Ykind k \<Longrightarrow> typed Y sc e yt"
| identityref: "yt_Kind yt = Yidentityref \<Longrightarrow> yt_IdentityBase yt = Some ids \<Longrightarrow> typed Y sc e yt"
| union: "yt_Kind yt = Yunion \<Longrightarrow> \<forall>t \<in> set (yt_Type yt). typed Y sc e t \<Longrightarrow> typed Y sc e yt"
| leafref: "yt_Kind yt = Yleafref \<Longrightarrow> normalizePath Y (yt_Path yt) e = Inr np \<Longrightarrow> GetEntry Y sc np = Inr t \<Longrightarrow>
    a_Type (attrs (ent t)) = Some tt \<Longrightarrow> typed Y sc t tt \<Longrightarrow> typed Y sc e yt"

lemma obind_mono:
  "(\<And>r. m = Some r \<Longrightarrow> m' = Some r) \<Longrightarrow> (\<And>a r. f a = Some r \<Longrightarrow> f' a = Some r) \<Longrightarrow>
   obind m f = Some r \<Longrightarrow> obind m' f' = Some r"
  by (cases "(m, f)" rule: obind.cases) auto

lemma otraverse_mono:
  assumes "\<And>x r. f x = Some r \<Longrightarrow> g x = Some r"
  shows "otraverse f xs = Some r \<Longrightarrow> otraverse g xs = Some r"
proof (induction xs arbitrary: r)
  case (Cons x xs)
  have "obind (otraverse g xs) h = Some r" if "obind (otraverse f xs) h = Some r" for h :: "'b list \<Rightarrow> 'b list run" and r
    by (rule obind_mono [OF _ _ that]) (blast intro: Cons.IH)+
  with Cons.prems show ?case
    unfolding otraverse.simps by (intro obind_mono [of "f x" "g x"]) (auto intro: assms)
qed simp

text \<open>\<open>toSchemaType\<close> on each kind of type.\<close>

lemma toSchemaType_union:
  "yt_Kind yt = Yunion \<Longrightarrow> toSchemaType (Suc n) Y sc e (Some yt) =
     obind (otraverse (\<lambda>ytt. toSchemaType n Y sc e (Some ytt)) (yt_Type yt))
       (\<lambda>us. Some (Inr (SchemaLeafType (typeBase Y yt) us [] [] None)))"
  by simp

lemma toSchemaType_leafref:
  "yt_Kind yt = Yleafref \<Longrightarrow> toSchemaType (Suc n) Y sc e (Some yt) =
     (case normalizePath Y (yt_Path yt) e of
        Inl err \<Rightarrow> Some (Inl err)
      | Inr np \<Rightarrow>
          (case GetEntry Y sc np of
             Inl err \<Rightarrow> Some (Inl (Wrap ''leafref %q normalized to %v: %w'' (yt_Path yt # np) err))
           | Inr t \<Rightarrow> obind (toSchemaType n Y sc t (a_Type (attrs (ent t))))
               (\<lambda>tt. Some (Inr (SchemaLeafType (typeBase Y yt) [] [] [] (Some tt))))))"
  by simp

lemma toSchemaType_flat:
  "yto = None \<or> (\<exists>k. yt_Kind (the yto) = Ykind k) \<or> yt_Kind (the yto) = Yidentityref \<Longrightarrow>
   toSchemaType (Suc n) Y sc e yto = toSchemaType (Suc 0) Y sc e yto"
  by (cases yto) auto

declare toSchemaType.simps(2) [simp del]

lemma toSchemaType_Suc: "toSchemaType n Y sc e yto = Some r \<Longrightarrow> toSchemaType (Suc n) Y sc e yto = Some r"
proof (induction n arbitrary: e yto r)
  case (Suc n)
  consider (flat) "yto = None \<or> (\<exists>k. yt_Kind (the yto) = Ykind k) \<or> yt_Kind (the yto) = Yidentityref"
    | (union) yt where "yto = Some yt" "yt_Kind yt = Yunion"
    | (leafref) yt where "yto = Some yt" "yt_Kind yt = Yleafref"
    by (metis option.exhaust option.sel type_kind.exhaust)
  then show ?case
  proof cases
    case flat
    show ?thesis using Suc.prems unfolding toSchemaType_flat [OF flat, of "Suc n"] toSchemaType_flat [OF flat, of n] .
  next
    case union
    from Suc.prems show ?thesis
      unfolding union(1) toSchemaType_union [OF union(2)]
      by (rule obind_mono [rotated 2]) (erule otraverse_mono [rotated], rule Suc.IH)
  next
    case leafref
    show ?thesis
    proof (cases "\<exists>np t. normalizePath Y (yt_Path yt) e = Inr np \<and> GetEntry Y sc np = Inr t")
      case True
      then obtain np t where t: "normalizePath Y (yt_Path yt) e = Inr np" "GetEntry Y sc np = Inr t" by blast
      from Suc.prems show ?thesis
        unfolding leafref(1) toSchemaType_leafref [OF leafref(2)] t sum.case
        by (rule obind_mono [rotated 2]) (rule Suc.IH)
    next
      case False
      from Suc.prems show ?thesis unfolding leafref(1) toSchemaType_leafref [OF leafref(2)]
        using False by (auto split: sum.splits)
    qed
  qed
qed simp

lemma toSchemaType_mono: "n \<le> m \<Longrightarrow> toSchemaType n Y sc e yto = Some r \<Longrightarrow> toSchemaType m Y sc e yto = Some r"
  by (induction m rule: dec_induct) (blast intro: toSchemaType_Suc)+

lemma otraverse_members: "otraverse f xs = Some (Inr ys) \<Longrightarrow> x \<in> set xs \<Longrightarrow> \<exists>y. f x = Some (Inr y)"
  by (induction xs arbitrary: ys) auto

lemma otraverse_enough:
  "\<forall>x\<in>set xs. \<exists>n::nat. \<exists>y. f n x = Some (Inr y) \<Longrightarrow>
   (\<And>n m x r. n \<le> m \<Longrightarrow> f n x = Some r \<Longrightarrow> f m x = Some r) \<Longrightarrow>
   \<exists>n ys. otraverse (f n) xs = Some (Inr ys)"
proof (induction xs)
  case (Cons x xs)
  have "\<exists>n ys. otraverse (f n) xs = Some (Inr ys)" by (rule Cons.IH) (use Cons.prems in auto)
  then obtain n ys where n: "otraverse (f n) xs = Some (Inr ys)" by blast
  obtain k y where k: "f k x = Some (Inr y)" using Cons.prems(1) by auto
  have "otraverse (f (max n k)) xs = Some (Inr ys)"
    by (rule otraverse_mono [OF _ n]) (erule Cons.prems(2) [rotated], simp)
  moreover have "f (max n k) x = Some (Inr y)" by (rule Cons.prems(2) [OF _ k]) simp
  ultimately have "otraverse (f (max n k)) (x # xs) = Some (Inr (y # ys))" by simp
  then show ?case by blast
qed simp

lemma toSchemaType_typed: "toSchemaType n Y sc e (Some yt) = Some (Inr lt) \<Longrightarrow> typed Y sc e yt"
proof (induction n arbitrary: e yt lt)
  case (Suc n)
  show ?case
  proof (cases "yt_Kind yt")
    case Yunion
    from Suc.prems obtain us where "otraverse (\<lambda>ytt. toSchemaType n Y sc e (Some ytt)) (yt_Type yt) = Some (Inr us)"
      unfolding toSchemaType_union [OF Yunion] by auto
    then have "\<forall>t\<in>set (yt_Type yt). typed Y sc e t" using otraverse_members Suc.IH by fast
    with Yunion show ?thesis by (rule typed.union)
  next
    case Yidentityref
    with Suc.prems show ?thesis by (auto simp: toSchemaType.simps(2) intro: typed.identityref split: option.splits)
  next
    case Yleafref
    note r = Suc.prems [unfolded toSchemaType_leafref [OF Yleafref]]
    from r obtain np where np: "normalizePath Y (yt_Path yt) e = Inr np"
      by (cases "normalizePath Y (yt_Path yt) e") auto
    from r obtain t where t: "GetEntry Y sc np = Inr t" using np by (cases "GetEntry Y sc np") auto
    from r obtain tt where tt: "toSchemaType n Y sc t (a_Type (attrs (ent t))) = Some (Inr tt)" using np t by auto
    then obtain ty where ty: "a_Type (attrs (ent t)) = Some ty"
      by (cases "a_Type (attrs (ent t))"; cases n) (auto simp: toSchemaType.simps(2))
    then show ?thesis using Suc.IH tt typed.leafref [OF Yleafref np t] by metis
  next
    case (Ykind k)
    then show ?thesis by (rule typed.plain)
  qed
qed simp

lemma typed_toSchemaType: "typed Y sc e yt \<Longrightarrow> \<exists>n lt. toSchemaType n Y sc e (Some yt) = Some (Inr lt)"
proof (induction rule: typed.induct)
  case (plain yt k e)
  then have "toSchemaType (Suc 0) Y sc e (Some yt) = Some (Inr (SchemaLeafType (typeBase Y yt) [] [] [] None))"
    by (simp add: toSchemaType.simps(2))
  then show ?case by blast
next
  case (identityref yt ids e)
  then have "\<exists>lt. toSchemaType (Suc 0) Y sc e (Some yt) = Some (Inr lt)" by (simp add: toSchemaType.simps(2))
  then show ?case by blast
next
  case (union yt e)
  then have "\<exists>n ys. otraverse (\<lambda>ytt. toSchemaType n Y sc e (Some ytt)) (yt_Type yt) = Some (Inr ys)"
    using otraverse_enough [of "yt_Type yt" "\<lambda>n ytt. toSchemaType n Y sc e (Some ytt)"] toSchemaType_mono by blast
  then obtain n ys where "otraverse (\<lambda>ytt. toSchemaType n Y sc e (Some ytt)) (yt_Type yt) = Some (Inr ys)" by blast
  then have "\<exists>lt. toSchemaType (Suc n) Y sc e (Some yt) = Some (Inr lt)" using union.hyps by (simp add: toSchemaType_union)
  then show ?case by blast
next
  case (leafref yt e np t tt)
  then obtain n lt where "toSchemaType n Y sc t (Some tt) = Some (Inr lt)" by blast
  then have "\<exists>lt. toSchemaType (Suc n) Y sc e (Some yt) = Some (Inr lt)" using leafref.hyps by (simp add: toSchemaType_leafref)
  then show ?case by blast
qed

text \<open>C23: \<open>toSchemaType\<close> returns a type exactly where one is defined. The call succeeds iff
  every leafref chain reached from the type ends in a non-leafref type (and identityrefs have a
  base); more fuel never changes an answer, so the model's answer is the program's.\<close>

theorem toSchemaType_total:
  "(\<exists>n lt. toSchemaType n Y sc e (Some yt) = Some (Inr lt)) = typed Y sc e yt \<and>
   (toSchemaType n Y sc e (Some yt) = Some r \<longrightarrow> toSchemaType (n + k) Y sc e (Some yt) = Some r)"
  using toSchemaType_typed typed_toSchemaType toSchemaType_mono [of n "n + k"] by (metis le_add1)

theorem toSchemaType_total_witness:
  "toSchemaType 2 kindApi fxSchema fxRefId (Some (fxType Yleafref ''../source-id'')) =
     toSchemaType (2 + 5) kindApi fxSchema fxRefId (Some (fxType Yleafref ''../source-id'')) \<and>
   typed kindApi fxSchema fxRefId (fxType Yleafref ''../source-id'')"
proof -
  let ?t = "\<lambda>n. toSchemaType n kindApi fxSchema fxRefId (Some (fxType Yleafref ''../source-id''))"
  have "?t 2 = Some (Inr (SchemaLeafType (typeBase kindApi (fxType Yleafref ''../source-id'')) [] [] []
      (Some (SchemaLeafType (typeBase kindApi fxString) [] [] [] None))))"
    by code_simp
  then show ?thesis
    using toSchemaType_total [of kindApi fxSchema fxRefId "fxType Yleafref ''../source-id''" 2 _ 5] by metis
qed

text \<open>C33: a cycle of leafrefs is fatal. If every entry of \<open>S\<close> is a leafref that resolves
  to an entry of \<open>S\<close>, the type of none of them is ever returned, whatever the fuel: the
  program recurses until its stack is exhausted.\<close>

theorem leafref_cycle_diverges:
  assumes "\<forall>e\<in>S. \<exists>yt np t. a_Type (attrs (ent e)) = Some yt \<and> yt_Kind yt = Yleafref \<and>
      normalizePath Y (yt_Path yt) e = Inr np \<and> GetEntry Y sc np = Inr t \<and> t \<in> S"
    and "e \<in> S"
  shows "SchemaElemFromYEntry n Y sc e wd = None \<or> \<not> IsLeaf Y e \<and> \<not> IsLeafList Y e"
proof -
  have "\<forall>e\<in>S. toSchemaType n Y sc e (a_Type (attrs (ent e))) = None" for n
  proof (induction n)
    case (Suc n)
    show ?case
    proof
      fix e assume "e \<in> S"
      with assms(1) obtain yt np t where t: "a_Type (attrs (ent e)) = Some yt" "yt_Kind yt = Yleafref"
        "normalizePath Y (yt_Path yt) e = Inr np" "GetEntry Y sc np = Inr t" "t \<in> S" by blast
      with Suc show "toSchemaType (Suc n) Y sc e (a_Type (attrs (ent e))) = None"
        by (simp add: toSchemaType_leafref)
    qed
  qed simp
  then show ?thesis using assms(2)
    by (simp add: SchemaElemFromYEntry_def leafElem_def leafFromYEntry_def leafListFromYEntry_def)
qed

definition fxLoop :: schema where
  "fxLoop = fxSchema\<lparr>sc_root := Some (Entry (attrs fxRoot) (Some [(''lrc'', Entry (attrs fxModule)
     (Some [(''host'', fxDir ''host'' DirectoryEntry [fxLeaf ''a'' (fxType Yleafref ''../a'')])]))]))\<rparr>"

theorem leafref_cycle_diverges_witness:
  "\<exists>e. GetEntry kindApi fxLoop [''host'', ''a''] = Inr e \<and> SchemaElemFromYEntry 1000 kindApi fxLoop e True = None"
proof -
  let ?m = "Entry (attrs fxModule) (Some [(''host'', fxDir ''host'' DirectoryEntry [fxLeaf ''a'' (fxType Yleafref ''../a'')])])"
  let ?e = "Ptr (fxLeaf ''a'' (fxType Yleafref ''../a''))
     [fxDir ''host'' DirectoryEntry [fxLeaf ''a'' (fxType Yleafref ''../a'')], ?m, the (sc_root fxLoop)]"
  have g: "GetEntry kindApi fxLoop [''host'', ''a''] = Inr ?e" by code_simp
  have n: "normalizePath kindApi ''../a'' ?e = Inr [''host'', ''a'']" by code_simp
  have l: "IsLeaf kindApi ?e" by code_simp
  have t: "a_Type (attrs (ent ?e)) = Some (fxType Yleafref ''../a'')" by (simp add: fxLeaf_def)
  have "\<exists>yt np t. a_Type (attrs (ent ?e)) = Some yt \<and> yt_Kind yt = Yleafref \<and>
      normalizePath kindApi (yt_Path yt) ?e = Inr np \<and> GetEntry kindApi fxLoop np = Inr t \<and> t \<in> {?e}"
    using g n t by (simp add: fxType_def)
  then have "SchemaElemFromYEntry 1000 kindApi fxLoop ?e True = None"
    using leafref_cycle_diverges [of "{?e}" kindApi fxLoop ?e 1000 True] l by blast
  with g show ?thesis by blast
qed

section \<open>What a container message lists\<close>

definition isField :: "yang_api \<Rightarrow> eptr \<Rightarrow> bool" where
  "isField Y x \<longleftrightarrow> \<not> IsDir Y x \<and> IsLeaf Y x"

definition isLL :: "yang_api \<Rightarrow> eptr \<Rightarrow> bool" where
  "isLL Y x \<longleftrightarrow> \<not> IsDir Y x \<and> \<not> IsLeaf Y x \<and> IsLeafList Y x"

lemma leafElem_cases:
  "leafElem n Y sc e wd = Some (Inr el) \<Longrightarrow>
   (if IsLeaf Y e then \<exists>l. el = Field l \<and> leafFromYEntry n Y sc e wd = Some (Inr l) \<and> l_Name l = e_Name e
    else \<exists>l. el = Leaflist l \<and> leafListFromYEntry n Y sc e wd = Some (Inr l) \<and> ll_Name l = e_Name e)"
  by (auto simp: leafElem_def leafFromYEntry_def leafListFromYEntry_def split: if_splits)

definition lists :: "container_schema \<Rightarrow> string list \<times> string list \<times> string list \<times> string list" where
  "lists c = (c_Children c, map l_Name (c_Keys c), map l_Name (c_Fields c), map ll_Name (c_Leaflists c))"

lemma addChild_lists:
  assumes "addChild n Y sc keys wd c x = Some (Inr c')"
  shows "lists c' = (case lists c of (ch, ks, fs, ls) \<Rightarrow>
    (ch @ (if IsDir Y x then [e_Name x] else []),
     ks @ (if isField Y x \<and> e_Name x \<in> set keys then [e_Name x] else []),
     fs @ (if isField Y x \<and> e_Name x \<notin> set keys then [e_Name x] else []),
     ls @ (if isLL Y x then [e_Name x] else [])))"
proof (cases "\<not> IsDir Y x \<and> (IsLeaf Y x \<or> IsLeafList Y x)")
  case True
  with assms obtain el where el: "leafElem n Y sc x wd = Some (Inr el)" by (auto simp: addChild_def)
  with True assms leafElem_cases [OF el] show ?thesis
    by (auto simp: addChild_def lists_def isField_def isLL_def split: if_splits)
next
  case False
  with assms show ?thesis by (auto simp: addChild_def lists_def isField_def isLL_def split: if_splits)
qed

lemma ofold_addChild_lists:
  "ofold (addChild n Y sc keys wd) c xs = Some (Inr c') \<Longrightarrow>
   lists c' = (case lists c of (ch, ks, fs, ls) \<Rightarrow>
    (ch @ map e_Name (filter (IsDir Y) xs),
     ks @ map e_Name (filter (\<lambda>x. isField Y x \<and> e_Name x \<in> set keys) xs),
     fs @ map e_Name (filter (\<lambda>x. isField Y x \<and> e_Name x \<notin> set keys) xs),
     ls @ map e_Name (filter (isLL Y) xs)))"
proof (induction xs arbitrary: c)
  case (Cons x xs)
  then obtain c1 where "addChild n Y sc keys wd c x = Some (Inr c1)" "ofold (addChild n Y sc keys wd) c1 xs = Some (Inr c')"
    by auto
  with Cons.IH addChild_lists show ?case by (cases "lists c") auto
qed (simp add: split_def)

lemma sort_by_key: "sort_by (\<lambda>a b. f a < (f b :: 'k :: linorder)) xs = sort_key f xs"
proof -
  have "insert_by (\<lambda>a b. f a < f b) x ys = insort_key f x ys" for x ys
    by (induction ys) auto
  then show ?thesis by (induction xs) auto
qed

lemma map_sort_key: "map g (sort_key (\<lambda>x. f (g x)) xs) = sort_key f (map g xs)"
proof -
  have "map g (insort_key (\<lambda>x. f (g x)) x ys) = insort_key f (g x) (map g ys)" for x ys
    by (induction ys) auto
  then show ?thesis by (induction xs) auto
qed

lemma container_lists:
  assumes "containerFromYEntry n Y sc e wd = Some (Inr c)"
  shows "lists c =
    (sort (map e_Name (filter (IsDir Y) (getChildren Y e))),
     sort_key (slicesIndex (str_fields (e_Key e)))
       (map e_Name (filter (\<lambda>x. isField Y x \<and> e_Name x \<in> set (str_fields (e_Key e))) (getChildren Y e))),
     map e_Name (filter (\<lambda>x. isField Y x \<and> e_Name x \<notin> set (str_fields (e_Key e))) (getChildren Y e)),
     map e_Name (filter (isLL Y) (getChildren Y e)))"
proof -
  let ?keys = "str_fields (e_Key e)"
  from assms obtain c0 where c0: "ofold (addChild n Y sc ?keys wd) (emptyContainer Y e wd) (getChildren Y e) = Some (Inr c0)"
    and c: "c = c0\<lparr>c_Children := sort (c_Children c0),
          c_Keys := sort_by (\<lambda>a b. slicesIndex ?keys (l_Name a) < slicesIndex ?keys (l_Name b)) (c_Keys c0)\<rparr>"
    by (auto simp: containerFromYEntry_def Let_def)
  have "lists (emptyContainer Y e wd) = ([], [], [], [])" by (simp add: lists_def emptyContainer_def)
  with ofold_addChild_lists [OF c0] c show ?thesis
    by (simp add: lists_def sort_by_key map_sort_key)
qed

lemma slicesIndex_nth: "distinct ks \<Longrightarrow> i < length ks \<Longrightarrow> slicesIndex ks (ks ! i) = int i"
proof (induction ks arbitrary: i)
  case (Cons k ks)
  then show ?case by (cases i) (auto simp: Let_def)
qed simp

lemma map_slicesIndex: "distinct ks \<Longrightarrow> map (slicesIndex ks) ks = map int [0..<length ks]"
  by (rule nth_equalityI) (auto simp: slicesIndex_nth)

lemma sort_by_keys:
  assumes "distinct ks" "set xs = set ks" "distinct xs"
  shows "sort_key (slicesIndex ks) xs = ks"
proof -
  let ?f = "slicesIndex ks"
  have "distinct (map ?f ks)" using map_slicesIndex [OF assms(1)] by (simp add: distinct_map)
  then have inj: "inj_on ?f (set ks)" by (simp add: distinct_map)
  have "sorted (map ?f ks)" by (simp add: map_slicesIndex [OF assms(1)] sorted_map)
  moreover have "sorted (map ?f (sort_key ?f xs))" by simp
  moreover have "distinct (map ?f (sort_key ?f xs))" using assms inj by (simp add: distinct_map)
  moreover have "set (map ?f (sort_key ?f xs)) = set (map ?f ks)" using assms(2) by simp
  ultimately have "map ?f (sort_key ?f xs) = map ?f ks"
    using \<open>distinct (map ?f ks)\<close> sorted_distinct_set_unique by blast
  then show ?thesis using inj assms(2) by (intro map_inj_on [of ?f]) simp_all
qed

text \<open>C22: a container message lists each data child of the node under exactly one heading:
  directories under \<open>children\<close>, in order of name, leafs under \<open>keys\<close> or \<open>fields\<close>
  and leaf-lists under \<open>leaflists\<close>; for a list whose keys are leafs the keys come in the order of
  the \<open>key\<close> statement, whatever the order in which the children were visited.\<close>

theorem container_lists_children:
  assumes "containerFromYEntry n Y sc e wd = Some (Inr c)"
    and "distinct (map e_Name (getChildren Y e))" "distinct (str_fields (e_Key e))"
    and "\<forall>k\<in>set (str_fields (e_Key e)). \<exists>x\<in>set (getChildren Y e). isField Y x \<and> e_Name x = k"
  shows "map l_Name (c_Keys c) = str_fields (e_Key e) \<and>
    c_Children c = sort (map e_Name (filter (IsDir Y) (getChildren Y e))) \<and>
    map l_Name (c_Fields c) =
      map e_Name (filter (\<lambda>x. isField Y x \<and> e_Name x \<notin> set (str_fields (e_Key e))) (getChildren Y e)) \<and>
    map ll_Name (c_Leaflists c) = map e_Name (filter (isLL Y) (getChildren Y e))"
proof -
  let ?ks = "str_fields (e_Key e)"
  let ?xs = "map e_Name (filter (\<lambda>x. isField Y x \<and> e_Name x \<in> set ?ks) (getChildren Y e))"
  have "distinct ?xs" using assms(2) by (rule distinct_map_filter)
  moreover have "set ?xs = set ?ks" using assms(4) by auto
  ultimately have "sort_key (slicesIndex ?ks) ?xs = ?ks" using sort_by_keys [OF assms(3)] by blast
  then show ?thesis using container_lists [OF assms(1)] by (simp add: lists_def)
qed

theorem container_lists_children_witness:
  "\<exists>c. containerFromYEntry 2 kindApi fxSchema (Ptr fxDetailList (tl (anc fxSourceId))) True = Some (Inr c) \<and>
     map l_Name (c_Keys c) = [''id''] \<and> c_Children c = [] \<and>
     map l_Name (c_Fields c) = [''source-id'', ''ref-id''] \<and> c_Leaflists c = []"
proof -
  let ?e = "Ptr fxDetailList (tl (anc fxSourceId))"
  have "\<not> Option.is_none (containerFromYEntry 2 kindApi fxSchema ?e True) \<and> isl (the (containerFromYEntry 2 kindApi fxSchema ?e True)) = False"
    by code_simp
  then obtain c where c: "containerFromYEntry 2 kindApi fxSchema ?e True = Some (Inr c)"
    by (cases "containerFromYEntry 2 kindApi fxSchema ?e True") (auto, metis isl_def sum.exhaust_sel sum.disc(1) sum.collapse(2))
  have k: "str_fields (e_Key ?e) = [''id'']" by code_simp
  have ch: "map e_Name (getChildren kindApi ?e) = [''id'', ''source-id'', ''ref-id'']"
    and dirs: "filter (IsDir kindApi) (getChildren kindApi ?e) = []"
    and fs: "map e_Name (filter (\<lambda>x. isField kindApi x \<and> e_Name x \<notin> set (str_fields (e_Key ?e))) (getChildren kindApi ?e)) =
       [''source-id'', ''ref-id'']"
    and lls: "filter (isLL kindApi) (getChildren kindApi ?e) = []"
    and idf: "list_ex (\<lambda>x. isField kindApi x \<and> e_Name x = ''id'') (getChildren kindApi ?e)" by code_simp+
  have "map l_Name (c_Keys c) = str_fields (e_Key ?e) \<and>
    c_Children c = sort (map e_Name (filter (IsDir kindApi) (getChildren kindApi ?e))) \<and>
    map l_Name (c_Fields c) =
      map e_Name (filter (\<lambda>x. isField kindApi x \<and> e_Name x \<notin> set (str_fields (e_Key ?e))) (getChildren kindApi ?e)) \<and>
    map ll_Name (c_Leaflists c) = map e_Name (filter (isLL kindApi) (getChildren kindApi ?e))"
    by (rule container_lists_children [OF c]) (use ch k idf in \<open>simp_all add: list_ex_iff\<close>)
  note this [unfolded fs dirs lls]
  with c k show ?thesis by simp
qed

end
