(* ===== verification/Expand.thy ===== *)
theory Expand
  imports SchemaElem
begin

text \<open>
  \<open>pkg/schema/expand.go\<close>: \<open>ExpandPath\<close> turns a path into the paths of all leafs below
  it, restricted to configuration or state data, with a wildcard for every list key.
\<close>

section \<open>Operations\<close>

datatype data_type = DT_ALL | DT_CONFIG | DT_STATE

text \<open>The switch on \<open>dt\<close> in the leaf and leaf-list branches.\<close>

definition dtOk :: "data_type \<Rightarrow> eptr \<Rightarrow> bool" where
  "dtOk dt e = (case dt of DT_ALL \<Rightarrow> True | DT_CONFIG \<Rightarrow> \<not> isState e | DT_STATE \<Rightarrow> isState e)"

definition starKeys :: "eptr \<Rightarrow> (string \<times> string) list" where
  "starKeys e = fold (\<lambda>k m. AList.update k ''*'' m) (str_fields (e_Key e)) []"

function getPathElems :: "yang_api \<Rightarrow> data_type \<Rightarrow> eptr \<Rightarrow> PathElem list list" where
  "getPathElems Y dt e =
     (if IsCase Y e then concat (map (getPathElems Y dt) (e_children e))
      else if IsChoice Y e then concat (map (getPathElems Y dt) (e_children e))
      else if IsLeaf Y e then (if dtOk dt e then [[\<lparr>pe_Name = e_Name e, pe_Key = []\<rparr>]] else [])
      else if IsLeafList Y e then (if dtOk dt e then [[\<lparr>pe_Name = e_Name e, pe_Key = []\<rparr>]] else [])
      else if IsList Y e then
        concat (map (\<lambda>c. if e_Name c \<in> set (str_fields (e_Key e)) then []
                         else map (\<lambda>cpe. \<lparr>pe_Name = e_Name e, pe_Key = starKeys e\<rparr> # cpe) (getPathElems Y dt c))
                  (e_children e))
      else if IsContainer Y e then
        concat (map (\<lambda>c. map (\<lambda>cpe. \<lparr>pe_Name = e_Name e, pe_Key = []\<rparr> # cpe) (getPathElems Y dt c))
                  (e_children e))
      else [])"
  by pat_completeness auto
termination
  by (relation "measure (\<lambda>(Y, dt, e). size (ent e))") (auto dest: size_children)

declare getPathElems.simps [simp del]

definition populatePathElemKeys :: "yang_api \<Rightarrow> eptr \<Rightarrow> PathElem \<Rightarrow> PathElem" where
  "populatePathElemKeys Y e pe =
     (if IsList Y e then
        fold (\<lambda>k pe. if map_of (pe_Key pe) k = None then pe\<lparr>pe_Key := AList.update k ''*'' (pe_Key pe)\<rparr> else pe)
          (sort (str_fields (e_Key e))) pe
      else pe)"

text \<open>The loop of \<open>populatePathKeys\<close> runs over the elements from the last to the first; the
  argument is the reversed list. A nil entry is dereferenced when an element is left.\<close>

primrec populateLoop :: "yang_api \<Rightarrow> PathElem list \<Rightarrow> eptr option \<Rightarrow> PathElem list res" where
  "populateLoop Y [] ce = Inr []"
| "populateLoop Y (pe # pes) ceo =
     (case ceo of
        None \<Rightarrow> Inl nilDeref
      | Some ce \<Rightarrow>
          if (case e_Parent ce of None \<Rightarrow> False | Some p \<Rightarrow> e_Name p = RootName) then Inr (pe # pes)
          else rbind (populateLoop Y pes (e_Parent ce)) (\<lambda>r. Inr (populatePathElemKeys Y ce pe # r)))"

definition populatePathKeys :: "yang_api \<Rightarrow> eptr \<Rightarrow> Path \<Rightarrow> Path res" where
  "populatePathKeys Y e p =
     rbind (populateLoop Y (rev (p_Elem p)) (Some e)) (\<lambda>r. Inr (p\<lparr>p_Elem := rev r\<rparr>))"

definition ExpandPath :: "yang_api \<Rightarrow> schema \<Rightarrow> Path \<Rightarrow> data_type \<Rightarrow> Path list res" where
  "ExpandPath Y sc p dt =
     rbind (GetEntry Y sc (ToStrings (Some p) False True)) (\<lambda>e.
     rbind (populatePathKeys Y e p) (\<lambda>p'.
       if IsLeaf Y e then Inr [p']
       else Inr (concat (map (\<lambda>c. if e_Name c \<in> set (str_fields (e_Key e)) then []
                   else map (\<lambda>pe. \<lparr>p_Origin = [], p_Target = [], p_Elem = p_Elem p' @ pe\<rparr>) (getPathElems Y dt c))
              (e_children e)))))"

section \<open>The expansion lists exactly the leafs below a node\<close>

text \<open>\<open>expands Y dt e els\<close>: following \<open>els\<close> through the data tree, starting with the node
  \<open>e\<close> itself, ends in a leaf or leaf-list of the wanted kind; lists carry wildcards for their
  keys and the key leafs themselves are left out.\<close>

inductive expands :: "yang_api \<Rightarrow> data_type \<Rightarrow> eptr \<Rightarrow> PathElem list \<Rightarrow> bool" for Y dt where
  leaf: "IsLeaf Y e \<or> IsLeafList Y e \<Longrightarrow> dtOk dt e \<Longrightarrow> expands Y dt e [\<lparr>pe_Name = e_Name e, pe_Key = []\<rparr>]"
| list: "IsList Y e \<Longrightarrow> data_child Y e c \<Longrightarrow> e_Name c \<notin> set (str_fields (e_Key e)) \<Longrightarrow> expands Y dt c els \<Longrightarrow>
    expands Y dt e (\<lparr>pe_Name = e_Name e, pe_Key = starKeys e\<rparr> # els)"
| container: "IsContainer Y e \<Longrightarrow> data_child Y e c \<Longrightarrow> expands Y dt c els \<Longrightarrow>
    expands Y dt e (\<lparr>pe_Name = e_Name e, pe_Key = []\<rparr> # els)"

text \<open>The kinds of an entry exclude each other, and in a list no choice, case or member of one has
  the name of a key: RFC 7950 puts keys directly below the list and makes sibling names unique.\<close>

definition oneKind :: "yang_api \<Rightarrow> eptr \<Rightarrow> bool" where
  "oneKind Y e \<longleftrightarrow> length (filter id [IsCase Y e, IsChoice Y e, IsLeaf Y e, IsLeafList Y e, IsList Y e, IsContainer Y e]) \<le> 1"

function ccNames :: "yang_api \<Rightarrow> eptr \<Rightarrow> string list" where
  "ccNames Y e = concat (map (\<lambda>c. if isCC Y c then e_Name c # map e_Name (getChildren Y c) @ ccNames Y c else []) (e_children e))"
  by pat_completeness auto
termination
  by (relation "measure (\<lambda>(Y, e). size (ent e))") (auto dest: size_children)

declare ccNames.simps [simp del]

function expandOk :: "yang_api \<Rightarrow> eptr \<Rightarrow> bool" where
  "expandOk Y e \<longleftrightarrow> oneKind Y e \<and> (IsList Y e \<longrightarrow> set (ccNames Y e) \<inter> set (str_fields (e_Key e)) = {}) \<and>
     list_all (expandOk Y) (e_children e)"
  by pat_completeness auto
termination
  by (relation "measure (\<lambda>(Y, e). size (ent e))") (auto dest: size_children)

declare expandOk.simps [simp del]

lemma expandOk_child: "expandOk Y e \<Longrightarrow> c \<in> set (e_children e) \<Longrightarrow> expandOk Y c"
  by (subst (asm) expandOk.simps) (auto simp: list_all_iff)

lemma expandOk_oneKind: "expandOk Y e \<Longrightarrow> oneKind Y e"
  by (subst (asm) expandOk.simps) simp

lemma data_child_split:
  assumes "isCC Y e \<or> IsContainer Y e \<or> IsList Y e"
  shows "(\<exists>d. data_child Y e d \<and> X d) \<longleftrightarrow>
    (\<exists>c\<in>set (e_children e). if isCC Y c then \<exists>d. data_child Y c d \<and> X d else X c)"
proof
  assume "\<exists>d. data_child Y e d \<and> X d"
  then obtain d where "data_child Y e d" "X d" by blast
  then show "\<exists>c\<in>set (e_children e). if isCC Y c then \<exists>d. data_child Y c d \<and> X d else X c"
    by (cases rule: data_child.cases) auto
next
  assume "\<exists>c\<in>set (e_children e). if isCC Y c then \<exists>d. data_child Y c d \<and> X d else X c"
  then obtain c where c: "c \<in> set (e_children e)" "if isCC Y c then \<exists>d. data_child Y c d \<and> X d else X c" by blast
  then show "\<exists>d. data_child Y e d \<and> X d"
    using assms by (cases "isCC Y c") (auto intro: data_child.intros)
qed

lemma ccNames_cc: "c \<in> set (e_children e) \<Longrightarrow> isCC Y c \<Longrightarrow> e_Name c \<in> set (ccNames Y e)"
  by (subst ccNames.simps) force

lemma ccNames_member: "c \<in> set (e_children e) \<Longrightarrow> isCC Y c \<Longrightarrow> data_child Y c d \<Longrightarrow> e_Name d \<in> set (ccNames Y e)"
  by (drule getChildren_complete, subst ccNames.simps) (auto intro!: bexI [of _ c])

lemma list_split:
  assumes "isCC Y e \<or> IsContainer Y e \<or> IsList Y e" "set (ccNames Y e) \<inter> K = {}"
  shows "(\<exists>d. data_child Y e d \<and> e_Name d \<notin> K \<and> X d) \<longleftrightarrow>
    (\<exists>c\<in>set (e_children e). e_Name c \<notin> K \<and> (if isCC Y c then \<exists>d. data_child Y c d \<and> X d else X c))"
proof -
  have "(if isCC Y c then \<exists>d. data_child Y c d \<and> e_Name d \<notin> K \<and> X d else e_Name c \<notin> K \<and> X c) \<longleftrightarrow>
      e_Name c \<notin> K \<and> (if isCC Y c then \<exists>d. data_child Y c d \<and> X d else X c)" if "c \<in> set (e_children e)" for c
  proof (cases "isCC Y c")
    case True
    then show ?thesis using ccNames_cc [OF that True] ccNames_member [OF that True] assms(2)
      by (simp only: if_True) blast
  qed simp
  then show ?thesis
    using data_child_split [of Y e "\<lambda>d. e_Name d \<notin> K \<and> X d"] assms(1) by auto
qed

inductive_simps expands_Nil: "expands Y dt e []"
inductive_simps expands_Cons: "expands Y dt e (x # xs)"

lemma getPathElems_expands:
  "expandOk Y e \<Longrightarrow>
   (els \<in> set (getPathElems Y dt e)) \<longleftrightarrow>
     (if isCC Y e then \<exists>d. data_child Y e d \<and> expands Y dt d els else expands Y dt e els)"
proof (induction "size (ent e)" arbitrary: e els rule: less_induct)
  case less
  note k = expandOk_oneKind [OF less.prems]
  have IH: "(els \<in> set (getPathElems Y dt c)) \<longleftrightarrow>
      (if isCC Y c then \<exists>d. data_child Y c d \<and> expands Y dt d els else expands Y dt c els)"
    if "c \<in> set (e_children e)" for c els
    using less.hyps [OF size_children [OF that]] expandOk_child [OF less.prems that] by blast
  consider (cc) "isCC Y e" | (leaf) "\<not> isCC Y e" "IsLeaf Y e \<or> IsLeafList Y e"
    | (list) "\<not> isCC Y e" "\<not> IsLeaf Y e" "\<not> IsLeafList Y e" "IsList Y e"
    | (container) "\<not> isCC Y e" "\<not> IsLeaf Y e" "\<not> IsLeafList Y e" "\<not> IsList Y e" "IsContainer Y e"
    | (other) "\<not> isCC Y e" "\<not> IsLeaf Y e" "\<not> IsLeafList Y e" "\<not> IsList Y e" "\<not> IsContainer Y e" by blast
  then show ?case
  proof cases
    case cc
    then have "set (getPathElems Y dt e) = (\<Union>c\<in>set (e_children e). set (getPathElems Y dt c))"
      by (subst getPathElems.simps) auto
    then show ?thesis using cc IH data_child_split [of Y e "\<lambda>d. expands Y dt d els"] by auto
  next
    case leaf
    with k have n: "\<not> IsList Y e" "\<not> IsContainer Y e" by (auto simp: oneKind_def split: if_splits)
    with leaf show ?thesis
      by (subst getPathElems.simps) (cases els; auto simp: expands_Nil expands_Cons)
  next
    case list
    with k have n: "\<not> IsContainer Y e" by (auto simp: oneKind_def split: if_splits)
    let ?K = "set (str_fields (e_Key e))" and ?p = "\<lparr>pe_Name = e_Name e, pe_Key = starKeys e\<rparr>"
    have cn: "set (ccNames Y e) \<inter> ?K = {}" using less.prems list(4) by (subst (asm) expandOk.simps) simp
    have "els \<in> set (getPathElems Y dt e) \<longleftrightarrow>
        (\<exists>x. els = ?p # x \<and> (\<exists>c\<in>set (e_children e). e_Name c \<notin> ?K \<and> x \<in> set (getPathElems Y dt c)))"
      using list by (subst getPathElems.simps) (auto split: if_splits)
    also have "\<dots> \<longleftrightarrow> (\<exists>x. els = ?p # x \<and> (\<exists>d. data_child Y e d \<and> e_Name d \<notin> ?K \<and> expands Y dt d x))"
      using IH list_split [OF _ cn, of "\<lambda>d. expands Y dt d x" for x] list(4) by auto
    also have "\<dots> \<longleftrightarrow> expands Y dt e els"
      using list n by (cases els) (auto simp: expands_Nil expands_Cons)
    finally show ?thesis using list(1) by simp
  next
    case container
    let ?p = "\<lparr>pe_Name = e_Name e, pe_Key = []\<rparr>"
    have "els \<in> set (getPathElems Y dt e) \<longleftrightarrow>
        (\<exists>x. els = ?p # x \<and> (\<exists>c\<in>set (e_children e). x \<in> set (getPathElems Y dt c)))"
      using container by (subst getPathElems.simps) auto
    also have "\<dots> \<longleftrightarrow> (\<exists>x. els = ?p # x \<and> (\<exists>d. data_child Y e d \<and> expands Y dt d x))"
      using IH container(5) data_child_split [of Y e "\<lambda>d. expands Y dt d x" for x] by auto
    also have "\<dots> \<longleftrightarrow> expands Y dt e els"
      using container by (cases els) (auto simp: expands_Nil expands_Cons)
    finally show ?thesis using container(1) by simp
  next
    case other
    then show ?thesis by (subst getPathElems.simps) (cases els; auto simp: expands_Nil expands_Cons)
  qed
qed

section \<open>Filling in the keys of the given path\<close>

text \<open>The given elements, with a wildcard for every key of the list they name that they leave
  open. \<open>aligned\<close> pairs the elements of a path with the entries they stand for, where each
  entry is a child of the one before.\<close>

inductive aligned :: "eptr \<Rightarrow> PathElem list \<Rightarrow> eptr list \<Rightarrow> bool" where
  here: "aligned m [] []"
| down: "c \<in> set (e_children m) \<Longrightarrow> e_Name c = pe_Name pe \<Longrightarrow> aligned c pes es \<Longrightarrow> aligned m (pe # pes) (c # es)"

lemma populateLoop_aligned:
  "aligned m pes es \<Longrightarrow> wfLinked (ent m) \<Longrightarrow> e_Name m \<noteq> RootName \<Longrightarrow>
   populateLoop Y (rev pes @ rest) (Some (last (m # es))) =
     rbind (populateLoop Y rest (Some m)) (\<lambda>r. Inr (rev (map2 (populatePathElemKeys Y) es pes) @ r))"
proof (induction arbitrary: rest rule: aligned.induct)
  case (here m)
  then show ?case by (cases "populateLoop Y rest (Some m)") auto
next
  case (down c m pe pes es)
  have c: "e_Parent c = Some m" "e_Name c \<noteq> RootName" "wfLinked (ent c)"
    using wfLinked_child [OF down.prems(1) down.hyps(1)] by blast+
  then have "populateLoop Y (rev pes @ pe # rest) (Some (last (c # es))) =
     rbind (populateLoop Y (pe # rest) (Some c)) (\<lambda>r. Inr (rev (map2 (populatePathElemKeys Y) es pes) @ r))"
    using down.IH by blast
  moreover have "populateLoop Y (pe # rest) (Some c) =
      rbind (populateLoop Y rest (Some m)) (\<lambda>r. Inr (populatePathElemKeys Y c pe # r))"
    using c(1) down.prems(2) by simp
  ultimately show ?case by (cases "populateLoop Y rest (Some m)") auto
qed

lemma populateKeys_fold:
  "pe_Name (fold (\<lambda>k pe. if map_of (pe_Key pe) k = None then pe\<lparr>pe_Key := AList.update k ''*'' (pe_Key pe)\<rparr> else pe) ks pe) = pe_Name pe \<and>
   map_of (pe_Key (fold (\<lambda>k pe. if map_of (pe_Key pe) k = None then pe\<lparr>pe_Key := AList.update k ''*'' (pe_Key pe)\<rparr> else pe) ks pe)) k =
     (case map_of (pe_Key pe) k of Some v \<Rightarrow> Some v | None \<Rightarrow> if k \<in> set ks then Some ''*'' else None)"
  by (induction ks arbitrary: pe) (auto simp: update_conv' split: option.splits)

lemma expand_image:
  "p_Elem ` (\<Union>c\<in>S. set (if P c then [] else map (\<lambda>pe. \<lparr>p_Origin = [], p_Target = [], p_Elem = pre @ pe\<rparr>) (g c))) =
   {pre @ els |els. \<exists>c\<in>S. \<not> P c \<and> els \<in> set (g c)}"
  by (auto simp: image_iff split: if_splits) (metis Path.select_convs(3))+

text \<open>C16: expanding a path lists exactly the leafs below it. For a path whose entries are nested
  directly in each other and end in a container or list \<open>e\<close>, the result holds one path for every
  leaf and leaf-list below \<open>e\<close> that is of the requested kind (all, configuration or state), key
  leafs excepted, through choice and case nodes, and nothing else; each starts with the given
  elements, in which every list key that was left open is a wildcard and the others keep their
  value.\<close>

theorem ExpandPath_spec:
  assumes "GetEntry Y sc (map pe_Name (p_Elem p)) = Inr e" "aligned m (p_Elem p) es" "last (m # es) = e"
    and "wfLinked (ent m)" "e_Name m \<noteq> RootName" "expandOk Y e"
    and "IsList Y e \<or> IsContainer Y e \<and> e_Key e = []"
  shows "\<exists>ps pre. ExpandPath Y sc p dt = Inr ps \<and>
    p_Elem ` set ps = {pre @ els |els d. data_child Y e d \<and>
       e_Name d \<notin> set (str_fields (e_Key e)) \<and> expands Y dt d els} \<and>
    list_all2 (\<lambda>x pe. pe_Name x = pe_Name pe) pre (p_Elem p) \<and>
    (\<forall>i k. i < length es \<longrightarrow> map_of (pe_Key (pre ! i)) k =
       (case map_of (pe_Key (p_Elem p ! i)) k of
          Some v \<Rightarrow> Some v
        | None \<Rightarrow> if IsList Y (es ! i) \<and> k \<in> set (str_fields (e_Key (es ! i))) then Some ''*'' else None))"
proof -
  define pre where "pre = map2 (populatePathElemKeys Y) es (p_Elem p)"
  let ?K = "set (str_fields (e_Key e))"
  have len: "length es = length (p_Elem p)" using assms(2) by (induction rule: aligned.induct) auto
  have "populateLoop Y (rev (p_Elem p)) (Some e) = Inr (rev pre)"
    using populateLoop_aligned [OF assms(2,4,5), of Y "[]"] by (simp add: pre_def assms(3) del: last.simps)
  then have pop: "populatePathKeys Y e p = Inr (p\<lparr>p_Elem := pre\<rparr>)" by (simp add: populatePathKeys_def)
  have k: "oneKind Y e" using assms(6) by (rule expandOk_oneKind)
  then have "\<not> IsLeaf Y e" using assms(7) by (auto simp: oneKind_def split: if_splits)
  moreover have "ToStrings (Some p) False True = map pe_Name (p_Elem p)"
    by (simp add: ToStrings_def concat_map_singleton)
  ultimately have ex: "ExpandPath Y sc p dt = Inr (concat (map (\<lambda>c. if e_Name c \<in> ?K then []
       else map (\<lambda>pe. \<lparr>p_Origin = [], p_Target = [], p_Elem = pre @ pe\<rparr>) (getPathElems Y dt c)) (e_children e)))"
    using assms(1) pop by (simp add: ExpandPath_def cong: if_cong)
  have cn: "set (ccNames Y e) \<inter> ?K = {}"
    using assms(6,7) by (subst (asm) expandOk.simps) (auto simp: str_fields_def)
  have ch: "els \<in> set (getPathElems Y dt c) \<longleftrightarrow>
      (if isCC Y c then \<exists>d. data_child Y c d \<and> expands Y dt d els else expands Y dt c els)"
    if "c \<in> set (e_children e)" for c els
    using getPathElems_expands expandOk_child [OF assms(6) that] by blast
  have c: "(\<exists>c\<in>set (e_children e). e_Name c \<notin> ?K \<and> els \<in> set (getPathElems Y dt c)) \<longleftrightarrow>
      (\<exists>d. data_child Y e d \<and> e_Name d \<notin> ?K \<and> expands Y dt d els)" for els
    by (subst list_split [OF _ cn]) (use assms(7) in blast, intro bex_cong refl, simp only: ch)
  have "p_Elem ` (\<Union>c\<in>set (e_children e). set (if e_Name c \<in> ?K then []
       else map (\<lambda>pe. \<lparr>p_Origin = [], p_Target = [], p_Elem = pre @ pe\<rparr>) (getPathElems Y dt c))) =
      {pre @ els |els d. data_child Y e d \<and> e_Name d \<notin> ?K \<and> expands Y dt d els}"
    unfolding expand_image c by blast
  moreover have "list_all2 (\<lambda>x pe. pe_Name x = pe_Name pe) pre (p_Elem p)"
    using len populateKeys_fold by (auto simp: pre_def list_all2_conv_all_nth populatePathElemKeys_def)
  moreover have "map_of (pe_Key (pre ! i)) k = (case map_of (pe_Key (p_Elem p ! i)) k of
          Some v \<Rightarrow> Some v
        | None \<Rightarrow> if IsList Y (es ! i) \<and> k \<in> set (str_fields (e_Key (es ! i))) then Some ''*'' else None)"
    if "i < length es" for i k
    using that len populateKeys_fold [of "sort (str_fields (e_Key (es ! i)))" "p_Elem p ! i" k]
    by (auto simp: pre_def populatePathElemKeys_def split: option.splits)
  ultimately show ?thesis using ex by (intro exI conjI) (assumption, simp_all only: set_concat set_map image_image, simp_all)
qed

definition fxHostPath :: Path where
  "fxHostPath = \<lparr>p_Origin = [], p_Target = [], p_Elem = [\<lparr>pe_Name = ''host'', pe_Key = []\<rparr>]\<rparr>"

theorem ExpandPath_spec_witness:
  "ExpandPath kindApi fxSchema fxHostPath DT_CONFIG =
     Inr (map (\<lambda>els. \<lparr>p_Origin = [], p_Target = [], p_Elem = \<lparr>pe_Name = ''host'', pe_Key = []\<rparr> # els\<rparr>)
       [[\<lparr>pe_Name = ''detail-list'', pe_Key = [(''id'', ''*'')]\<rparr>, \<lparr>pe_Name = ''source-id'', pe_Key = []\<rparr>],
        [\<lparr>pe_Name = ''detail-list'', pe_Key = [(''id'', ''*'')]\<rparr>, \<lparr>pe_Name = ''ref-id'', pe_Key = []\<rparr>],
        [\<lparr>pe_Name = ''other-leaf'', pe_Key = []\<rparr>]]) \<and>
   (\<exists>pre d. expands kindApi DT_CONFIG d [\<lparr>pe_Name = ''other-leaf'', pe_Key = []\<rparr>] \<and>
     data_child kindApi (Ptr fxHost [fxModule, fxRoot]) d)"
proof -
  let ?e = "Ptr fxHost [fxModule, fxRoot]"
  have x: "ExpandPath kindApi fxSchema fxHostPath DT_CONFIG =
     Inr (map (\<lambda>els. \<lparr>p_Origin = [], p_Target = [], p_Elem = \<lparr>pe_Name = ''host'', pe_Key = []\<rparr> # els\<rparr>)
       [[\<lparr>pe_Name = ''detail-list'', pe_Key = [(''id'', ''*'')]\<rparr>, \<lparr>pe_Name = ''source-id'', pe_Key = []\<rparr>],
        [\<lparr>pe_Name = ''detail-list'', pe_Key = [(''id'', ''*'')]\<rparr>, \<lparr>pe_Name = ''ref-id'', pe_Key = []\<rparr>],
        [\<lparr>pe_Name = ''other-leaf'', pe_Key = []\<rparr>]])" by code_simp
  have g: "GetEntry kindApi fxSchema (map pe_Name (p_Elem fxHostPath)) = Inr ?e" by code_simp
  have "?e \<in> set (e_children fxModulePtr)" by code_simp
  then have a: "aligned fxModulePtr (p_Elem fxHostPath) [?e]"
    unfolding fxHostPath_def by (auto intro!: aligned.intros simp: fxHost_def fxDir_def fxAttrs_def)
  have w: "wfLinked (ent fxModulePtr)" "e_Name fxModulePtr \<noteq> RootName" "expandOk kindApi ?e"
    "IsList kindApi ?e \<or> IsContainer kindApi ?e \<and> e_Key ?e = []" by code_simp+
  from ExpandPath_spec [OF g a _ w, of DT_CONFIG] obtain ps pre where
    ps: "ExpandPath kindApi fxSchema fxHostPath DT_CONFIG = Inr ps"
    "p_Elem ` set ps = {pre @ els |els d. data_child kindApi ?e d \<and>
       e_Name d \<notin> set (str_fields (e_Key ?e)) \<and> expands kindApi DT_CONFIG d els}"
    "list_all2 (\<lambda>x pe. pe_Name x = pe_Name pe) pre (p_Elem fxHostPath)" by auto
  from ps(3) have l: "length pre = 1" by (simp add: fxHostPath_def list_all2_lengthD)
  from ps(1) x have "[\<lparr>pe_Name = ''host'', pe_Key = []\<rparr>, \<lparr>pe_Name = ''other-leaf'', pe_Key = []\<rparr>] \<in> p_Elem ` set ps" by auto
  with ps(2) obtain els d where d: "data_child kindApi ?e d" "expands kindApi DT_CONFIG d els"
    "[\<lparr>pe_Name = ''host'', pe_Key = []\<rparr>, \<lparr>pe_Name = ''other-leaf'', pe_Key = []\<rparr>] = pre @ els" by auto
  from d(3) l have "els = [\<lparr>pe_Name = ''other-leaf'', pe_Key = []\<rparr>]" by (cases pre) auto
  with d x show ?thesis by blast
qed

text \<open>Where a choice lies on the way, \<open>populatePathKeys\<close> pairs elements and entries wrongly:
  it steps to \<open>Parent\<close> once per element, and the parent of a choice member is a case. In the list
  \<open>l\<close> with a container \<open>x\<close> inside a choice, the key of \<open>l\<close> is left open.\<close>

definition fxList2 :: entry where
  "fxList2 = fxList ''l'' ''k'' [fxLeaf ''k'' fxString,
     fxDir ''ch'' ChoiceEntry [fxDir ''cs'' CaseEntry [fxDir ''x'' DirectoryEntry [fxLeaf ''y'' fxString]]]]"

definition fxSchema2 :: schema where
  "fxSchema2 = fxSchema\<lparr>sc_root := Some (Entry (attrs fxRoot) (Some [(''lrc'', Entry (attrs fxModule) (Some [(''l'', fxList2)]))]))\<rparr>"

text \<open>A list key above a choice is not filled in. Expanding the path of a leaf below a choice
  returns the list element without its key, although every list element of an expanded path is meant
  to carry a value or a wildcard for each key.\<close>

theorem ExpandPath_key_above_choice:
  "ExpandPath kindApi fxSchema2 \<lparr>p_Origin = [], p_Target = [], p_Elem =
      [\<lparr>pe_Name = ''l'', pe_Key = []\<rparr>, \<lparr>pe_Name = ''x'', pe_Key = []\<rparr>, \<lparr>pe_Name = ''y'', pe_Key = []\<rparr>]\<rparr> DT_ALL =
   Inr [\<lparr>p_Origin = [], p_Target = [], p_Elem =
      [\<lparr>pe_Name = ''l'', pe_Key = []\<rparr>, \<lparr>pe_Name = ''x'', pe_Key = []\<rparr>, \<lparr>pe_Name = ''y'', pe_Key = []\<rparr>]\<rparr>] \<and>
   ExpandPath kindApi fxSchema2 \<lparr>p_Origin = [], p_Target = [], p_Elem = [\<lparr>pe_Name = ''l'', pe_Key = []\<rparr>]\<rparr> DT_ALL =
   Inr [\<lparr>p_Origin = [], p_Target = [], p_Elem =
      [\<lparr>pe_Name = ''l'', pe_Key = [(''k'', ''*'')]\<rparr>, \<lparr>pe_Name = ''x'', pe_Key = []\<rparr>, \<lparr>pe_Name = ''y'', pe_Key = []\<rparr>]\<rparr>]"
  by (rule conjI; code_simp)

end
