(* ===== verification/SchemaLoad.thy ===== *)
theory SchemaLoad
  imports Expand
begin

text \<open>
  Loading a schema: \<open>pkg/schema/helpers.go\<close> (finding and reading YANG files) and the
  constructor, accessors and \<open>Walk\<close> of \<open>pkg/schema/schema.go\<close>.

  The file system is the record \<open>os_env\<close>, an argument; so is the goyang module loader with the
  regular expressions (\<open>loader\<close>). What the functions of the standard library compute from
  strings alone (\<open>filepath.Ext\<close>, \<open>path.Clean\<close>, \<open>path.Join\<close>) is defined here.
\<close>

section \<open>Paths of the operating system\<close>

fun extRev :: "string \<Rightarrow> string \<Rightarrow> string" where
  "extRev [] acc = []"
| "extRev (c # cs) acc = (if c = slash then [] else if c = CHR ''.'' then c # acc else extRev cs (c # acc))"

definition filepathExt :: "string \<Rightarrow> string" where
  "filepathExt p = extRev (rev p) []"

text \<open>\<open>path.Clean\<close>: the stack holds the components kept so far, innermost first.\<close>

definition cleanStep :: "bool \<Rightarrow> string \<Rightarrow> string list \<Rightarrow> string list" where
  "cleanStep rooted c st =
     (if c = [] \<or> c = ''.'' then st
      else if c = ''..'' then
        (case st of
           [] \<Rightarrow> if rooted then [] else [c]
         | s # ss \<Rightarrow> if s = ''..'' then c # st else ss)
      else c # st)"

definition pathClean :: "string \<Rightarrow> string" where
  "pathClean p =
     (if p = [] then ''.''
      else
        let rooted = (hd p = slash);
            st = fold (cleanStep rooted) (str_split slash p) [];
            s = str_join [slash] (rev st) in
        if rooted then slash # s else if s = [] then ''.'' else s)"

definition pathJoin :: "string list \<Rightarrow> string" where
  "pathJoin elems = (let es = filter (\<lambda>e. e \<noteq> []) elems in if es = [] then [] else pathClean (str_join [slash] es))"

text \<open>\<open>filepath.Dir\<close>: everything up to the last slash.\<close>

definition filepathDir :: "string \<Rightarrow> string" where
  "filepathDir p = pathClean (rev (dropWhile (\<lambda>c. c \<noteq> slash) (rev p)))"

section \<open>Finding files\<close>

datatype file_mode = ModeDir | ModeRegular | ModeOther

text \<open>\<open>os_walk p\<close> is the sequence of calls \<open>filepath.Walk\<close> makes from \<open>p\<close>: a path and
  the error passed with it, if any. \<open>os_homedir\<close> is \<open>homedir.Expand\<close>.\<close>

record os_env =
  os_stat :: "string \<Rightarrow> file_mode res"
  os_walk :: "string \<Rightarrow> (string \<times> gerr option) list"
  os_glob :: "string \<Rightarrow> string list res"
  os_homedir :: "string \<Rightarrow> string res"
  os_getwd :: "string res"

definition walkDir :: "os_env \<Rightarrow> string \<Rightarrow> string \<Rightarrow> string list res" where
  "walkDir F path ext =
     rfold (\<lambda>fs (p, err).
        case err of
          Some e \<Rightarrow> Inl e
        | None \<Rightarrow> rbind (os_stat F p) (\<lambda>mode.
            Inr (if mode = ModeRegular \<and> filepathExt p = ext then fs @ [p] else fs)))
       [] (os_walk F path)"

definition findYangFiles :: "os_env \<Rightarrow> string list \<Rightarrow> string list res" where
  "findYangFiles F files =
     rfold (\<lambda>yfiles file.
        rbind (os_stat F file) (\<lambda>mode.
          case mode of
            ModeDir \<Rightarrow> rbind (walkDir F file ''.yang'') (\<lambda>fls. Inr (yfiles @ fls))
          | ModeRegular \<Rightarrow> Inr (if filepathExt file = ''.yang'' then yfiles @ [file] else yfiles)
          | ModeOther \<Rightarrow> Inr yfiles))
       [] files"

definition expandOSPath :: "os_env \<Rightarrow> string \<Rightarrow> string res" where
  "expandOSPath F p =
     (if p = ''-'' \<or> p = [] then Inr p
      else if hasPrefix p ''http://'' \<or> hasPrefix p ''https://'' \<or> hasPrefix p ''sftp://'' \<or> hasPrefix p ''ftp://''
      then Inr p
      else
        (case os_homedir F p of
           Inl err \<Rightarrow> Inl (Wrap ''path %q: %v'' [p] err)
         | Inr np \<Rightarrow>
             rbind (if \<not> hasPrefix np [slash] then
                      (case os_getwd F of
                         Inl err \<Rightarrow> Inl (Wrap ''path %q: %v'' [p] err)
                       | Inr cwd \<Rightarrow> Inr (pathJoin [cwd, np]))
                    else Inr np)
               (\<lambda>np'. rbind (os_stat F np') (\<lambda>_. Inr np'))))"

definition ExpandOSPaths :: "os_env \<Rightarrow> string list \<Rightarrow> string list res" where
  "ExpandOSPaths F paths = traverse (expandOSPath F) paths"

definition resolveGlobs :: "os_env \<Rightarrow> string list \<Rightarrow> string list res" where
  "resolveGlobs F globs =
     rbind (rfold (\<lambda>results p.
              if list_ex (\<lambda>c. c \<in> set p) ''*?['' then rbind (os_glob F p) (\<lambda>matches. Inr (results @ matches))
              else Inr (results @ [p]))
            [] (concat (map (str_split (CHR '','')) globs)))
       (ExpandOSPaths F)"

section \<open>Reading modules\<close>

text \<open>The goyang loader: the directories below a path that hold modules, reading one file into the
  modules read so far, processing them (the error texts), and the entries of all modules in the order in
  which the map of modules is visited; and \<open>regexp.Compile\<close> with \<open>MatchString\<close>.\<close>

record loader =
  ld_PathsWithModules :: "string \<Rightarrow> string list res"
  ld_Compile :: "string \<Rightarrow> (string \<Rightarrow> bool) res"
  ld_Read :: "string list \<Rightarrow> string list \<Rightarrow> string \<Rightarrow> gerr option"
  ld_Process :: "string list \<Rightarrow> string list \<Rightarrow> string list"
  ld_Entries :: "string list \<Rightarrow> string list \<Rightarrow> entry list"

text \<open>The result is what \<open>sc.modules\<close> holds: the search path and the files read.\<close>

definition readYANGFiles :: "loader \<Rightarrow> schema_config \<Rightarrow> (string list \<times> string list) res" where
  "readYANGFiles L cfg =
     (if cfg_Files cfg = [] then Inr ([], [])
      else
        rbind (traverse (ld_PathsWithModules L) (cfg_Directories cfg)) (\<lambda>expanded.
        rbind (traverse (ld_Compile L) (cfg_Excludes cfg)) (\<lambda>excludeRegexes.
        rbind (rfold (\<lambda>rd name.
                 if list_ex (\<lambda>r. r name) excludeRegexes then Inr rd
                 else (case ld_Read L (concat expanded) rd name of Some err \<Rightarrow> Inl err | None \<Rightarrow> Inr (rd @ [name])))
               [] (cfg_Files cfg)) (\<lambda>rd.
          let errs = ld_Process L (concat expanded) rd in
          if errs \<noteq> [] then Inl (Errorf ''yang processing failed with %d error(s):%s'' errs)
          else Inr (concat expanded, rd)))))"

section \<open>The schema object\<close>

definition rootAttrs :: entry_attrs where
  "rootAttrs = \<lparr>a_Name = RootName, a_Description = [], a_Units = [], a_Key = [], a_Kind = DirectoryEntry,
     a_Config = TSUnset, a_Mandatory = TSUnset, a_Type = None, a_ListAttr = None, a_Prefix = None,
     a_Node = None, a_Extra = [], a_Linked = False\<rparr>"

definition rootOf :: "entry list \<Rightarrow> entry" where
  "rootOf es = Entry rootAttrs (Some (fold (\<lambda>e d. AList.update (a_Name (attrs e)) e d) es []))"

definition NewSchema :: "os_env \<Rightarrow> loader \<Rightarrow> yang_api \<Rightarrow> schema_config \<Rightarrow> schema res" where
  "NewSchema F L Y sCfg =
     rbind (findYangFiles F (cfg_Files sCfg)) (\<lambda>files.
       let cfg = sCfg\<lparr>cfg_Files := files\<rparr> in
       rbind (readYANGFiles L cfg) (\<lambda>(paths, rd).
       rbind (buildReferencesAnnotation Y
                \<lparr>sc_config = cfg, sc_root = Some (rootOf (ld_Entries L paths rd)), sc_status = [], sc_annot = []\<rparr>)
         (\<lambda>sc. Inr (sc\<lparr>sc_status := ''ok''\<rparr>))))"

definition Reload :: "os_env \<Rightarrow> loader \<Rightarrow> yang_api \<Rightarrow> schema \<Rightarrow> schema res" where
  "Reload F L Y s = NewSchema F L Y (sc_config s)"

definition Reset :: "schema \<Rightarrow> schema" where
  "Reset s = s\<lparr>sc_root := None\<rparr>"

definition UniqueName :: "schema option \<Rightarrow> string \<Rightarrow> string" where
  "UniqueName so sep =
     (case so of
        None \<Rightarrow> []
      | Some s \<Rightarrow> str_join (if sep = [] then ''@'' else sep)
          [cfg_Name (sc_config s), cfg_Vendor (sc_config s), cfg_Version (sc_config s)])"

text \<open>\<open>Name\<close>, \<open>Vendor\<close>, \<open>Version\<close>, \<open>Files\<close>, \<open>Dirs\<close> and \<open>Excludes\<close>
  read the configuration.\<close>

abbreviation sc_Name :: "schema \<Rightarrow> string" where "sc_Name s \<equiv> cfg_Name (sc_config s)"
abbreviation sc_Vendor :: "schema \<Rightarrow> string" where "sc_Vendor s \<equiv> cfg_Vendor (sc_config s)"
abbreviation sc_Version :: "schema \<Rightarrow> string" where "sc_Version s \<equiv> cfg_Version (sc_config s)"
abbreviation sc_Files :: "schema \<Rightarrow> string list" where "sc_Files s \<equiv> cfg_Files (sc_config s)"
abbreviation sc_Dirs :: "schema \<Rightarrow> string list" where "sc_Dirs s \<equiv> cfg_Directories (sc_config s)"
abbreviation sc_Excludes :: "schema \<Rightarrow> string list" where "sc_Excludes s \<equiv> cfg_Excludes (sc_config s)"

text \<open>\<open>Walk\<close> calls \<open>fn\<close> on every entry that is no choice or case; the state \<open>fn\<close>
  closes over is passed along.\<close>

function Walk :: "yang_api \<Rightarrow> ('s \<Rightarrow> eptr \<Rightarrow> 's res) \<Rightarrow> 's \<Rightarrow> eptr \<Rightarrow> 's res" where
  "Walk Y fn st e =
     (if IsCase Y e \<or> IsChoice Y e then rfold (\<lambda>st ee. Walk Y fn st ee) st (e_children e)
      else rbind (fn st e) (\<lambda>st'. rfold (\<lambda>st ee. Walk Y fn st ee) st' (e_children e)))"
  by pat_completeness auto
termination
  by (relation "measure (\<lambda>(Y, fn, st, e). size (ent e))") (auto dest: size_children)

declare Walk.simps [simp del]

section \<open>Walking a schema\<close>

function walkNodes :: "yang_api \<Rightarrow> eptr \<Rightarrow> eptr list" where
  "walkNodes Y e = (if isCC Y e then [] else [e]) @ concat (map (walkNodes Y) (e_children e))"
  by pat_completeness auto
termination
  by (relation "measure (\<lambda>(Y, e). size (ent e))") (auto dest: size_children)

declare walkNodes.simps [simp del]

lemma rfold_append: "rfold f s (xs @ ys) = rbind (rfold f s xs) (\<lambda>s'. rfold f s' ys)"
proof (induction xs arbitrary: s)
  case (Cons x xs)
  then show ?case by (cases "f s x") auto
qed simp

lemma rfold_concat: "rfold (\<lambda>s x. rfold f s (g x)) s xs = rfold f s (concat (map g xs))"
  by (induction xs arbitrary: s) (auto simp: rfold_append)

lemma Walk_nodes: "Walk Y fn st e = rfold fn st (walkNodes Y e)"
proof (induction "size (ent e)" arbitrary: e st rule: less_induct)
  case less
  have c: "rfold (\<lambda>st ee. Walk Y fn st ee) st (e_children e) = rfold fn st (concat (map (walkNodes Y) (e_children e)))" for st
    unfolding rfold_concat [symmetric] by (rule rfold_cong) (auto intro: less size_children)
  show ?case by (subst Walk.simps, subst walkNodes.simps) (auto simp: c)
qed

text \<open>Below a tree of YANG nodes only containers, lists, choices and cases have children, and names
  are identifiers, without a colon or a slash.\<close>

function treeOk :: "yang_api \<Rightarrow> eptr \<Rightarrow> bool" where
  "treeOk Y e \<longleftrightarrow> (e_children e = [] \<or> isCC Y e \<or> IsContainer Y e \<or> IsList Y e) \<and> {colon, slash} \<inter> set (e_Name e) = {} \<and>
     list_all (treeOk Y) (e_children e)"
  by pat_completeness auto
termination
  by (relation "measure (\<lambda>(Y, e). size (ent e))") (auto dest: size_children)

declare treeOk.simps [simp del]

lemma treeOk_child: "treeOk Y e \<Longrightarrow> c \<in> set (e_children e) \<Longrightarrow> treeOk Y c"
  by (subst (asm) treeOk.simps) (auto simp: list_all_iff)

lemma treeOk_name: "treeOk Y e \<Longrightarrow> colon \<notin> set (e_Name e) \<and> slash \<notin> set (e_Name e)"
  by (subst (asm) treeOk.simps) simp

lemma data_child_treeOk: "data_child Y e c \<Longrightarrow> treeOk Y e \<Longrightarrow> treeOk Y c"
  by (induction rule: data_child.induct) (auto dest: treeOk_child)

lemma data_path_step:
  assumes "treeOk Y e"
  shows "(\<exists>pe. data_path Y e pe x) \<longleftrightarrow> x = e \<or> (\<exists>d. data_child Y e d \<and> (\<exists>pe. data_path Y d pe x))"
proof
  assume "\<exists>pe. data_path Y e pe x"
  then obtain pe where "data_path Y e pe x" by blast
  then show "x = e \<or> (\<exists>d. data_child Y e d \<and> (\<exists>pe. data_path Y d pe x))"
    by (cases rule: data_path.cases) auto
next
  assume r: "x = e \<or> (\<exists>d. data_child Y e d \<and> (\<exists>pe. data_path Y d pe x))"
  have "\<exists>pe. data_path Y e pe x" if "data_child Y e d" "data_path Y d pe x" for d pe
  proof -
    have "colon \<notin> set (e_Name d)" using treeOk_name [OF data_child_treeOk [OF that(1) assms]] by blast
    then have "e_Name d = unprefixed (e_Name d)" using cut_unprefixed [of "e_Name d"] by simp
    with that show ?thesis by (blast intro: data_path.down)
  qed
  with r show "\<exists>pe. data_path Y e pe x" by (auto intro: data_path.here)
qed

lemma walkNodes_data_path:
  "treeOk Y e \<Longrightarrow> x \<in> set (walkNodes Y e) \<longleftrightarrow>
     (if isCC Y e then \<exists>d. data_child Y e d \<and> (\<exists>pe. data_path Y d pe x) else \<exists>pe. data_path Y e pe x)"
proof (induction "size (ent e)" arbitrary: e rule: less_induct)
  case less
  let ?X = "\<lambda>d. \<exists>pe. data_path Y d pe x"
  have ch: "x \<in> set (walkNodes Y c) \<longleftrightarrow> (if isCC Y c then \<exists>d. data_child Y c d \<and> ?X d else ?X c)"
    if "c \<in> set (e_children e)" for c
    using less.hyps [OF size_children [OF that]] treeOk_child [OF less.prems that] by blast
  have "(\<exists>c\<in>set (e_children e). x \<in> set (walkNodes Y c)) \<longleftrightarrow> (\<exists>d. data_child Y e d \<and> ?X d)"
  proof (cases "e_children e = []")
    case True
    then have "\<not> data_child Y e d" for d by (auto elim: data_child.cases)
    with True show ?thesis by simp
  next
    case False
    with less.prems have k: "isCC Y e \<or> IsContainer Y e \<or> IsList Y e" by (subst (asm) treeOk.simps) auto
    show ?thesis unfolding data_child_split [OF k] by (intro bex_cong refl) (rule ch)
  qed
  then show ?case using data_path_step [OF less.prems, of x]
    by (subst walkNodes.simps) auto
qed

text \<open>C27: \<open>Walk\<close> calls its function on exactly the nodes of the data tree below an entry: on
  every node a data path leads to, and on no choice or case.\<close>

theorem Walk_visits_data_tree:
  assumes "treeOk Y e" "\<not> isCC Y e"
  shows "\<exists>xs. (\<forall>fn st. Walk Y fn (st :: 's) e = rfold fn st xs) \<and> set xs = {x. \<exists>pe. data_path Y e pe x}"
  using Walk_nodes [of Y _ _ e] walkNodes_data_path [OF assms(1)] assms(2)
  by (intro exI [of _ "walkNodes Y e"]) auto

theorem Walk_visits_data_tree_witness:
  "(\<exists>pe. data_path kindApi fxModulePtr pe fxSourceId) \<and>
   (\<exists>xs. Walk kindApi (\<lambda>st e. Inr (st @ [e_Name e])) [] fxModulePtr = rfold (\<lambda>st e. Inr (st @ [e_Name e])) [] xs \<and> fxSourceId \<in> set xs)"
proof -
  have t: "treeOk kindApi fxModulePtr" "\<not> isCC kindApi fxModulePtr" by code_simp+
  have p: "data_path kindApi fxModulePtr [''host'', ''detail-list'', ''source-id''] fxSourceId"
    by (rule getEntry_sound; code_simp)
  from Walk_visits_data_tree [OF t, where 's = "string list"] p show ?thesis by blast
qed

section \<open>Finding YANG files\<close>

abbreviation yangFile :: "os_env \<Rightarrow> string \<Rightarrow> bool" where
  "yangFile F f \<equiv> os_stat F f = Inr ModeRegular \<and> filepathExt f = ''.yang''"

lemma walkDir_files: "walkDir F path ''.yang'' = Inr fs \<Longrightarrow> \<forall>f\<in>set fs. yangFile F f"
  unfolding walkDir_def
  by (rule rfold_invariant [where P = "\<lambda>fs. \<forall>f\<in>set fs. yangFile F f", rotated 2])
     (auto split: prod.splits option.splits if_splits)

lemma findYangFiles_files: "findYangFiles F files = Inr ys \<Longrightarrow> \<forall>f\<in>set ys. yangFile F f"
  unfolding findYangFiles_def
proof (rule rfold_invariant [where P = "\<lambda>ys. \<forall>f\<in>set ys. yangFile F f", rotated 2])
  fix s x s'
  assume s: "\<forall>f\<in>set s. yangFile F f"
    and r: "rbind (os_stat F x) (\<lambda>mode. case mode of
            ModeDir \<Rightarrow> rbind (walkDir F x ''.yang'') (\<lambda>fls. Inr (s @ fls))
          | ModeRegular \<Rightarrow> Inr (if filepathExt x = ''.yang'' then s @ [x] else s)
          | ModeOther \<Rightarrow> Inr s) = Inr s'"
  from r obtain mode where mode: "os_stat F x = Inr mode" by auto
  with s r show "\<forall>f\<in>set s'. yangFile F f"
    by (cases mode) (auto dest!: walkDir_files split: if_splits)
qed auto

lemma findYangFiles_fixed:
  assumes "\<forall>f\<in>set ys. yangFile F f"
  shows "findYangFiles F ys = Inr ys"
proof -
  have "rfold (\<lambda>yfiles file. rbind (os_stat F file) (\<lambda>mode. case mode of
            ModeDir \<Rightarrow> rbind (walkDir F file ''.yang'') (\<lambda>fls. Inr (yfiles @ fls))
          | ModeRegular \<Rightarrow> Inr (if filepathExt file = ''.yang'' then yfiles @ [file] else yfiles)
          | ModeOther \<Rightarrow> Inr yfiles)) acc ys = Inr (acc @ ys)" for acc
    using assms by (induction ys arbitrary: acc) auto
  then show ?thesis by (simp add: findYangFiles_def)
qed

lemma NewSchema_facts:
  assumes "NewSchema F L Y cfg = Inr sc"
  shows "Reload F L Y sc = Inr sc \<and> sc_status sc = ''ok'' \<and> sc_root sc \<noteq> None \<and>
    (sc_Name sc, sc_Vendor sc, sc_Version sc) = (cfg_Name cfg, cfg_Vendor cfg, cfg_Version cfg) \<and>
    (\<forall>f\<in>set (cfg_Files (sc_config sc)). os_stat F f = Inr ModeRegular \<and> filepathExt f = ''.yang'')"
proof -
  from assms obtain files paths rd sc0 where f: "findYangFiles F (cfg_Files cfg) = Inr files"
    and r: "readYANGFiles L (cfg\<lparr>cfg_Files := files\<rparr>) = Inr (paths, rd)"
    and b: "buildReferencesAnnotation Y \<lparr>sc_config = cfg\<lparr>cfg_Files := files\<rparr>,
        sc_root = Some (rootOf (ld_Entries L paths rd)), sc_status = [], sc_annot = []\<rparr> = Inr sc0"
    and sc: "sc = sc0\<lparr>sc_status := ''ok''\<rparr>"
    by (auto simp: NewSchema_def Let_def)
  have s0: "\<exists>as. sc0 = \<lparr>sc_config = cfg\<lparr>cfg_Files := files\<rparr>,
        sc_root = Some (rootOf (ld_Entries L paths rd)), sc_status = [], sc_annot = as\<rparr>"
    using buildReferencesAnnotation_annotSound [OF b] by (auto simp: annotSound_def)
  have f2: "findYangFiles F files = Inr files" by (rule findYangFiles_fixed [OF findYangFiles_files [OF f]])
  have "sc_config sc = cfg\<lparr>cfg_Files := files\<rparr>" using sc s0 by auto
  then have "Reload F L Y sc = Inr sc"
    using f2 r b sc by (auto simp: Reload_def NewSchema_def Let_def)
  then show ?thesis using s0 sc findYangFiles_files [OF f] by auto
qed

text \<open>C31: a schema that loads can be reloaded. \<open>NewSchema\<close> replaces the configured files and
  directories by the YANG files found in them, all of them regular files with the extension
  \<open>.yang\<close>; as long as the files stay as they are, \<open>Reload\<close> finds the same files and returns the
  same schema, under the same name, vendor and version.\<close>

theorem NewSchema_reload:
  assumes "NewSchema F L Y cfg = Inr sc"
  shows "Reload F L Y sc = Inr sc \<and> sc_status sc = ''ok'' \<and> sc_root sc \<noteq> None \<and>
    (sc_Name sc, sc_Vendor sc, sc_Version sc) = (cfg_Name cfg, cfg_Vendor cfg, cfg_Version cfg) \<and>
    (\<forall>f\<in>set (cfg_Files (sc_config sc)). os_stat F f = Inr ModeRegular \<and> filepathExt f = ''.yang'')"
  by (rule NewSchema_facts [OF assms])

definition fxOs :: os_env where
  "fxOs = \<lparr>os_stat = (\<lambda>p. if p = ''/y'' then Inr ModeDir else Inr ModeRegular),
     os_walk = (\<lambda>p. [(''/y'', None), (''/y/lrc.yang'', None), (''/y/README'', None)]),
     os_glob = (\<lambda>p. Inr []), os_homedir = Inr, os_getwd = Inr ''/''\<rparr>"

definition fxLoader :: loader where
  "fxLoader = \<lparr>ld_PathsWithModules = (\<lambda>p. Inr [p]), ld_Compile = (\<lambda>r. Inr (\<lambda>s. s = r)),
     ld_Read = (\<lambda>ps rd f. None), ld_Process = (\<lambda>ps rd. []), ld_Entries = (\<lambda>ps rd. [fxModule])\<rparr>"

theorem NewSchema_reload_witness:
  "\<exists>sc. NewSchema fxOs fxLoader kindApi
      \<lparr>cfg_Name = [], cfg_Vendor = ''v'', cfg_Version = ''1'', cfg_Files = [''/y''], cfg_Directories = [], cfg_Excludes = []\<rparr> = Inr sc \<and>
     cfg_Files (sc_config sc) = [''/y/lrc.yang''] \<and> Reload fxOs fxLoader kindApi sc = Inr sc"
proof -
  let ?c = "\<lparr>cfg_Name = [], cfg_Vendor = ''v'', cfg_Version = ''1'', cfg_Files = [''/y''], cfg_Directories = [], cfg_Excludes = []\<rparr>"
  have "map_sum (\<lambda>_. ()) (\<lambda>sc. cfg_Files (sc_config sc)) (NewSchema fxOs fxLoader kindApi ?c) = Inr [''/y/lrc.yang'']"
    by code_simp
  then obtain sc where sc: "NewSchema fxOs fxLoader kindApi ?c = Inr sc" "cfg_Files (sc_config sc) = [''/y/lrc.yang'']"
    by (cases "NewSchema fxOs fxLoader kindApi ?c") auto
  with NewSchema_reload [OF sc(1)] show ?thesis by blast
qed

end
