(* ===== verification/Config.thy ===== *)
theory Config
  imports SchemaObject
begin

text \<open>
  \<open>pkg/config\<close>: the configuration records, \<open>validateSetDefaults\<close> and \<open>TLS.NewConfig\<close>. The yaml
  decoder that fills the record is a parameter of \<open>config_New\<close>.
\<close>

section \<open>Records\<close>

record tls_config =
  tls_CA :: string
  tls_Cert :: string
  tls_Key :: string
  tls_SkipVerify :: bool

text \<open>\<open>MaxRecvMsgSize\<close> is a Go \<open>int\<close>, \<open>RPCTimeout\<close> a duration in nanoseconds; both
  are only compared with zero and replaced.\<close>

record grpc_server =
  g_Address :: string
  g_TLS :: "tls_config option"
  g_SchemaServer :: "string option"
  g_MaxRecvMsgSize :: int
  g_RPCTimeout :: int

record cache_config =
  cc_TTL :: int
  cc_Capacity :: "64 word"
  cc_WithDescription :: bool

record store_config =
  sto_Type :: string
  sto_Path :: string
  sto_Cache :: "cache_config option"
  sto_Schemas :: "schema_config list"
  sto_ReadOnly :: bool

record config =
  c_GRPCServer :: "grpc_server option"
  c_SchemaStore :: "store_config option"
  c_Prometheus :: "string option"

definition StoreTypePersistent :: string where "StoreTypePersistent = ''persistent''"
definition StoreTypeMemory :: string where "StoreTypeMemory = ''memory''"
definition defaultServerAddress :: string where "defaultServerAddress = '':55000''"
definition defaultMessageSize :: int where "defaultMessageSize = 4 * 1024 * 1024"
definition defaultRPCTimeout :: int where "defaultRPCTimeout = 60 * 1000000000"

section \<open>Validation and defaults\<close>

definition schema_validateSetDefaults :: "schema_config \<Rightarrow> unit res" where
  "schema_validateSetDefaults sc =
     (if cfg_Vendor sc = [] \<or> cfg_Version sc = []
      then Inl (Errorf ''schema name, vendor and version should be set'' []) else Inr ())"

definition grpcDefaults :: "grpc_server \<Rightarrow> grpc_server" where
  "grpcDefaults g =
     (let g1 = (if g_Address g = [] then g\<lparr>g_Address := defaultServerAddress\<rparr> else g);
          g2 = (if g_MaxRecvMsgSize g1 \<le> 0 then g1\<lparr>g_MaxRecvMsgSize := defaultMessageSize\<rparr> else g1) in
      if g_RPCTimeout g2 \<le> 0 then g2\<lparr>g_RPCTimeout := defaultRPCTimeout\<rparr> else g2)"

definition zeroGrpc :: grpc_server where
  "zeroGrpc = \<lparr>g_Address = [], g_TLS = None, g_SchemaServer = None, g_MaxRecvMsgSize = 0, g_RPCTimeout = 0\<rparr>"

definition zeroStore :: store_config where
  "zeroStore = \<lparr>sto_Type = [], sto_Path = [], sto_Cache = None, sto_Schemas = [], sto_ReadOnly = False\<rparr>"

definition validateSetDefaults :: "config \<Rightarrow> config res" where
  "validateSetDefaults c =
     (let c1 = c\<lparr>c_GRPCServer := Some (grpcDefaults (case c_GRPCServer c of None \<Rightarrow> zeroGrpc | Some g \<Rightarrow> g))\<rparr> in
      case c_SchemaStore c1 of
        None \<Rightarrow> Inr (c1\<lparr>c_SchemaStore := Some zeroStore\<rparr>)
      | Some st \<Rightarrow> rbind (traverse schema_validateSetDefaults (sto_Schemas st)) (\<lambda>_. Inr c1))"

definition config_New :: "(string \<Rightarrow> string res) \<Rightarrow> (string \<Rightarrow> config res) \<Rightarrow> string \<Rightarrow> config res" where
  "config_New readFile unmarshal file =
     rbind (readFile file) (\<lambda>b. rbind (unmarshal b) validateSetDefaults)"

text \<open>\<open>SchemaConfig.GetSchema\<close>: name, vendor and version.\<close>

definition cfg_GetSchema :: "schema_config \<Rightarrow> string \<times> string \<times> string" where
  "cfg_GetSchema sc = (cfg_Name sc, cfg_Vendor sc, cfg_Version sc)"

section \<open>TLS\<close>

text \<open>The fields of \<open>tls.Config\<close> that matter for a server: \<open>NewConfig\<close> fills the first three. Reading the
  file and the certificate watcher are arguments; the goroutine of the watcher has no effect on the
  record.\<close>

record tls_setup =
  ts_InsecureSkipVerify :: bool
  ts_RootCAs :: "string option"
  ts_GetCertificate :: "(string \<times> string) option"
  ts_ClientCAs :: "string option"

definition tls_NewConfig :: "(string \<Rightarrow> string res) \<Rightarrow> (string \<Rightarrow> string \<Rightarrow> unit res) \<Rightarrow> tls_config \<Rightarrow> tls_setup res" where
  "tls_NewConfig readFile certwatcher_New t =
     (let tlsCfg = \<lparr>ts_InsecureSkipVerify = tls_SkipVerify t, ts_RootCAs = None, ts_GetCertificate = None,
                    ts_ClientCAs = None\<rparr> in
      rbind (if tls_CA t \<noteq> []
             then (case readFile (tls_CA t) of
                     Inl err \<Rightarrow> Inl (Wrap ''failed to read client CA cert: %w'' [] err)
                   | Inr ca \<Rightarrow> Inr (if ca \<noteq> [] then tlsCfg\<lparr>ts_RootCAs := Some ca\<rparr> else tlsCfg))
             else Inr tlsCfg) (\<lambda>tlsCfg.
      if tls_Cert t \<noteq> [] \<and> tls_Key t \<noteq> []
      then rbind (certwatcher_New (tls_Cert t) (tls_Key t)) (\<lambda>_.
             Inr (tlsCfg\<lparr>ts_GetCertificate := Some (tls_Cert t, tls_Key t)\<rparr>))
      else Inr tlsCfg))"

text \<open>The configured authority is only a root for connections the process opens: a server never asks its
  clients for a certificate, and without both halves of a key pair it has no certificate to show.\<close>

lemma tls_NewConfig_server:
  assumes "tls_NewConfig readFile certwatcher_New t = Inr cfg"
  shows "ts_ClientCAs cfg = None \<and> (ts_GetCertificate cfg = None \<longleftrightarrow> tls_Cert t = [] \<or> tls_Key t = [])"
  using assms by (cases "readFile (tls_CA t)"; cases "certwatcher_New (tls_Cert t) (tls_Key t)")
    (auto simp: tls_NewConfig_def Let_def split: if_splits)

section \<open>Properties\<close>

definition configOk :: "config \<Rightarrow> bool" where
  "configOk c \<longleftrightarrow> (\<exists>g st. c_GRPCServer c = Some g \<and> c_SchemaStore c = Some st \<and>
     g_Address g \<noteq> [] \<and> g_MaxRecvMsgSize g > 0 \<and> g_RPCTimeout g > 0 \<and>
     (\<forall>sc\<in>set (sto_Schemas st). cfg_Vendor sc \<noteq> [] \<and> cfg_Version sc \<noteq> []))"

lemma grpcDefaults_ok:
  "g_Address (grpcDefaults g) \<noteq> [] \<and> g_MaxRecvMsgSize (grpcDefaults g) > 0 \<and> g_RPCTimeout (grpcDefaults g) > 0"
  by (auto simp: grpcDefaults_def Let_def defaultServerAddress_def defaultMessageSize_def defaultRPCTimeout_def)

lemma grpcDefaults_id:
  "g_Address g \<noteq> [] \<Longrightarrow> g_MaxRecvMsgSize g > 0 \<Longrightarrow> g_RPCTimeout g > 0 \<Longrightarrow> grpcDefaults g = g"
  by (simp add: grpcDefaults_def)

lemma traverse_schemas:
  "traverse schema_validateSetDefaults scs = Inr us \<longleftrightarrow>
   us = map (\<lambda>_. ()) scs \<and> (\<forall>sc\<in>set scs. cfg_Vendor sc \<noteq> [] \<and> cfg_Version sc \<noteq> [])"
  by (induction scs arbitrary: us) (auto simp: schema_validateSetDefaults_def split: if_splits)

text \<open>C32: an accepted configuration is complete, and accepting it once is enough. It has a listen
  address, a positive message size and timeout and a store section, every schema in it has a vendor
  and a version, and validating it again changes nothing.\<close>

theorem validateSetDefaults_complete:
  assumes "validateSetDefaults c = Inr c'"
  shows "configOk c' \<and> validateSetDefaults c' = Inr c'"
proof -
  have ok: "configOk c'"
    using assms grpcDefaults_ok
    by (auto simp: validateSetDefaults_def configOk_def Let_def zeroStore_def traverse_schemas split: option.splits)
  then obtain g st where "c_GRPCServer c' = Some g" "c_SchemaStore c' = Some st" "grpcDefaults g = g"
    "\<forall>sc\<in>set (sto_Schemas st). cfg_Vendor sc \<noteq> [] \<and> cfg_Version sc \<noteq> []"
    using grpcDefaults_id by (auto simp: configOk_def)
  then have "validateSetDefaults c' = Inr c'"
    by (auto simp: validateSetDefaults_def Let_def traverse_schemas)
  with ok show ?thesis by blast
qed

theorem validateSetDefaults_complete_witness:
  "\<exists>c'. validateSetDefaults \<lparr>c_GRPCServer = None, c_SchemaStore = None, c_Prometheus = None\<rparr> = Inr c' \<and> configOk c'"
proof -
  obtain c' where c: "validateSetDefaults \<lparr>c_GRPCServer = None, c_SchemaStore = None, c_Prometheus = None\<rparr> = Inr c'"
    by (simp add: validateSetDefaults_def)
  then show ?thesis using validateSetDefaults_complete by blast
qed

end
