(* ===== verification/Store.thy ===== *)
theory Store
  imports SchemaLoad Config
begin

text \<open>
  \<open>pkg/store/store.go\<close>: schema keys, the request messages both stores read, and the contract of
  the \<open>Store\<close> interface as far as its clients rely on it (locale \<open>schema_store\<close>).
\<close>

section \<open>Keys and requests\<close>

record schema_key =
  sk_Name :: string
  sk_Vendor :: string
  sk_Version :: string

definition SchemaKey_String :: "schema_key \<Rightarrow> string" where
  "SchemaKey_String sck = sk_Name sck @ ''@'' @ sk_Vendor sck @ ''@'' @ sk_Version sck"

definition Key :: "schema \<Rightarrow> schema_key" where
  "Key s = \<lparr>sk_Name = sc_Name s, sk_Vendor = sc_Vendor s, sk_Version = sc_Version s\<rparr>"

text \<open>The schema part of a request, and of a response, has the fields of a key.\<close>

record get_req =
  gr_Schema :: "schema_key option"
  gr_Path :: "Path option"
  gr_WithDescription :: bool

record create_req =
  cr_Schema :: "schema_key option"
  cr_File :: "string list"
  cr_Directory :: "string list"
  cr_Exclude :: "string list"

record details_rsp =
  dr_Schema :: schema_key
  dr_File :: "string list"
  dr_Directory :: "string list"
  dr_Exclude :: "string list"

record topath_req =
  tp_Schema :: "schema_key option"
  tp_PathElement :: "string list"

record expand_req =
  er_Schema :: "schema_key option"
  er_Path :: "Path option"
  er_DataType :: data_type
  er_Xpath :: bool

datatype expand_rsp = ExpandRsp (ex_Path: "Path list") (ex_Xpath: "string list")

abbreviation missingSchema :: gerr where
  "missingSchema \<equiv> StatusErr InvalidArgument ''missing schema details'' []"

definition reqConfig :: "schema_key \<Rightarrow> create_req \<Rightarrow> schema_config" where
  "reqConfig k req = \<lparr>cfg_Name = sk_Name k, cfg_Vendor = sk_Vendor k, cfg_Version = sk_Version k,
     cfg_Files = cr_File req, cfg_Directories = cr_Directory req, cfg_Excludes = cr_Exclude req\<rparr>"

text \<open>The vendor and version tests most requests start with.\<close>

definition checkKey :: "schema_key \<Rightarrow> unit res" where
  "checkKey k =
     (if sk_Vendor k = [] then Inl (StatusErr InvalidArgument ''missing schema vendor'' [])
      else if sk_Version k = [] then Inl (StatusErr InvalidArgument ''missing schema version'' [])
      else Inr ())"

lemma NewSchema_Key:
  "NewSchema F L Y cfg = Inr sc \<Longrightarrow>
   Key sc = \<lparr>sk_Name = cfg_Name cfg, sk_Vendor = cfg_Vendor cfg, sk_Version = cfg_Version cfg\<rparr> \<and>
   sc_root sc \<noteq> None"
  by (auto simp: NewSchema_def Let_def Key_def annotSound_def dest!: buildReferencesAnnotation_annotSound)

section \<open>The contract\<close>

text \<open>\<open>has\<close> is \<open>HasSchema\<close>, \<open>add\<close> is \<open>AddSchema\<close>: adding a schema makes its key
  known and forgets no other. A client that only uses these two operations can load any number of
  schemas, in any order: the outcome depends on the set of keys alone.\<close>

locale schema_store =
  fixes has :: "'s \<Rightarrow> schema_key \<Rightarrow> bool"
    and add :: "'s \<Rightarrow> schema \<Rightarrow> 's res"
  assumes has_add: "add s sc = Inr s' \<Longrightarrow> has s' k \<longleftrightarrow> k = Key sc \<or> has s k"
begin

lemma has_adds:
  "rfold add s scs = Inr s' \<Longrightarrow> has s' k \<longleftrightarrow> k \<in> Key ` set scs \<or> has s k"
proof (induction scs arbitrary: s)
  case (Cons sc scs)
  from Cons.prems obtain s1 where s1: "add s sc = Inr s1" "rfold add s1 scs = Inr s'" by auto
  with Cons.IH has_add [OF s1(1)] show ?case by auto
qed simp

lemma add_order:
  assumes "rfold add s scs = Inr s1" "rfold add s scs' = Inr s2" "set scs = set scs'"
  shows "has s1 k \<longleftrightarrow> has s2 k"
  using has_adds [OF assms(1)] has_adds [OF assms(2)] assms(3) by simp

end

text \<open>A store whose \<open>AddSchema\<close> cannot fail.\<close>

locale total_store = schema_store +
  assumes add_total: "\<exists>s'. add s sc = Inr s'"
begin

lemma adds_total: "\<exists>s'. rfold add s scs = Inr s'"
proof (induction scs arbitrary: s)
  case (Cons sc scs)
  then show ?case using add_total [of s sc] by fastforce
qed simp

end

end
