(* ===== verification/MemStore.thy ===== *)
theory MemStore
  imports Store
begin

text \<open>
  \<open>pkg/store/memstore/memstore.go\<close>: the store that keeps the parsed schemas in a map.

  Each handler is a definition. \<open>CreateSchema\<close>, \<open>ReloadSchema\<close> and \<open>DeleteSchema\<close> give up
  the lock between their check and their write; the check and the write are definitions of their own,
  the handlers run them one after the other, and the relation \<open>mem_step\<close> lets them interleave.
\<close>

section \<open>Operations\<close>

record memStore =
  ms_schemas :: "(schema_key \<times> schema) list"

definition mem_New :: memStore where
  "mem_New = \<lparr>ms_schemas = []\<rparr>"

text \<open>The key test and the map lookup most handlers begin with.\<close>

definition mem_find :: "memStore \<Rightarrow> schema_key option \<Rightarrow> string \<Rightarrow> schema res" where
  "mem_find s ko msg =
     (case ko of
        None \<Rightarrow> Inl missingSchema
      | Some k \<Rightarrow> (case map_of (ms_schemas s) k of
          None \<Rightarrow> Inl (StatusErr InvalidArgument msg [SchemaKey_String k])
        | Some sc \<Rightarrow> Inr sc))"

definition mem_GetSchema :: "nat \<Rightarrow> yang_api \<Rightarrow> memStore \<Rightarrow> get_req \<Rightarrow> schema_elem run" where
  "mem_GetSchema n Y s req =
     (case mem_find s (gr_Schema req) ''unknown schema %v'' of
        Inl err \<Rightarrow> Some (Inl err)
      | Inr sc \<Rightarrow>
          (case GetEntry Y sc (ToStrings (gr_Path req) False True) of
             Inl err \<Rightarrow> Some (Inl err)
           | Inr e \<Rightarrow> SchemaElemFromYEntry n Y sc e (gr_WithDescription req)))"

definition mem_HasSchema :: "memStore \<Rightarrow> schema_key \<Rightarrow> bool" where
  "mem_HasSchema s k = (map_of (ms_schemas s) k \<noteq> None)"

definition mem_ListSchema :: "memStore \<Rightarrow> schema_key list" where
  "mem_ListSchema s = map (\<lambda>(k, sc). Key sc) (ms_schemas s)"

definition mem_GetSchemaDetails :: "memStore \<Rightarrow> schema_key option \<Rightarrow> details_rsp res" where
  "mem_GetSchemaDetails s ko =
     rbind (mem_find s ko ''unknown schema %v'') (\<lambda>sc.
       Inr \<lparr>dr_Schema = Key sc, dr_File = sc_Files sc, dr_Directory = sc_Dirs sc,
         dr_Exclude = []\<rparr>)"

definition mem_AddSchema :: "memStore \<Rightarrow> schema \<Rightarrow> memStore res" where
  "mem_AddSchema s sc = Inr (s\<lparr>ms_schemas := AList.update (Key sc) sc (ms_schemas s)\<rparr>)"

text \<open>What \<open>CreateSchema\<close> does before it takes the write lock, and after.\<close>

definition mem_CreateCheck :: "os_env \<Rightarrow> loader \<Rightarrow> yang_api \<Rightarrow> memStore \<Rightarrow> create_req \<Rightarrow> schema res" where
  "mem_CreateCheck F L Y s req =
     (case cr_Schema req of
        None \<Rightarrow> Inl missingSchema
      | Some k \<Rightarrow>
          if map_of (ms_schemas s) k \<noteq> None
          then Inl (StatusErr InvalidArgument ''schema %v already exists'' [SchemaKey_String k])
          else rbind (checkKey k) (\<lambda>_. NewSchema F L Y (reqConfig k req)))"

definition mem_store :: "schema \<Rightarrow> memStore \<Rightarrow> memStore" where
  "mem_store sc s = s\<lparr>ms_schemas := AList.update (Key sc) sc (ms_schemas s)\<rparr>"

definition mem_CreateSchema :: "os_env \<Rightarrow> loader \<Rightarrow> yang_api \<Rightarrow> memStore \<Rightarrow> create_req \<Rightarrow> memStore res" where
  "mem_CreateSchema F L Y s req = rbind (mem_CreateCheck F L Y s req) (\<lambda>sc. Inr (mem_store sc s))"

definition mem_ReloadCheck :: "os_env \<Rightarrow> loader \<Rightarrow> yang_api \<Rightarrow> memStore \<Rightarrow> schema_key option \<Rightarrow> schema res" where
  "mem_ReloadCheck F L Y s ko = rbind (mem_find s ko ''unknown schema %v'') (Reload F L Y)"

definition mem_ReloadSchema :: "os_env \<Rightarrow> loader \<Rightarrow> yang_api \<Rightarrow> memStore \<Rightarrow> schema_key option \<Rightarrow> memStore res" where
  "mem_ReloadSchema F L Y s ko = rbind (mem_ReloadCheck F L Y s ko) (\<lambda>nsc. Inr (mem_store nsc s))"

definition mem_DeleteCheck :: "memStore \<Rightarrow> schema_key option \<Rightarrow> schema_key res" where
  "mem_DeleteCheck s ko =
     (case ko of
        None \<Rightarrow> Inl missingSchema
      | Some k \<Rightarrow>
          rbind (checkKey k) (\<lambda>_.
            if map_of (ms_schemas s) k = None
            then Inl (StatusErr InvalidArgument ''schema %v does not exist'' [SchemaKey_String k])
            else Inr k))"

definition mem_delete :: "schema_key \<Rightarrow> memStore \<Rightarrow> memStore" where
  "mem_delete k s = s\<lparr>ms_schemas := AList.delete k (ms_schemas s)\<rparr>"

definition mem_DeleteSchema :: "memStore \<Rightarrow> schema_key option \<Rightarrow> memStore res" where
  "mem_DeleteSchema s ko = rbind (mem_DeleteCheck s ko) (\<lambda>k. Inr (mem_delete k s))"

definition mem_findChecked :: "memStore \<Rightarrow> schema_key option \<Rightarrow> schema res" where
  "mem_findChecked s ko =
     rbind (case ko of None \<Rightarrow> Inl missingSchema | Some k \<Rightarrow> checkKey k) (\<lambda>_.
       mem_find s ko ''schema %v does not exist'')"

definition mem_ToPath :: "yang_api \<Rightarrow> memStore \<Rightarrow> topath_req \<Rightarrow> Path res" where
  "mem_ToPath Y s req =
     rbind (mem_findChecked s (tp_Schema req)) (\<lambda>sc.
       case BuildPath Y sc (tp_PathElement req) [] of
         Inl (GoPanic m) \<Rightarrow> Inl (GoPanic m)
       | Inl err \<Rightarrow> Inl (Wrap ''Internal: %v'' [] err)
       | Inr es \<Rightarrow> Inr \<lparr>p_Origin = [], p_Target = [], p_Elem = es\<rparr>)"

text \<open>A nil path has no elements: \<open>ExpandPath\<close> then works on the root.\<close>

definition mem_ExpandPath :: "yang_api \<Rightarrow> memStore \<Rightarrow> expand_req \<Rightarrow> expand_rsp res" where
  "mem_ExpandPath Y s req =
     rbind (mem_findChecked s (er_Schema req)) (\<lambda>sc.
       case ExpandPath Y sc (case er_Path req of None \<Rightarrow> emptyPath | Some p \<Rightarrow> p) (er_DataType req) of
         Inl (GoPanic m) \<Rightarrow> Inl (GoPanic m)
       | Inl err \<Rightarrow> Inl (Wrap ''Internal: %v'' [] err)
       | Inr paths \<Rightarrow>
           if er_Xpath req then Inr (ExpandRsp [] (sort (map (\<lambda>p. ToXPath (Some p) False) paths)))
           else Inr (ExpandRsp paths []))"

text \<open>The elements sent on the channel; a schema element that cannot be built is sent as nil.\<close>

definition mem_GetSchemaElements :: "nat \<Rightarrow> yang_api \<Rightarrow> memStore \<Rightarrow> get_req \<Rightarrow> schema_elem option list run" where
  "mem_GetSchemaElements n Y s req =
     (case mem_find s (gr_Schema req) ''unknown schema %v'' of
        Inl err \<Rightarrow> Some (Inl err)
      | Inr sc \<Rightarrow>
          otraverse (\<lambda>e. case SchemaElemFromYEntry n Y sc e (gr_WithDescription req) of
              None \<Rightarrow> None
            | Some (Inl (GoPanic m)) \<Rightarrow> Some (Inl (GoPanic m))
            | Some (Inl err) \<Rightarrow> Some (Inr None)
            | Some (Inr se) \<Rightarrow> Some (Inr (Some se)))
            (fst (GetEntryCh Y sc (ToStrings (gr_Path req) False True))))"

section \<open>The store as a map\<close>

text \<open>What the store promises is a finite map from keys to schemas; every schema is filed under
  its own key.\<close>

definition mem_abs :: "memStore \<Rightarrow> schema_key \<Rightarrow> schema option" where
  "mem_abs s = map_of (ms_schemas s)"

definition keyed :: "memStore \<Rightarrow> bool" where
  "keyed s \<longleftrightarrow> distinct (map fst (ms_schemas s)) \<and> list_all (\<lambda>(k, sc). k = Key sc) (ms_schemas s)"

lemma mem_store_abs: "mem_abs (mem_store sc s) = (mem_abs s)(Key sc \<mapsto> sc)"
  by (simp add: mem_abs_def mem_store_def update_conv')

lemma mem_delete_abs: "mem_abs (mem_delete k s) = (mem_abs s)(k := None)"
  by (simp add: mem_abs_def mem_delete_def delete_conv')

lemma keyed_New: "keyed mem_New"
  by (simp add: keyed_def mem_New_def)

lemma set_update: "set (AList.update k v al) \<subseteq> insert (k, v) (set al)"
  by (induction al) auto

lemma keyed_store: "keyed s \<Longrightarrow> keyed (mem_store sc s)"
  using set_update [of "Key sc" sc "ms_schemas s"]
  by (auto simp: keyed_def mem_store_def distinct_update list_all_iff)

lemma keyed_delete: "keyed s \<Longrightarrow> keyed (mem_delete k s)"
  by (auto simp: keyed_def mem_delete_def AList.delete_eq list_all_iff distinct_map_filter)

lemma mem_AddSchema_store: "mem_AddSchema s sc = Inr (mem_store sc s)"
  by (simp add: mem_AddSchema_def mem_store_def)

interpretation mem: schema_store mem_HasSchema mem_AddSchema
  by unfold_locales (auto simp: mem_HasSchema_def mem_AddSchema_def update_conv')

interpretation mem_total: total_store mem_HasSchema mem_AddSchema
  by unfold_locales (simp add: mem_AddSchema_def)

lemma checkKey_ok: "checkKey k = Inr u \<longleftrightarrow> sk_Vendor k \<noteq> [] \<and> sk_Version k \<noteq> []"
  by (auto simp: checkKey_def)

lemma reqConfig_Key: "NewSchema F L Y (reqConfig k req) = Inr sc \<Longrightarrow> Key sc = k"
  by (drule NewSchema_Key) (simp add: reqConfig_def)

text \<open>\<open>CreateSchema\<close> of the in-memory store is insertion into a map of schemas. It
  succeeds exactly when the request names a key with vendor and version that is not in the store and
  the files parse; then the new schema is stored under that key and every other entry is unchanged.
  On error the store is unchanged.\<close>

theorem mem_CreateSchema_spec:
  "mem_CreateSchema F L Y s req = Inr s' \<longleftrightarrow>
   (\<exists>k sc. cr_Schema req = Some k \<and> mem_abs s k = None \<and> sk_Vendor k \<noteq> [] \<and> sk_Version k \<noteq> [] \<and>
      NewSchema F L Y (reqConfig k req) = Inr sc \<and> s' = mem_store sc s \<and> mem_abs s' = (mem_abs s)(k \<mapsto> sc))"
proof -
  have "mem_CreateCheck F L Y s req = Inr sc \<longleftrightarrow> (\<exists>k. cr_Schema req = Some k \<and> mem_abs s k = None \<and>
      sk_Vendor k \<noteq> [] \<and> sk_Version k \<noteq> [] \<and> NewSchema F L Y (reqConfig k req) = Inr sc)" for sc
    by (auto simp: mem_CreateCheck_def mem_abs_def checkKey_ok split: option.splits if_splits)
  then show ?thesis
    unfolding mem_CreateSchema_def by (auto simp: mem_store_abs dest: reqConfig_Key)
qed

text \<open>\<open>DeleteSchema\<close> of the in-memory store removes exactly the named schema. It succeeds
  exactly when the key has vendor and version and is in the store; afterwards lookups of that key fail
  and all others answer as before.\<close>

theorem mem_DeleteSchema_spec:
  "mem_DeleteSchema s ko = Inr s' \<longleftrightarrow>
   (\<exists>k sc. ko = Some k \<and> sk_Vendor k \<noteq> [] \<and> sk_Version k \<noteq> [] \<and> mem_abs s k = Some sc \<and>
      s' = mem_delete k s \<and> mem_abs s' = (mem_abs s)(k := None))"
  by (auto simp: mem_DeleteSchema_def mem_DeleteCheck_def mem_delete_abs checkKey_ok split: option.splits if_splits)
     (auto simp: mem_abs_def)

text \<open>The life of a schema. After a successful \<open>CreateSchema\<close> the key is known and listed
  and the details give the files that were found; reloading, with the files unchanged, leaves the store
  as it is; and deleting the schema leads back to the store before, as far as any lookup can tell.\<close>

theorem mem_schema_lifecycle:
  assumes "mem_CreateSchema F L Y s req = Inr s'" "cr_Schema req = Some k" "keyed s"
  shows "mem_HasSchema s' k \<and> k \<in> set (mem_ListSchema s') \<and>
    (\<exists>d. mem_GetSchemaDetails s' (Some k) = Inr d \<and> dr_Schema d = k \<and>
       findYangFiles F (cr_File req) = Inr (dr_File d) \<and> dr_Directory d = cr_Directory req) \<and>
    (\<exists>s''. mem_ReloadSchema F L Y s' (Some k) = Inr s'' \<and> mem_abs s'' = mem_abs s') \<and>
    (\<exists>s''. mem_DeleteSchema s' (Some k) = Inr s'' \<and> mem_abs s'' = mem_abs s)"
proof -
  obtain sc where sc: "mem_CreateCheck F L Y s req = Inr sc" "s' = mem_store sc s"
    using assms(1) by (auto simp: mem_CreateSchema_def)
  then have k: "mem_abs s k = None" "sk_Vendor k \<noteq> []" "sk_Version k \<noteq> []"
    and n: "NewSchema F L Y (reqConfig k req) = Inr sc"
    using assms(2) by (auto simp: mem_CreateCheck_def mem_abs_def checkKey_ok split: if_splits)
  have key: "Key sc = k" by (rule reqConfig_Key [OF n])
  have abs: "mem_abs s' = (mem_abs s)(k \<mapsto> sc)" using sc(2) key by (simp add: mem_store_abs)
  then have m: "map_of (ms_schemas s') k = Some sc" by (simp add: mem_abs_def)
  have has: "mem_HasSchema s' k" using m by (simp add: mem_HasSchema_def)
  have "(k, sc) \<in> set (ms_schemas s')" using m by (rule map_of_SomeD)
  then have lst: "k \<in> set (mem_ListSchema s')" using key by (force simp: mem_ListSchema_def)
  have cfg: "\<exists>files. findYangFiles F (cr_File req) = Inr files \<and> sc_config sc = (reqConfig k req)\<lparr>cfg_Files := files\<rparr>"
    using n by (auto simp: NewSchema_def Let_def reqConfig_def annotSound_def dest!: buildReferencesAnnotation_annotSound)
  then have det: "\<exists>d. mem_GetSchemaDetails s' (Some k) = Inr d \<and> dr_Schema d = k \<and>
       findYangFiles F (cr_File req) = Inr (dr_File d) \<and> dr_Directory d = cr_Directory req"
    using m key by (auto simp: mem_GetSchemaDetails_def mem_find_def reqConfig_def)
  have "Reload F L Y sc = Inr sc" using NewSchema_facts [OF n] by blast
  then have rel: "mem_ReloadSchema F L Y s' (Some k) = Inr (mem_store sc s')"
    using m by (simp add: mem_ReloadSchema_def mem_ReloadCheck_def mem_find_def)
  have "mem_abs (mem_store sc s') = mem_abs s'" using abs key by (simp add: mem_store_abs)
  with rel have rl: "\<exists>s''. mem_ReloadSchema F L Y s' (Some k) = Inr s'' \<and> mem_abs s'' = mem_abs s'" by blast
  have "mem_DeleteSchema s' (Some k) = Inr (mem_delete k s')"
    using m k by (simp add: mem_DeleteSchema_def mem_DeleteCheck_def checkKey_def)
  moreover have "mem_abs (mem_delete k s') = mem_abs s" using abs k(1) by (auto simp: mem_delete_abs)
  ultimately show ?thesis using has lst det rl by blast
qed

section \<open>Interleaved requests\<close>

text \<open>The second half of a request that has passed its check.\<close>

datatype pending = PStore schema | PDelete schema_key

fun commit :: "pending \<Rightarrow> memStore \<Rightarrow> memStore" where
  "commit (PStore sc) s = mem_store sc s"
| "commit (PDelete k) s = mem_delete k s"

text \<open>One step: a request passes its check, or one of the pending requests takes the write lock.\<close>

inductive mem_step :: "os_env \<Rightarrow> loader \<Rightarrow> yang_api \<Rightarrow> memStore \<times> pending list \<Rightarrow> memStore \<times> pending list \<Rightarrow> bool"
  for F L Y where
  create: "mem_CreateCheck F L Y s req = Inr sc \<Longrightarrow> mem_step F L Y (s, ps) (s, ps @ [PStore sc])"
| reload: "mem_ReloadCheck F L Y s ko = Inr sc \<Longrightarrow> mem_step F L Y (s, ps) (s, ps @ [PStore sc])"
| delete: "mem_DeleteCheck s ko = Inr k \<Longrightarrow> mem_step F L Y (s, ps) (s, ps @ [PDelete k])"
| commit: "mem_step F L Y (s, xs @ p # ys) (commit p s, xs @ ys)"

abbreviation mem_reach :: "os_env \<Rightarrow> loader \<Rightarrow> yang_api \<Rightarrow> memStore \<times> pending list \<Rightarrow> bool" where
  "mem_reach F L Y st \<equiv> (mem_step F L Y)\<^sup>*\<^sup>* (mem_New, []) st"

definition memOk :: "memStore \<times> pending list \<Rightarrow> bool" where
  "memOk st \<longleftrightarrow> keyed (fst st) \<and> (\<forall>k sc. mem_abs (fst st) k = Some sc \<longrightarrow> sc_root sc \<noteq> None) \<and>
     (\<forall>sc. PStore sc \<in> set (snd st) \<longrightarrow> sc_root sc \<noteq> None)"

lemma mem_step_ok: "mem_step F L Y st st' \<Longrightarrow> memOk st \<Longrightarrow> memOk st'"
proof (induction rule: mem_step.induct)
  case (create s req sc ps)
  then have "\<exists>cfg. NewSchema F L Y cfg = Inr sc"
    by (auto simp: mem_CreateCheck_def split: option.splits if_splits)
  with create.prems show ?case by (auto simp: memOk_def dest: NewSchema_Key)
next
  case (reload s ko sc ps)
  then have "\<exists>cfg. NewSchema F L Y cfg = Inr sc"
    by (auto simp: mem_ReloadCheck_def Reload_def)
  with reload.prems show ?case by (auto simp: memOk_def dest: NewSchema_Key)
next
  case (delete s ko k ps)
  then show ?case by (auto simp: memOk_def)
next
  case (commit s xs p ys)
  then show ?case
    by (cases p) (auto simp: memOk_def keyed_store keyed_delete mem_store_abs mem_delete_abs split: if_splits)
qed

text \<open>C10: however requests interleave, the store stays consistent. In every state the store can
  reach from empty by creates, reloads and deletes, with any number of them between check and
  write, each schema is filed under its own name, vendor and version, no key occurs twice, and no
  stored schema lacks a root, so that no lookup dereferences nil.\<close>

theorem mem_interleaving_consistent:
  assumes "mem_reach F L Y (s, ps)"
  shows "keyed s \<and> set (mem_ListSchema s) = dom (mem_abs s) \<and>
    (\<forall>k sc. mem_abs s k = Some sc \<longrightarrow> Key sc = k \<and> sc_root sc \<noteq> None)"
proof -
  have "memOk (mem_New, [])" using keyed_New by (simp add: memOk_def mem_abs_def) (simp add: mem_New_def)
  with assms have ok: "memOk (s, ps)" by (induction rule: rtranclp_induct) (auto intro: mem_step_ok)
  then have k: "keyed s" by (simp add: memOk_def)
  have key: "Key sc = k" if "mem_abs s k = Some sc" for k sc
    using that k by (auto simp: mem_abs_def keyed_def list_all_iff dest!: map_of_SomeD)
  have "set (mem_ListSchema s) = fst ` set (ms_schemas s)"
    using k by (force simp: mem_ListSchema_def keyed_def list_all_iff)
  then have "set (mem_ListSchema s) = dom (mem_abs s)" by (simp add: mem_abs_def dom_map_of_conv_image_fst)
  with k key ok show ?thesis by (auto simp: memOk_def)
qed

text \<open>The check for an existing schema is not atomic with the write. Two \<open>CreateSchema\<close>
  requests for the same key that both pass their check before either writes both succeed, and the
  second silently replaces the first, although a create for an existing key is meant to be refused.\<close>

theorem mem_create_race:
  assumes "mem_CreateCheck F L Y s req1 = Inr sc1" "mem_CreateCheck F L Y s req2 = Inr sc2"
    and "cr_Schema req1 = cr_Schema req2"
  shows "\<exists>s'. (mem_step F L Y)\<^sup>*\<^sup>* (s, []) (s', []) \<and> mem_abs s' (Key sc1) = Some sc2 \<and>
    (\<exists>err. mem_CreateCheck F L Y (mem_store sc1 s) req2 = Inl err)"
proof -
  from assms(1) obtain k where k: "cr_Schema req1 = Some k" "NewSchema F L Y (reqConfig k req1) = Inr sc1"
    by (auto simp: mem_CreateCheck_def split: option.splits if_splits)
  with assms(2,3) have k2: "NewSchema F L Y (reqConfig k req2) = Inr sc2"
    by (auto simp: mem_CreateCheck_def split: option.splits if_splits)
  have keys: "Key sc1 = k" "Key sc2 = k" using reqConfig_Key k(2) k2 by blast+
  have "mem_step F L Y (s, []) (s, [PStore sc1])" using mem_step.create [OF assms(1), of "[]"] by simp
  moreover have "mem_step F L Y (s, [PStore sc1]) (s, [PStore sc1, PStore sc2])"
    using mem_step.create [OF assms(2), of "[PStore sc1]"] by simp
  moreover have "mem_step F L Y (s, [PStore sc1, PStore sc2]) (mem_store sc1 s, [PStore sc2])"
    using mem_step.commit [of F L Y s "[]" "PStore sc1" "[PStore sc2]"] by simp
  moreover have "mem_step F L Y (mem_store sc1 s, [PStore sc2]) (mem_store sc2 (mem_store sc1 s), [])"
    using mem_step.commit [of F L Y "mem_store sc1 s" "[]" "PStore sc2" "[]"] by simp
  ultimately have "(mem_step F L Y)\<^sup>*\<^sup>* (s, []) (mem_store sc2 (mem_store sc1 s), [])"
    by (meson converse_rtranclp_into_rtranclp rtranclp.rtrancl_refl)
  moreover have "mem_abs (mem_store sc2 (mem_store sc1 s)) (Key sc1) = Some sc2"
    using keys by (simp add: mem_store_abs)
  moreover have "map_of (ms_schemas (mem_store sc1 s)) k = Some sc1"
    using mem_store_abs [of sc1 s] keys by (simp add: mem_abs_def)
  then have "\<exists>err. mem_CreateCheck F L Y (mem_store sc1 s) req2 = Inl err"
    using k(1) assms(3) by (simp add: mem_CreateCheck_def)
  ultimately show ?thesis by blast
qed

definition fxReq :: create_req where
  "fxReq = \<lparr>cr_Schema = Some \<lparr>sk_Name = ''lrc'', sk_Vendor = ''v'', sk_Version = ''1''\<rparr>, cr_File = [''/y''],
     cr_Directory = [], cr_Exclude = []\<rparr>"

lemma fxReq_check: "\<exists>sc. mem_CreateCheck fxOs fxLoader kindApi mem_New fxReq = Inr sc"
proof -
  have "map_sum (\<lambda>_. ()) (\<lambda>_. ()) (mem_CreateCheck fxOs fxLoader kindApi mem_New fxReq) = Inr ()" by code_simp
  then show ?thesis by (cases "mem_CreateCheck fxOs fxLoader kindApi mem_New fxReq") auto
qed

theorem mem_schema_lifecycle_witness:
  "\<exists>s s'. mem_CreateSchema fxOs fxLoader kindApi mem_New fxReq = Inr s \<and>
     mem_HasSchema s \<lparr>sk_Name = ''lrc'', sk_Vendor = ''v'', sk_Version = ''1''\<rparr> \<and>
     mem_DeleteSchema s (Some \<lparr>sk_Name = ''lrc'', sk_Vendor = ''v'', sk_Version = ''1''\<rparr>) = Inr s' \<and>
     mem_abs s' = mem_abs mem_New"
proof -
  obtain sc where "mem_CreateCheck fxOs fxLoader kindApi mem_New fxReq = Inr sc" using fxReq_check by blast
  then have c: "mem_CreateSchema fxOs fxLoader kindApi mem_New fxReq = Inr (mem_store sc mem_New)"
    by (simp add: mem_CreateSchema_def)
  have k: "cr_Schema fxReq = Some \<lparr>sk_Name = ''lrc'', sk_Vendor = ''v'', sk_Version = ''1''\<rparr>" by (simp add: fxReq_def)
  from mem_schema_lifecycle [OF c k keyed_New] c show ?thesis by blast
qed

theorem mem_interleaving_consistent_witness:
  "\<exists>s. mem_reach fxOs fxLoader kindApi (s, []) \<and> s \<noteq> mem_New \<and> set (mem_ListSchema s) = dom (mem_abs s)"
proof -
  obtain sc where sc: "mem_CreateCheck fxOs fxLoader kindApi mem_New fxReq = Inr sc" using fxReq_check by blast
  have "mem_step fxOs fxLoader kindApi (mem_New, []) (mem_New, [PStore sc])"
    using mem_step.create [OF sc, of "[]"] by simp
  moreover have "mem_step fxOs fxLoader kindApi (mem_New, [PStore sc]) (mem_store sc mem_New, [])"
    using mem_step.commit [of fxOs fxLoader kindApi mem_New "[]" "PStore sc" "[]"] by simp
  ultimately have r: "mem_reach fxOs fxLoader kindApi (mem_store sc mem_New, [])"
    by (meson converse_rtranclp_into_rtranclp rtranclp.rtrancl_refl)
  have "mem_store sc mem_New \<noteq> mem_New" by (simp add: mem_store_def mem_New_def)
  with r mem_interleaving_consistent [OF r] show ?thesis by blast
qed

theorem mem_create_race_witness:
  "\<exists>s' sc1 sc2. (mem_step fxOs fxLoader kindApi)\<^sup>*\<^sup>* (mem_New, []) (s', []) \<and> mem_abs s' (Key sc1) = Some sc2 \<and>
     cfg_Excludes (sc_config sc1) = [] \<and> cfg_Excludes (sc_config sc2) = [''x'']"
proof -
  let ?c = "mem_CreateCheck fxOs fxLoader kindApi mem_New"
  have 1: "map_sum (\<lambda>_. ()) (\<lambda>sc. sc_Excludes sc) (?c fxReq) = Inr []"
    and 2: "map_sum (\<lambda>_. ()) (\<lambda>sc. sc_Excludes sc) (?c (fxReq\<lparr>cr_Exclude := [''x'']\<rparr>)) = Inr [''x'']"
    by code_simp+
  from 1 obtain sc1 where sc1: "?c fxReq = Inr sc1" "cfg_Excludes (sc_config sc1) = []" by (cases "?c fxReq") auto
  from 2 obtain sc2 where sc2: "?c (fxReq\<lparr>cr_Exclude := [''x'']\<rparr>) = Inr sc2" "cfg_Excludes (sc_config sc2) = [''x'']"
    by (cases "?c (fxReq\<lparr>cr_Exclude := [''x'']\<rparr>)") auto
  have "cr_Schema fxReq = cr_Schema (fxReq\<lparr>cr_Exclude := [''x'']\<rparr>)" by simp
  from mem_create_race [OF sc1(1) sc2(1) this] sc1(2) sc2(2) show ?thesis by blast
qed

end
