(* ===== verification/PersistStore.thy ===== *)
theory PersistStore
  imports MemStore
begin

text \<open>
  \<open>pkg/store/persiststore/persiststore.go\<close>: the store that writes one key-value pair per schema
  node and answers from these pairs, with an optional cache in front.

  The key-value database (badger), the cache (ttlcache) and the protobuf and JSON encodings are not
  part of this repository: they are the parameter \<open>backend\<close>. What the store relies on is stated
  in \<open>backend_ok\<close>: a flushed batch is what later reads see, dropping a prefix removes the keys with
  that prefix, a scan returns the keys with the prefix, decoding inverts encoding, and a cache returns
  only what was put under the key.
\<close>

section \<open>Backend\<close>

record cache_key =
  ck_Schema :: schema_key
  ck_Path :: string

record ('d, 'b, 'c) backend =
  kv_get :: "'d \<Rightarrow> string \<Rightarrow> 'b option"
  kv_flush :: "'d \<Rightarrow> (string \<times> 'b) list \<Rightarrow> 'd res"
  kv_dropPrefix :: "'d \<Rightarrow> string list \<Rightarrow> 'd res"
  kv_scan :: "'d \<Rightarrow> string \<Rightarrow> string list"
  pb_marshal :: "schema_elem \<Rightarrow> 'b res"
  pb_unmarshal :: "'b \<Rightarrow> schema_elem res"
  js_marshal :: "(string \<times> string list) list \<Rightarrow> 'b res"
  js_unmarshal :: "'b \<Rightarrow> ((string \<times> string list) list) res"
  ca_get :: "'c \<Rightarrow> cache_key \<Rightarrow> schema_elem option"
  ca_set :: "'c \<Rightarrow> cache_key \<Rightarrow> schema_elem \<Rightarrow> 'c"

definition kv_ok :: "('d, 'b, 'c) backend \<Rightarrow> bool" where
  "kv_ok B \<longleftrightarrow>
     (\<forall>d b d' k. kv_flush B d b = Inr d' \<longrightarrow>
        kv_get B d' k = (case map_of (rev b) k of Some v \<Rightarrow> Some v | None \<Rightarrow> kv_get B d k)) \<and>
     (\<forall>d ps d' k. kv_dropPrefix B d ps = Inr d' \<longrightarrow>
        kv_get B d' k = (if \<exists>p\<in>set ps. prefix p k then None else kv_get B d k)) \<and>
     (\<forall>d p. set (kv_scan B d p) = {k. prefix p k \<and> kv_get B d k \<noteq> None})"

definition codec_ok :: "('d, 'b, 'c) backend \<Rightarrow> bool" where
  "codec_ok B \<longleftrightarrow> (\<forall>x b. pb_marshal B x = Inr b \<longrightarrow> pb_unmarshal B b = Inr x) \<and>
     (\<forall>x b. js_marshal B x = Inr b \<longrightarrow> js_unmarshal B b = Inr x)"

definition cache_ok :: "('d, 'b, 'c) backend \<Rightarrow> bool" where
  "cache_ok B \<longleftrightarrow> (\<forall>c k v k' w. ca_get B (ca_set B c k v) k' = Some w \<longrightarrow> (k' = k \<and> w = v) \<or> ca_get B c k' = Some w)"

definition backend_ok :: "('d, 'b, 'c) backend \<Rightarrow> bool" where
  "backend_ok B \<longleftrightarrow> kv_ok B \<and> codec_ok B \<and> cache_ok B"

text \<open>\<open>ps_cache\<close> is nil in a store without cache.\<close>

record ('d, 'c) persistStore =
  ps_cacheWithDescription :: bool
  ps_readOnly :: bool
  ps_db :: 'd
  ps_cache :: "'c option"

abbreviation errKeyNotFound :: gerr where
  "errKeyNotFound \<equiv> Errorf ''key not found'' []"

section \<open>Keys\<close>

definition schemasPrefix :: char where "schemasPrefix = CHR 0x01"
definition schemaObjectsPrefix :: char where "schemaObjectsPrefix = CHR 0x02"

definition schemaKeyString :: "schema_key \<Rightarrow> string" where
  "schemaKeyString sc = sk_Name sc @ ''@'' @ sk_Vendor sc @ ''@'' @ sk_Version sc"

definition buildSchemaKey :: "schema_key \<Rightarrow> string" where
  "buildSchemaKey sck = schemasPrefix # schemaKeyString sck"

text \<open>\<open>buildEntryKey sc (p # ps)\<close>, on the first element and the rest; no caller passes an empty
  slice.\<close>

definition buildEntryKey :: "schema_key \<Rightarrow> string \<Rightarrow> string list \<Rightarrow> string" where
  "buildEntryKey sc p ps =
     schemaObjectsPrefix # schemaKeyString sc @ '':::'' @ p @
       (if ps = [] then [] else '':::'' @ concat (map (\<lambda>pe. slash # pe) ps))"

section \<open>Writing a schema\<close>

lemma ofold_cong [fundef_cong]:
  "s = s' \<Longrightarrow> xs = ys \<Longrightarrow> (\<And>s x. x \<in> set ys \<Longrightarrow> f s x = g s x) \<Longrightarrow> ofold f s xs = ofold g s' ys"
proof (induction xs arbitrary: s s' ys)
  case (Cons x xs)
  then have e: "f s x = g s' x" by auto
  show ?case using Cons by (cases "(g s' x, \<lambda>z. ofold g z xs)" rule: obind.cases) (auto simp: e)
qed simp

lemma obind_cong [fundef_cong]:
  "m = m' \<Longrightarrow> (\<And>a. m' = Some (Inr a) \<Longrightarrow> f a = g a) \<Longrightarrow> obind m f = obind m' g"
  by (cases "(m', g)" rule: obind.cases) auto

definition lift :: "'a res \<Rightarrow> 'a run" where
  "lift r = Some r"

text \<open>The pair written for one entry.\<close>

definition entryPair :: "nat \<Rightarrow> yang_api \<Rightarrow> ('d, 'b, 'c) backend \<Rightarrow> schema \<Rightarrow> eptr \<Rightarrow> (string \<times> 'b) run" where
  "entryPair n Y B sc e =
     obind (lift (getEntryPath Y e)) (\<lambda>path.
     obind (SchemaElemFromYEntry n Y sc e True) (\<lambda>se.
     obind (lift (pb_marshal B se)) (\<lambda>b.
       Some (Inr (buildEntryKey (Key sc) (hd path) (tl path), b)))))"

function addSchemaElem ::
    "nat \<Rightarrow> yang_api \<Rightarrow> ('d, 'b, 'c) backend \<Rightarrow> schema \<Rightarrow> (string \<times> 'b) list \<Rightarrow> eptr \<Rightarrow> ((string \<times> 'b) list) run" where
  "addSchemaElem n Y B sc wb e =
     (if IsChoice Y e \<or> IsCase Y e then ofold (\<lambda>wb ee. addSchemaElem n Y B sc wb ee) wb (e_children e)
      else obind (entryPair n Y B sc e) (\<lambda>kv.
        ofold (\<lambda>wb ee. addSchemaElem n Y B sc wb ee) (wb @ [kv]) (e_children e)))"
  by pat_completeness auto
termination
  by (relation "measure (\<lambda>(n, Y, B, sc, wb, e). size (ent e))") (auto dest: size_children)

declare addSchemaElem.simps [simp del]

definition addSchema :: "('d, 'b, 'c) backend \<Rightarrow> (string \<times> 'b) list \<Rightarrow> schema_key \<Rightarrow> (string \<times> string list) list \<Rightarrow>
    (string \<times> 'b) list res" where
  "addSchema B wb sck cfg = rbind (js_marshal B cfg) (\<lambda>v. Inr (wb @ [(buildSchemaKey sck, v)]))"

text \<open>\<open>AddSchema\<close> returns the store and the schema, whose root it drops.\<close>

definition ps_AddSchema :: "nat \<Rightarrow> yang_api \<Rightarrow> ('d, 'b, 'c) backend \<Rightarrow> ('d, 'c) persistStore \<Rightarrow> schema \<Rightarrow>
    (('d, 'c) persistStore \<times> schema) run" where
  "ps_AddSchema n Y B s sc =
     obind (lift (GetEntry Y sc [])) (\<lambda>e.
     obind (addSchemaElem n Y B sc [] e) (\<lambda>wb.
     obind (lift (addSchema B wb (Key sc)
        [(''files'', sc_Files sc), (''directories'', sc_Dirs sc),
         (''excludes'', sc_Excludes sc)])) (\<lambda>wb'.
     obind (lift (kv_flush B (ps_db s) wb')) (\<lambda>db.
       Some (Inr (s\<lparr>ps_db := db\<rparr>, Reset sc))))))"

section \<open>Catalogue operations\<close>

definition ps_HasSchema :: "('d, 'b, 'c) backend \<Rightarrow> ('d, 'c) persistStore \<Rightarrow> schema_key \<Rightarrow> bool" where
  "ps_HasSchema B s sck = (kv_get B (ps_db s) (buildSchemaKey sck) \<noteq> None)"

definition splitN3 :: "char \<Rightarrow> string \<Rightarrow> string list" where
  "splitN3 c s = (case str_index c s of None \<Rightarrow> [s] | Some i \<Rightarrow> take i s # splitN2 c (drop (Suc i) s))"

definition ps_ListSchema :: "('d, 'b, 'c) backend \<Rightarrow> ('d, 'c) persistStore \<Rightarrow> schema_key list" where
  "ps_ListSchema B s =
     concat (map (\<lambda>k. case splitN3 (CHR ''@'') (tl k) of
         [p0, p1, p2] \<Rightarrow> [\<lparr>sk_Name = p0, sk_Vendor = p1, sk_Version = p2\<rparr>]
       | _ \<Rightarrow> []) (kv_scan B (ps_db s) [schemasPrefix]))"

text \<open>A nil schema in a request reads as empty name, vendor and version.\<close>

definition keyOf :: "schema_key option \<Rightarrow> schema_key" where
  "keyOf ko = (case ko of None \<Rightarrow> \<lparr>sk_Name = [], sk_Vendor = [], sk_Version = []\<rparr> | Some k \<Rightarrow> k)"

definition cfgField :: "(string \<times> string list) list \<Rightarrow> string \<Rightarrow> string list" where
  "cfgField cfg f = (case map_of cfg f of None \<Rightarrow> [] | Some l \<Rightarrow> l)"

definition ps_GetSchemaDetails :: "('d, 'b, 'c) backend \<Rightarrow> ('d, 'c) persistStore \<Rightarrow> schema_key option \<Rightarrow> details_rsp res" where
  "ps_GetSchemaDetails B s ko =
     (case kv_get B (ps_db s) (buildSchemaKey (keyOf ko)) of
        None \<Rightarrow> Inl errKeyNotFound
      | Some val \<Rightarrow>
          rbind (js_unmarshal B val) (\<lambda>cfg.
            Inr \<lparr>dr_Schema = keyOf ko, dr_File = cfgField cfg ''files'', dr_Directory = cfgField cfg ''directories'',
              dr_Exclude = cfgField cfg ''excludes''\<rparr>))"

definition ps_CreateSchema :: "nat \<Rightarrow> os_env \<Rightarrow> loader \<Rightarrow> yang_api \<Rightarrow> ('d, 'b, 'c) backend \<Rightarrow> ('d, 'c) persistStore \<Rightarrow>
    create_req \<Rightarrow> ('d, 'c) persistStore run" where
  "ps_CreateSchema n F L Y B s req =
     (case cr_Schema req of
        None \<Rightarrow> Some (Inl missingSchema)
      | Some k \<Rightarrow>
          if ps_HasSchema B s k
          then Some (Inl (StatusErr InvalidArgument ''schema %v already exists'' [SchemaKey_String k]))
          else
            obind (lift (checkKey k)) (\<lambda>_.
            obind (lift (NewSchema F L Y (reqConfig k req))) (\<lambda>sc.
            obind (ps_AddSchema n Y B s sc) (\<lambda>(s', _). Some (Inr s')))))"

definition ps_DeleteSchema :: "('d, 'b, 'c) backend \<Rightarrow> ('d, 'c) persistStore \<Rightarrow> schema_key option \<Rightarrow> ('d, 'c) persistStore res" where
  "ps_DeleteSchema B s ko =
     (case ko of
        None \<Rightarrow> Inl missingSchema
      | Some k \<Rightarrow>
          rbind (checkKey k) (\<lambda>_.
            if \<not> ps_HasSchema B s k
            then Inl (StatusErr InvalidArgument ''schema %v does not exist'' [SchemaKey_String k])
            else
              rbind (kv_dropPrefix B (ps_db s) [buildEntryKey k [] [], buildSchemaKey k]) (\<lambda>db.
                Inr (s\<lparr>ps_db := db\<rparr>))))"

text \<open>\<open>ReloadSchema\<close> deletes the schema before it adds the new one, so it returns the store it
  leaves also when it fails.\<close>

definition ps_ReloadSchema :: "nat \<Rightarrow> os_env \<Rightarrow> loader \<Rightarrow> yang_api \<Rightarrow> ('d, 'b, 'c) backend \<Rightarrow> ('d, 'c) persistStore \<Rightarrow>
    schema_key option \<Rightarrow> ('d, 'c) persistStore \<times> unit run" where
  "ps_ReloadSchema n F L Y B s ko =
     (case rbind (ps_GetSchemaDetails B s ko) (\<lambda>details.
           rbind (NewSchema F L Y
             \<lparr>cfg_Name = sk_Name (keyOf ko), cfg_Vendor = sk_Vendor (keyOf ko), cfg_Version = sk_Version (keyOf ko),
              cfg_Files = dr_File details, cfg_Directories = dr_Directory details, cfg_Excludes = dr_Exclude details\<rparr>) (\<lambda>sc.
           rbind (ps_DeleteSchema B s ko) (\<lambda>s1. Inr (s1, sc)))) of
        Inl err \<Rightarrow> (s, Some (Inl err))
      | Inr (s1, sc) \<Rightarrow>
          (case ps_AddSchema n Y B s1 sc of
             None \<Rightarrow> (s1, None)
           | Some (Inl err) \<Rightarrow> (s1, Some (Inl err))
           | Some (Inr (s', _)) \<Rightarrow> (s', Some (Inr ()))))"

section \<open>Reading a schema\<close>

definition getModules :: "('d, 'b, 'c) backend \<Rightarrow> 'd \<Rightarrow> schema_key \<Rightarrow> string list res" where
  "getModules B db sck =
     (case kv_get B db (buildEntryKey sck RootName []) of
        None \<Rightarrow> Inl errKeyNotFound
      | Some val \<Rightarrow>
          rbind (pb_unmarshal B val) (\<lambda>se.
            Inr (case se of Container c \<Rightarrow> c_Children c | _ \<Rightarrow> [])))"

text \<open>The loop over the modules: the first key that is present. \<open>p0 # ps\<close> is the path without
  module prefix.\<close>

fun firstModule :: "('d, 'b, 'c) backend \<Rightarrow> 'd \<Rightarrow> schema_key \<Rightarrow> string \<Rightarrow> string list \<Rightarrow> string list \<Rightarrow> schema_elem res" where
  "firstModule B db sck p0 ps [] = Inl errKeyNotFound"
| "firstModule B db sck p0 ps (module # modules) =
     (case kv_get B db (if p0 = module then buildEntryKey sck p0 ps else buildEntryKey sck module (p0 # ps)) of
        None \<Rightarrow> firstModule B db sck p0 ps modules
      | Some v \<Rightarrow> pb_unmarshal B v)"

definition removeDescription :: "schema_elem \<Rightarrow> schema_elem" where
  "removeDescription se = (case se of
     Container c \<Rightarrow> Container (c\<lparr>c_Description := []\<rparr>)
   | Field f \<Rightarrow> Field (f\<lparr>l_Description := []\<rparr>)
   | Leaflist l \<Rightarrow> Leaflist (l\<lparr>ll_Description := []\<rparr>))"

definition getFromDB :: "('d, 'b, 'c) backend \<Rightarrow> 'd \<Rightarrow> schema_key \<Rightarrow> string \<Rightarrow> string list \<Rightarrow> schema_elem res" where
  "getFromDB B db sck pe ps =
     (let (moduleName, p0, found) = cutFirst pe in
      rbind (if found then Inr [moduleName]
             else rbind (getModules B db sck) (\<lambda>ms. Inr (sort_by (\<lambda>i j. SortModulesAB i j DeprioritizedModules) ms)))
        (firstModule B db sck p0 ps))"

text \<open>\<open>getSchema\<close>, with the store it leaves behind: an answer from the database is put into the
  cache, except for the root.\<close>

definition ps_getSchema :: "('d, 'b, 'c) backend \<Rightarrow> ('d, 'c) persistStore \<Rightarrow> Path option \<Rightarrow> bool \<Rightarrow> schema_key \<Rightarrow>
    ('d, 'c) persistStore \<times> schema_elem res" where
  "ps_getSchema B s path withDesc sck =
     (let pes = ToStrings path False True;
          cKey = \<lparr>ck_Schema = sck, ck_Path = str_join [slash] pes\<rparr> in
      case (case ps_cache s of None \<Rightarrow> None | Some c \<Rightarrow> ca_get B c cKey) of
        Some v \<Rightarrow> (s, Inr (if \<not> withDesc \<and> ps_cacheWithDescription s then removeDescription v else v))
      | None \<Rightarrow>
          (if pes = [] \<or> pes = [[]] then
             (s, case kv_get B (ps_db s) (buildEntryKey sck RootName []) of
                   None \<Rightarrow> Inl errKeyNotFound
                 | Some v \<Rightarrow> pb_unmarshal B v)
           else
             (case getFromDB B (ps_db s) sck (hd pes) (tl pes) of
                Inl err \<Rightarrow> (s, Inl err)
              | Inr sce \<Rightarrow> (s\<lparr>ps_cache := map_option (\<lambda>c. ca_set B c cKey sce) (ps_cache s)\<rparr>, Inr sce))))"

definition ps_GetSchema :: "('d, 'b, 'c) backend \<Rightarrow> ('d, 'c) persistStore \<Rightarrow> get_req \<Rightarrow>
    ('d, 'c) persistStore \<times> schema_elem res" where
  "ps_GetSchema B s req =
     (let sck = keyOf (gr_Schema req) in
      if \<not> ps_HasSchema B s sck then (s, Inl (Errorf ''unknown schema %v'' [SchemaKey_String sck]))
      else ps_getSchema B s (gr_Path req) (gr_WithDescription req) sck)"

section \<open>What a schema leaves in the database\<close>

lemma run_cases [case_names None Inl Inr]:
  fixes m :: "'a run"
  obtains "m = None" | e where "m = Some (Inl e)" | a where "m = Some (Inr a)"
  by (metis option.exhaust sum.exhaust)

lemma ofold_append: "ofold f s (xs @ ys) = obind (ofold f s xs) (\<lambda>s'. ofold f s' ys)"
proof (induction xs arbitrary: s)
  case (Cons x xs)
  show ?case using Cons by (cases "(f s x, \<lambda>z. ofold f z xs)" rule: obind.cases) auto
qed simp

lemma ofold_concat: "ofold (\<lambda>s x. ofold f s (g x)) s xs = ofold f s (concat (map g xs))"
proof (induction xs arbitrary: s)
  case (Cons x xs)
  then show ?case by (simp add: ofold_append)
qed simp

lemma addSchemaElem_nodes:
  "addSchemaElem n Y B sc wb e =
   ofold (\<lambda>wb x. obind (entryPair n Y B sc x) (\<lambda>kv. Some (Inr (wb @ [kv])))) wb (walkNodes Y e)"
proof (induction "size (ent e)" arbitrary: e wb rule: less_induct)
  case less
  let ?f = "\<lambda>wb x. obind (entryPair n Y B sc x) (\<lambda>kv. Some (Inr (wb @ [kv])))"
  have c: "ofold (\<lambda>wb ee. addSchemaElem n Y B sc wb ee) wb (e_children e) =
      ofold ?f wb (concat (map (walkNodes Y) (e_children e)))" for wb
    unfolding ofold_concat [symmetric] by (rule ofold_cong) (auto intro: less size_children)
  show ?case
    by (subst addSchemaElem.simps, subst walkNodes.simps)
       (cases "entryPair n Y B sc e" rule: run_cases; simp add: c)
qed

lemma list_all2_in1: "list_all2 P xs ys \<Longrightarrow> x \<in> set xs \<Longrightarrow> \<exists>y\<in>set ys. P x y"
  by (induction rule: list_all2_induct) auto

lemma list_all2_in2: "list_all2 P xs ys \<Longrightarrow> y \<in> set ys \<Longrightarrow> \<exists>x\<in>set xs. P x y"
  by (induction rule: list_all2_induct) auto

lemma ofold_pairs:
  "ofold (\<lambda>wb x. obind (p x) (\<lambda>kv. Some (Inr (wb @ [kv])))) wb xs = Some (Inr wb') \<Longrightarrow>
   \<exists>kvs. wb' = wb @ kvs \<and> list_all2 (\<lambda>x kv. p x = Some (Inr kv)) xs kvs"
proof (induction xs arbitrary: wb)
  case (Cons x xs)
  from Cons.prems obtain kv where kv: "p x = Some (Inr kv)"
    "ofold (\<lambda>wb x. obind (p x) (\<lambda>kv. Some (Inr (wb @ [kv])))) (wb @ [kv]) xs = Some (Inr wb')" by auto
  from Cons.IH [OF kv(2)] obtain kvs where "wb' = (wb @ [kv]) @ kvs"
    "list_all2 (\<lambda>x kv. p x = Some (Inr kv)) xs kvs" by blast
  with kv(1) show ?case by (intro exI [of _ "kv # kvs"]) auto
qed simp

text \<open>Keys of nodes with YANG names are different.\<close>

lemma slash_concat_inj:
  "list_all (\<lambda>p. slash \<notin> set p) ps \<Longrightarrow> list_all (\<lambda>p. slash \<notin> set p) qs \<Longrightarrow>
   concat (map (\<lambda>pe. slash # pe) ps) = concat (map (\<lambda>pe. slash # pe) qs) \<Longrightarrow> ps = qs"
proof (induction ps arbitrary: qs)
  case Nil
  then show ?case by (cases qs) auto
next
  case (Cons p ps)
  then obtain q qs' where qs: "qs = q # qs'" by (cases qs) auto
  let ?t = "\<lambda>xs. concat (map (\<lambda>pe. slash # pe) xs)"
  have e: "p @ ?t ps = q @ ?t qs'" using Cons.prems(3) qs by simp
  have tw: "takeWhile (\<lambda>c. c \<noteq> slash) (x @ ?t xs) = x \<and> dropWhile (\<lambda>c. c \<noteq> slash) (x @ ?t xs) = ?t xs"
    if "slash \<notin> set x" for x xs
  proof -
    have "\<And>c. c \<in> set x \<Longrightarrow> c \<noteq> slash" using that by blast
    then show ?thesis by (cases xs) (auto simp: takeWhile_append2 dropWhile_append2)
  qed
  have "slash \<notin> set p" "slash \<notin> set q" using Cons.prems qs by simp_all
  with tw e have "p = q" "?t ps = ?t qs'" by metis+
  with Cons qs show ?case by simp
qed

lemma entryKey_inj:
  assumes "buildEntryKey k p ps = buildEntryKey k q qs" "colon \<notin> set p" "colon \<notin> set q"
    and "list_all (\<lambda>p. slash \<notin> set p) ps" "list_all (\<lambda>p. slash \<notin> set p) qs"
  shows "p = q \<and> ps = qs"
proof -
  let ?r = "\<lambda>ps. if ps = [] then [] else '':::'' @ concat (map (\<lambda>pe. slash # pe) ps)"
  have e: "p @ ?r ps = q @ ?r qs" using assms(1) by (simp add: buildEntryKey_def)
  have tw: "takeWhile (\<lambda>c. c \<noteq> colon) (x @ ?r xs) = x" if "colon \<notin> set x" for x xs
    using that by (subst takeWhile_append2) (auto simp: colon_def)
  have pq: "p = q" using tw [OF assms(2), of ps] tw [OF assms(3), of qs] e by metis
  with e have "?r ps = ?r qs" by simp
  then have "concat (map (\<lambda>pe. slash # pe) ps) = concat (map (\<lambda>pe. slash # pe) qs)" by (auto split: if_splits)
  with slash_concat_inj [OF assms(4,5)] pq show ?thesis by blast
qed

lemma map_of_rev_unique:
  "(k, v) \<in> set al \<Longrightarrow> \<forall>v'. (k, v') \<in> set al \<longrightarrow> v' = v \<Longrightarrow> map_of (rev al) k = Some v"
proof -
  assume "(k, v) \<in> set al" and u: "\<forall>v'. (k, v') \<in> set al \<longrightarrow> v' = v"
  then obtain w where "map_of (rev al) k = Some w" by (metis map_of_eq_None_iff fst_conv image_eqI not_None_eq set_rev)
  with u show ?thesis using map_of_SomeD [of "rev al" k w] by auto
qed

text \<open>\<open>schemaOk\<close>: a schema as goyang delivers it. Modules are the children of the root and
  directories, their top-level nodes are filed under their names and none is a choice.\<close>

definition schemaOk :: "yang_api \<Rightarrow> entry \<Rightarrow> bool" where
  "schemaOk Y r \<longleftrightarrow> rootOk Y r \<and> IsContainer Y (Ptr r []) \<and> \<not> isCC Y (Ptr r []) \<and> \<not> IsLeaf Y (Ptr r []) \<and>
     \<not> IsLeafList Y (Ptr r []) \<and>
     list_all (\<lambda>m. IsDir Y m \<and> treeOk Y m \<and> list_all (\<lambda>(k, c). k = e_Name c \<and> \<not> isCC Y c) (e_Dir m))
       (e_children (Ptr r []))"

lemma schemaOk_module:
  assumes "schemaOk Y r" "m \<in> set (e_children (Ptr r []))"
  shows "moduleOk Y m \<and> treeOk Y m \<and> IsDir Y m \<and> (\<forall>(k, c)\<in>set (e_Dir m). k = e_Name c \<and> \<not> isCC Y c)"
  using assms rootOk_module by (auto simp: schemaOk_def list_all_iff)

lemma data_path_name_ok:
  "data_path Y m pe x \<Longrightarrow> treeOk Y m \<Longrightarrow> list_all (\<lambda>p. colon \<notin> set (unprefixed p) \<and> slash \<notin> set (unprefixed p)) pe"
proof (induction rule: data_path.induct)
  case (down e c p ps e')
  have t: "treeOk Y c" using data_child_treeOk down by blast
  with down treeOk_name [OF t] show ?case by simp
qed simp

lemma walkNodes_root:
  assumes "schemaOk Y r"
  shows "set (walkNodes Y (Ptr r [])) = insert (Ptr r []) {x. \<exists>m\<in>set (e_children (Ptr r [])). \<exists>pe. data_path Y m pe x}"
proof -
  have "set (walkNodes Y m) = {x. \<exists>pe. data_path Y m pe x}" if "m \<in> set (e_children (Ptr r []))" for m
    using schemaOk_module [OF assms that] walkNodes_data_path [of Y m] by (auto simp: moduleOk_def)
  then show ?thesis using assms by (subst walkNodes.simps) (auto simp: schemaOk_def)
qed

text \<open>The key under which a node is stored.\<close>

lemma entryPath_root: "getEntryPath Y (Ptr r []) = Inr [a_Name (attrs r)]"
  by (simp add: getEntryPath_def entryPathLoop.simps [of Y "Ptr r []"] e_Parent_def)

lemma entryPath_node:
  assumes "schemaOk Y r" "m \<in> set (e_children (Ptr r []))" "data_path Y m pe x"
  shows "getEntryPath Y x = Inr (e_Name m # map unprefixed pe)"
  using getEntryPath_data_path [OF assms(3)] schemaOk_module [OF assms(1,2)] by (simp add: moduleOk_def)

lemma entryPair_key:
  assumes "schemaOk Y r" "x \<in> set (walkNodes Y (Ptr r []))" "entryPair n Y B sc x = Some (Inr (k, b))"
  shows "\<exists>se. SchemaElemFromYEntry n Y sc x True = Some (Inr se) \<and> pb_marshal B se = Inr b \<and>
    (x = Ptr r [] \<and> k = buildEntryKey (Key sc) RootName [] \<or>
     (\<exists>m\<in>set (e_children (Ptr r [])). \<exists>pe. data_path Y m pe x \<and> k = buildEntryKey (Key sc) (e_Name m) (map unprefixed pe)))"
proof -
  from assms(3) obtain path se where p: "getEntryPath Y x = Inr path"
    "SchemaElemFromYEntry n Y sc x True = Some (Inr se)" "pb_marshal B se = Inr b"
    "k = buildEntryKey (Key sc) (hd path) (tl path)"
    by (auto simp: entryPair_def lift_def)
  from assms(2) walkNodes_root [OF assms(1)] consider "x = Ptr r []"
    | m pe where "m \<in> set (e_children (Ptr r []))" "data_path Y m pe x" by blast
  then show ?thesis
  proof cases
    case 1
    then show ?thesis using p entryPath_root [of Y r] assms(1) by (auto simp: schemaOk_def rootOk_def)
  next
    case 2
    have "path = e_Name m # map unprefixed pe" using p(1) entryPath_node [OF assms(1) 2] by simp
    then have "k = buildEntryKey (Key sc) (e_Name m) (map unprefixed pe)" using p(4) by simp
    with p(2,3) 2 show ?thesis by blast
  qed
qed

lemma kv_stored:
  assumes "kv_ok B" "schemaOk Y r" "sc_root sc = Some r" "ps_AddSchema n Y B s sc = Some (Inr (s', sc'))"
  shows "\<exists>kvs v. list_all2 (\<lambda>x kv. entryPair n Y B sc x = Some (Inr kv)) (walkNodes Y (Ptr r [])) kvs \<and>
    js_marshal B [(''files'', sc_Files sc), (''directories'', sc_Dirs sc),
         (''excludes'', sc_Excludes sc)] = Inr v \<and>
    (\<forall>k. kv_get B (ps_db s') k = (case map_of (rev (kvs @ [(buildSchemaKey (Key sc), v)])) k of
        Some v \<Rightarrow> Some v | None \<Rightarrow> kv_get B (ps_db s) k))"
proof -
  have root: "GetEntry Y sc [] = Inr (Ptr r [])" using assms(3) by (simp add: GetEntry_def rootPtr_def)
  from assms(4) obtain wb v db where
    wb: "addSchemaElem n Y B sc [] (Ptr r []) = Some (Inr wb)"
    and v: "js_marshal B [(''files'', sc_Files sc), (''directories'', sc_Dirs sc),
         (''excludes'', sc_Excludes sc)] = Inr v"
    and db: "kv_flush B (ps_db s) (wb @ [(buildSchemaKey (Key sc), v)]) = Inr db" "s' = s\<lparr>ps_db := db\<rparr>"
    by (auto simp: ps_AddSchema_def lift_def addSchema_def root)
  from ofold_pairs [OF wb [unfolded addSchemaElem_nodes]] obtain kvs where
    "wb = kvs" "list_all2 (\<lambda>x kv. entryPair n Y B sc x = Some (Inr kv)) (walkNodes Y (Ptr r [])) kvs" by auto
  moreover have "\<forall>k. kv_get B db k = (case map_of (rev (wb @ [(buildSchemaKey (Key sc), v)])) k of
        Some v \<Rightarrow> Some v | None \<Rightarrow> kv_get B (ps_db s) k)"
    using assms(1) db(1) by (simp add: kv_ok_def)
  ultimately show ?thesis using v db(2) by (intro exI [of _ kvs] exI [of _ v]) simp
qed

lemma colon_RootName: "colon \<notin> set RootName"
  by (simp add: RootName_def colon_def)

lemma moduleOk_name: "moduleOk Y m \<Longrightarrow> colon \<notin> set (e_Name m) \<and> e_Name m \<noteq> RootName"
  by (simp add: moduleOk_def)

lemma key_node:
  assumes "schemaOk Y r" "m \<in> set (e_children (Ptr r []))" "list_all (\<lambda>p. slash \<notin> set p) pe"
    and "x \<in> set (walkNodes Y (Ptr r []))"
    and "entryPair n Y B sc x = Some (Inr (buildEntryKey (Key sc) (e_Name m) pe, b))"
  shows "data_path Y m pe x"
proof -
  let ?K = "buildEntryKey (Key sc) (e_Name m) pe"
  note mod = schemaOk_module [OF assms(1)]
  have mc: "colon \<notin> set (e_Name m)" "e_Name m \<noteq> RootName" using mod [OF assms(2)] moduleOk_name by blast+
  from entryPair_key [OF assms(1,4,5)] consider (root) "?K = buildEntryKey (Key sc) RootName []"
    | (node) m' pe' where "m' \<in> set (e_children (Ptr r []))" "data_path Y m' pe' x"
        "?K = buildEntryKey (Key sc) (e_Name m') (map unprefixed pe')" by blast
  then show ?thesis
  proof cases
    case root
    from entryKey_inj [OF root mc(1) colon_RootName assms(3)] mc(2) show ?thesis by simp
  next
    case node
    have ok: "list_all (\<lambda>p. colon \<notin> set (unprefixed p) \<and> slash \<notin> set (unprefixed p)) pe'"
      using data_path_name_ok [OF node(2)] mod [OF node(1)] by blast
    have mc': "colon \<notin> set (e_Name m')" using mod [OF node(1)] moduleOk_name by blast
    have sl: "list_all (\<lambda>p. slash \<notin> set p) (map unprefixed pe')" using ok by (simp add: list_all_iff)
    have e: "e_Name m = e_Name m' \<and> pe = map unprefixed pe'" by (rule entryKey_inj [OF node(3) mc(1) mc' assms(3) sl])
    moreover have "inj_on e_Name (set (e_children (Ptr r [])))"
      using rootOk_inj [of Y r "e_children (Ptr r [])"] assms(1) by (simp add: schemaOk_def)
    ultimately have "m = m'" using assms(2) node(1) by (meson inj_onD)
    moreover have "data_path Y m' (map unprefixed pe') x"
      by (rule data_path_names [OF node(2)]) (use ok in \<open>simp add: list_all_iff\<close>)
    ultimately show ?thesis using e by blast
  qed
qed

lemma key_pair:
  assumes "schemaOk Y r" "m \<in> set (e_children (Ptr r []))" "list_all (\<lambda>p. colon \<notin> set p \<and> slash \<notin> set p) pe"
    and kvs: "list_all2 (\<lambda>x kv. entryPair n Y B sc x = Some (Inr kv)) (walkNodes Y (Ptr r [])) kvs"
  shows "(buildEntryKey (Key sc) (e_Name m) pe, b) \<in> set kvs \<longleftrightarrow>
    (\<exists>x. data_path Y m pe x \<and> entryPair n Y B sc x = Some (Inr (buildEntryKey (Key sc) (e_Name m) pe, b)))"
    (is "(?K, b) \<in> _ \<longleftrightarrow> ?R")
proof
  have sl: "list_all (\<lambda>p. slash \<notin> set p) pe" using assms(3) by (simp add: list_all_iff)
  assume "(?K, b) \<in> set kvs"
  from list_all2_in2 [OF kvs this] obtain x where
    x: "x \<in> set (walkNodes Y (Ptr r []))" "entryPair n Y B sc x = Some (Inr (?K, b))" by blast
  from key_node [OF assms(1,2) sl x] x(2) show ?R by blast
next
  assume ?R
  then obtain x where x: "data_path Y m pe x" "entryPair n Y B sc x = Some (Inr (?K, b))" by blast
  have "x \<in> set (walkNodes Y (Ptr r []))" using walkNodes_root [OF assms(1)] assms(2) x(1) by blast
  from list_all2_in1 [OF kvs this] x(2) show "(?K, b) \<in> set kvs" by simp
qed

lemma data_path_unique:
  "moduleOk Y m \<Longrightarrow> data_path Y m pe x \<Longrightarrow> data_path Y m pe x' \<Longrightarrow> x' = x"
  using getEntry_complete [of Y m pe x] getEntry_complete [of Y m pe x'] unfolding moduleOk_def by simp

lemma entryPair_node:
  assumes "schemaOk Y r" "m \<in> set (e_children (Ptr r []))" "data_path Y m pe x" "map unprefixed pe = pe"
  shows "entryPair n Y B sc x = Some (Inr (k, b)) \<longleftrightarrow> k = buildEntryKey (Key sc) (e_Name m) pe \<and>
    (\<exists>se. SchemaElemFromYEntry n Y sc x True = Some (Inr se) \<and> pb_marshal B se = Inr b)"
  unfolding entryPair_def lift_def entryPath_node [OF assms(1-3)] assms(4) by auto

lemma map_of_rev_None: "map_of (rev al) k = None \<longleftrightarrow> (\<forall>b. (k, b) \<notin> set al)"
  by (force simp: map_of_eq_None_iff)

lemma unprefixed_id: "colon \<notin> set p \<Longrightarrow> unprefixed p = p"
  using cut_unprefixed [of p] by simp

text \<open>The pair stored for a node, and the absence of any other.\<close>

lemma kv_lookup:
  assumes "kv_ok B" "schemaOk Y r" "sc_root sc = Some r" "ps_AddSchema n Y B s sc = Some (Inr (s', sc'))"
    and "m \<in> set (e_children (Ptr r []))" "list_all (\<lambda>p. colon \<notin> set p \<and> slash \<notin> set p) pe"
    and "kv_get B (ps_db s) (buildEntryKey (Key sc) (e_Name m) pe) = None"
  shows "kv_get B (ps_db s') (buildEntryKey (Key sc) (e_Name m) pe) = Some b \<longleftrightarrow>
    (\<exists>x se. data_path Y m pe x \<and> SchemaElemFromYEntry n Y sc x True = Some (Inr se) \<and> pb_marshal B se = Inr b)"
    (is "?L \<longleftrightarrow> ?R")
    and "kv_get B (ps_db s') (buildEntryKey (Key sc) (e_Name m) pe) = None \<longleftrightarrow> (\<nexists>x. data_path Y m pe x)"
proof -
  let ?K = "buildEntryKey (Key sc) (e_Name m) pe"
  have un: "map unprefixed pe = pe"
    using assms(6) by (intro map_idI unprefixed_id) (simp add: list_all_iff)
  have mok: "moduleOk Y m" using schemaOk_module [OF assms(2,5)] by blast
  from kv_stored [OF assms(1-4)] obtain kvs v where
    kvs: "list_all2 (\<lambda>x kv. entryPair n Y B sc x = Some (Inr kv)) (walkNodes Y (Ptr r [])) kvs"
    and get: "\<And>k. kv_get B (ps_db s') k = (case map_of (rev (kvs @ [(buildSchemaKey (Key sc), v)])) k of
        Some v \<Rightarrow> Some v | None \<Rightarrow> kv_get B (ps_db s) k)" by blast
  have "?K \<noteq> buildSchemaKey (Key sc)"
    by (simp add: buildEntryKey_def buildSchemaKey_def schemaObjectsPrefix_def schemasPrefix_def)
  then have g: "kv_get B (ps_db s') ?K = map_of (rev kvs) ?K"
    using get [of ?K] assms(7) by (simp split: option.splits)
  have ep: "(data_path Y m pe x \<and> entryPair n Y B sc x = Some (Inr (?K, b))) \<longleftrightarrow>
      (data_path Y m pe x \<and> (\<exists>se. SchemaElemFromYEntry n Y sc x True = Some (Inr se) \<and> pb_marshal B se = Inr b))" for x b
    by (rule conj_cong [OF refl]) (simp only: entryPair_node [OF assms(2,5) _ un], simp)
  have mem: "(?K, b) \<in> set kvs \<longleftrightarrow> (\<exists>x se. data_path Y m pe x \<and> SchemaElemFromYEntry n Y sc x True = Some (Inr se) \<and> pb_marshal B se = Inr b)" for b
    unfolding key_pair [OF assms(2,5,6) kvs] ep by blast
  have uniq: "b' = b" if "(?K, b) \<in> set kvs" "(?K, b') \<in> set kvs" for b b'
  proof -
    from that(1) [unfolded mem] obtain x se where x: "data_path Y m pe x" "SchemaElemFromYEntry n Y sc x True = Some (Inr se)"
      "pb_marshal B se = Inr b" by blast
    from that(2) [unfolded mem] obtain x' se' where x': "data_path Y m pe x'" "SchemaElemFromYEntry n Y sc x' True = Some (Inr se')"
      "pb_marshal B se' = Inr b'" by blast
    from data_path_unique [OF mok x(1) x'(1)] x x' show ?thesis by simp
  qed
  show "?L \<longleftrightarrow> ?R"
  proof
    assume ?L
    then have "map_of (rev kvs) ?K = Some b" using g by simp
    then have "(?K, b) \<in> set kvs" by (metis map_of_SomeD set_rev)
    then show ?R unfolding mem .
  next
    assume ?R
    then have "(?K, b) \<in> set kvs" unfolding mem .
    then have "map_of (rev kvs) ?K = Some b" using uniq by (intro map_of_rev_unique) blast+
    then show ?L using g by simp
  qed
  have "map_of (rev kvs) ?K = None \<longleftrightarrow> (\<forall>b. (?K, b) \<notin> set kvs)"
    by (rule map_of_rev_None)
  also have "\<dots> \<longleftrightarrow> (\<nexists>x. data_path Y m pe x)"
  proof
    assume none: "\<forall>b. (?K, b) \<notin> set kvs"
    show "\<nexists>x. data_path Y m pe x"
    proof
      assume "\<exists>x. data_path Y m pe x"
      then obtain x where x: "data_path Y m pe x" by blast
      have "x \<in> set (walkNodes Y (Ptr r []))" using walkNodes_root [OF assms(2)] assms(5) x by blast
      from list_all2_in1 [OF kvs this] obtain k b where kb: "(k, b) \<in> set kvs" "entryPair n Y B sc x = Some (Inr (k, b))" by auto
      from kb(2) have "k = ?K" unfolding entryPair_node [OF assms(2,5) x un] by (rule conjunct1)
      with none kb(1) show False by simp
    qed
  qed (simp add: mem)
  finally show "kv_get B (ps_db s') ?K = None \<longleftrightarrow> (\<nexists>x. data_path Y m pe x)" using g by simp
qed

section \<open>Reading back what was written\<close>

lemma root_elem:
  assumes "schemaOk Y r" "SchemaElemFromYEntry n Y sc (Ptr r []) True = Some (Inr se)"
  shows "\<exists>c. se = Container c \<and> c_Children c = sort (map e_Name (e_children (Ptr r [])))"
proof -
  let ?r = "Ptr r []"
  have k: "IsContainer Y ?r" "\<not> isCC Y ?r" "\<not> IsLeaf Y ?r" "\<not> IsLeafList Y ?r"
    and m: "\<And>m. m \<in> set (e_children ?r) \<Longrightarrow> \<not> isCC Y m \<and> IsDir Y m"
    using assms(1) schemaOk_module [OF assms(1)] by (auto simp: schemaOk_def moduleOk_def)
  from assms(2) k obtain c where c: "containerFromYEntry n Y sc ?r True = Some (Inr c)" "se = Container c"
    by (auto simp: SchemaElemFromYEntry_def)
  have "concat (map (\<lambda>ee. if IsChoice Y ee \<or> IsCase Y ee then getChildren Y ee else [ee]) ms) = ms"
    if "set ms \<subseteq> set (e_children ?r)" for ms using that m by (induction ms) auto
  then have "getChildren Y ?r = e_children ?r" using k by (subst getChildren.simps) auto
  moreover have "filter (IsDir Y) (e_children ?r) = e_children ?r" using m by (simp add: filter_id_conv)
  ultimately show ?thesis using container_lists [OF c(1)] c(2) by (simp add: lists_def)
qed

lemma modules_sorted:
  assumes "schemaOk Y r"
  shows "sort_by (\<lambda>i j. SortModulesAB i j DeprioritizedModules) (sort (map e_Name (e_children (Ptr r [])))) =
    map e_Name (sort_by modLess (e_children (Ptr r [])))"
proof -
  let ?lt = "\<lambda>i j. SortModulesAB i j DeprioritizedModules"
  have "map e_Name (sort_by modLess xs) = sort_by ?lt (map e_Name xs)" for xs
  proof -
    have "map e_Name (insert_by modLess x ys) = insert_by ?lt (e_Name x) (map e_Name ys)" for x ys
      by (induction ys) auto
    then show ?thesis by (induction xs) auto
  qed
  moreover have "sort_by ?lt (sort (map e_Name (e_children (Ptr r [])))) = sort_by ?lt (map e_Name (e_children (Ptr r [])))"
    by (rule module_order.sort_by_perm [of _ _ id, simplified]) simp
  ultimately show ?thesis by simp
qed

lemma firstEntry_filter:
  "(\<And>m. m \<in> set ms \<Longrightarrow> \<not> P m \<Longrightarrow> \<exists>err. getEntry Y m pe = Inl err) \<Longrightarrow> firstEntry Y (filter P ms) pe = firstEntry Y ms pe"
proof (induction ms)
  case (Cons m ms)
  have ih: "firstEntry Y (filter P ms) pe = firstEntry Y ms pe" by (rule Cons.IH) (simp add: Cons.prems)
  show ?case
  proof (cases "P m")
    case True
    then show ?thesis using ih by (simp split: sum.split)
  next
    case False
    with Cons.prems obtain err where "getEntry Y m pe = Inl err" by force
    with False ih show ?thesis by simp
  qed
qed simp

lemma sort_filter_modules:
  assumes "rootOk Y r"
  shows "sort_by modLess (filter P (e_children (Ptr r []))) = filter P (sort_by modLess (e_children (Ptr r [])))"
proof (rule module_order.sorted_unique [of e_Name])
  show "sorted_wrt (\<lambda>a b. \<not> modLess b a) (sort_by modLess (filter P (e_children (Ptr r []))))"
    by (rule module_order.sorted_sort_by)
  show "sorted_wrt (\<lambda>a b. \<not> modLess b a) (filter P (sort_by modLess (e_children (Ptr r []))))"
    by (rule sorted_wrt_filter [OF module_order.sorted_sort_by])
  show "mset (sort_by modLess (filter P (e_children (Ptr r [])))) = mset (filter P (sort_by modLess (e_children (Ptr r []))))"
    by simp
  show "inj_on e_Name (set (sort_by modLess (filter P (e_children (Ptr r [])))))"
    by (rule rootOk_inj [OF assms]) auto
qed

lemma top_candidate:
  assumes "schemaOk Y r" "m \<in> set (e_children (Ptr r []))" "data_path Y m (p0 # ps) e" "colon \<notin> set p0"
  shows "candidate p0 m"
proof -
  from assms(3) obtain c where c: "data_child Y m c" "e_Name c = unprefixed p0" by (auto elim: data_path_ConsE)
  have t: "\<And>k x. (k, x) \<in> set (e_Dir m) \<Longrightarrow> k = e_Name x \<and> \<not> isCC Y x"
    using schemaOk_module [OF assms(1,2)] by blast
  have "c \<in> set (e_children m)"
    using c(1)
  proof (cases rule: data_child.cases)
    case (through ee)
    then obtain k where "(k, ee) \<in> set (e_Dir m)" by (auto simp: e_children_snd)
    with t through show ?thesis by blast
  qed
  then obtain k where "(k, c) \<in> set (e_Dir m)" by (auto simp: e_children_snd)
  with t c(2) have "(unprefixed p0, c) \<in> set (e_Dir m)" by metis
  then have "map_of (e_Dir m) (unprefixed p0) \<noteq> None" by (auto simp: map_of_eq_None_iff rev_image_eqI)
  with assms(4) show ?thesis by (auto simp: candidate_def split: option.splits)
qed

lemma GetEntry_modules:
  assumes "schemaOk Y r" "sc_root sc = Some r" "colon \<notin> set p0" "map_of (e_Dir (Ptr r [])) p0 = None"
  shows "GetEntry Y sc (p0 # ps) = Inr e \<longleftrightarrow> firstEntry Y (sort_by modLess (e_children (Ptr r []))) (p0 # ps) = Some e"
proof -
  have r: "rootOk Y r" using assms(1) by (simp add: schemaOk_def)
  have "\<exists>err. getEntry Y m (p0 # ps) = Inl err" if "m \<in> set (sort_by modLess (e_children (Ptr r [])))" "\<not> candidate p0 m" for m
  proof -
    have m: "m \<in> set (e_children (Ptr r []))" using that(1) by simp
    then have "\<not> (\<exists>e. data_path Y m (p0 # ps) e)" using top_candidate [OF assms(1) m _ assms(3)] that(2) by blast
    then show ?thesis using getEntry_fails schemaOk_module [OF assms(1) m] by blast
  qed
  then have "firstEntry Y (filter (candidate p0) (sort_by modLess (e_children (Ptr r [])))) (p0 # ps) =
      firstEntry Y (sort_by modLess (e_children (Ptr r []))) (p0 # ps)" by (rule firstEntry_filter)
  then show ?thesis
    using GetEntry_first [OF r assms(2), of p0 ps e] assms(3,4) unprefixed_id [of p0] sort_filter_modules [OF r]
    by simp
qed

lemma entryPair_root:
  assumes "a_Name (attrs r) = RootName"
  shows "entryPair n Y B sc (Ptr r []) = Some (Inr (k, b)) \<longleftrightarrow> k = buildEntryKey (Key sc) RootName [] \<and>
    (\<exists>se. SchemaElemFromYEntry n Y sc (Ptr r []) True = Some (Inr se) \<and> pb_marshal B se = Inr b)"
  unfolding entryPair_def lift_def entryPath_root assms by auto

lemma kv_root:
  assumes "kv_ok B" "schemaOk Y r" "sc_root sc = Some r" "ps_AddSchema n Y B s sc = Some (Inr (s', sc'))"
  shows "\<exists>b se. kv_get B (ps_db s') (buildEntryKey (Key sc) RootName []) = Some b \<and> pb_marshal B se = Inr b \<and>
    SchemaElemFromYEntry n Y sc (Ptr r []) True = Some (Inr se)"
proof -
  define K where "K = buildEntryKey (Key sc) RootName []"
  from kv_stored [OF assms(1-4)] obtain kvs v where
    kvs: "list_all2 (\<lambda>x kv. entryPair n Y B sc x = Some (Inr kv)) (walkNodes Y (Ptr r [])) kvs"
    and get: "\<And>k. kv_get B (ps_db s') k = (case map_of (rev (kvs @ [(buildSchemaKey (Key sc), v)])) k of
        Some v \<Rightarrow> Some v | None \<Rightarrow> kv_get B (ps_db s) k)" by blast
  have K: "K \<noteq> buildSchemaKey (Key sc)"
    by (simp add: K_def buildEntryKey_def buildSchemaKey_def schemaObjectsPrefix_def schemasPrefix_def)
  have "Ptr r [] \<in> set (walkNodes Y (Ptr r []))" using walkNodes_root [OF assms(2)] by blast
  from list_all2_in1 [OF kvs this] obtain k b where kb: "(k, b) \<in> set kvs" "entryPair n Y B sc (Ptr r []) = Some (Inr (k, b))" by auto
  have nm: "a_Name (attrs r) = RootName" using assms(2) by (simp add: schemaOk_def rootOk_def)
  from kb(2) [unfolded entryPair_root [OF nm] K_def [symmetric]]
  obtain se where se: "SchemaElemFromYEntry n Y sc (Ptr r []) True = Some (Inr se)" "pb_marshal B se = Inr b" "k = K" by blast
  have uniq: "b' = b" if "(K, b') \<in> set kvs" for b'
  proof -
    from list_all2_in2 [OF kvs that] obtain x where x: "x \<in> set (walkNodes Y (Ptr r []))"
      "entryPair n Y B sc x = Some (Inr (K, b'))" by blast
    from entryPair_key [OF assms(2) x] consider "x = Ptr r []" | m pe where "m \<in> set (e_children (Ptr r []))"
      "data_path Y m pe x" "K = buildEntryKey (Key sc) (e_Name m) (map unprefixed pe)" by blast
    then show ?thesis
    proof cases
      case 1
      with x(2) kb(2) show ?thesis by simp
    next
      case 2
      have m: "moduleOk Y m" "treeOk Y m" using schemaOk_module [OF assms(2) 2(1)] by blast+
      have "list_all (\<lambda>p. slash \<notin> set p) (map unprefixed pe)"
        using data_path_name_ok [OF 2(2) m(2)] by (simp add: list_all_iff)
      from entryKey_inj [OF 2(3) [unfolded K_def] colon_RootName _ _ this] moduleOk_name [OF m(1)] show ?thesis by simp
    qed
  qed
  have "map_of (rev kvs) K = Some b" by (rule map_of_rev_unique) (use kb(1) se(3) in simp, blast intro: uniq)
  with K have "kv_get B (ps_db s') K = Some b" using get [of K] by simp
  with se show ?thesis unfolding K_def by blast
qed

lemma ps_HasSchema_AddSchema:
  assumes "kv_ok B" "schemaOk Y r" "sc_root sc = Some r" "ps_AddSchema n Y B s sc = Some (Inr (s', sc'))"
  shows "ps_HasSchema B s' (Key sc)"
proof -
  from kv_stored [OF assms] obtain kvs v where
    "\<And>k. kv_get B (ps_db s') k = (case map_of (rev (kvs @ [(buildSchemaKey (Key sc), v)])) k of
        Some v \<Rightarrow> Some v | None \<Rightarrow> kv_get B (ps_db s) k)" by blast
  from this [of "buildSchemaKey (Key sc)"] show ?thesis by (simp add: ps_HasSchema_def)
qed

lemma firstModule_firstEntry:
  assumes "kv_ok B" "codec_ok B" "schemaOk Y r" "sc_root sc = Some r" "ps_AddSchema n Y B s sc = Some (Inr (s', sc'))"
    and pe: "list_all (\<lambda>p. colon \<notin> set p \<and> slash \<notin> set p) (p0 # ps)"
    and fresh: "\<And>p ps. kv_get B (ps_db s) (buildEntryKey (Key sc) p ps) = None"
  shows "set ms \<subseteq> set (e_children (Ptr r [])) \<Longrightarrow> p0 \<notin> e_Name ` set ms \<Longrightarrow>
    firstModule B (ps_db s') (Key sc) p0 ps (map e_Name ms) = Inr se \<longleftrightarrow>
      (\<exists>e. firstEntry Y ms (p0 # ps) = Some e \<and> SchemaElemFromYEntry n Y sc e True = Some (Inr se))"
proof (induction ms)
  case (Cons m ms)
  have m: "m \<in> set (e_children (Ptr r []))" "p0 \<noteq> e_Name m" using Cons.prems by auto
  have ih: "firstModule B (ps_db s') (Key sc) p0 ps (map e_Name ms) = Inr se \<longleftrightarrow>
      (\<exists>e. firstEntry Y ms (p0 # ps) = Some e \<and> SchemaElemFromYEntry n Y sc e True = Some (Inr se))"
    by (rule Cons.IH) (use Cons.prems in auto)
  note lk = kv_lookup [OF assms(1,3-5) m(1) pe fresh]
  have mok: "moduleOk Y m" using schemaOk_module [OF assms(3) m(1)] by blast
  then have mm: "\<not> isCC Y m" "unique_names Y m" by (simp_all add: moduleOk_def)
  show ?case
  proof (cases "\<exists>x. data_path Y m (p0 # ps) x")
    case False
    with getEntry_fails [OF mok] obtain err where err: "getEntry Y m (p0 # ps) = Inl err" by blast
    from False lk(2) have "kv_get B (ps_db s') (buildEntryKey (Key sc) (e_Name m) (p0 # ps)) = None" by blast
    with m(2) ih err show ?thesis by (simp del: getEntry.simps)
  next
    case True
    then obtain x where x: "data_path Y m (p0 # ps) x" by blast
    with lk(2) obtain b where b: "kv_get B (ps_db s') (buildEntryKey (Key sc) (e_Name m) (p0 # ps)) = Some b" by auto
    from this [unfolded lk(1)] obtain x' se' where se: "data_path Y m (p0 # ps) x'"
      "SchemaElemFromYEntry n Y sc x' True = Some (Inr se')" "pb_marshal B se' = Inr b" by blast
    have "pb_unmarshal B b = Inr se'" using assms(2) se(3) by (simp add: codec_ok_def)
    moreover have "getEntry Y m (p0 # ps) = Inr x'" by (rule getEntry_complete [OF se(1) mm])
    ultimately show ?thesis using m(2) b se(2) by (auto simp del: getEntry.simps)
  qed
qed simp

lemma getFromDB_GetEntry:
  assumes "kv_ok B" "codec_ok B" "schemaOk Y r" "sc_root sc = Some r" "ps_AddSchema n Y B s sc = Some (Inr (s', sc'))"
    and pe: "list_all (\<lambda>p. colon \<notin> set p \<and> slash \<notin> set p) (p0 # ps)"
    and fresh: "\<And>p ps. kv_get B (ps_db s) (buildEntryKey (Key sc) p ps) = None"
    and p0: "map_of (e_Dir (Ptr r [])) p0 = None"
  shows "getFromDB B (ps_db s') (Key sc) p0 ps = Inr se \<longleftrightarrow>
    (\<exists>e. GetEntry Y sc (p0 # ps) = Inr e \<and> SchemaElemFromYEntry n Y sc e True = Some (Inr se))"
proof -
  let ?ms = "sort_by modLess (e_children (Ptr r []))"
  have c: "colon \<notin> set p0" using pe by simp
  then have cut: "cutFirst p0 = (p0, p0, False)" by (simp add: cutFirst_def)
  from kv_root [OF assms(1,3-5)] obtain b rse where
    b: "kv_get B (ps_db s') (buildEntryKey (Key sc) RootName []) = Some b" "pb_marshal B rse = Inr b"
    and rse: "SchemaElemFromYEntry n Y sc (Ptr r []) True = Some (Inr rse)" by blast
  from root_elem [OF assms(3) rse] obtain rc where rc: "rse = Container rc"
    "c_Children rc = sort (map e_Name (e_children (Ptr r [])))" by blast
  have "pb_unmarshal B b = Inr rse" using assms(2) b(2) by (simp add: codec_ok_def)
  then have mods: "getModules B (ps_db s') (Key sc) = Inr (sort (map e_Name (e_children (Ptr r []))))"
    using b(1) rc by (simp add: getModules_def)
  have "getFromDB B (ps_db s') (Key sc) p0 ps = firstModule B (ps_db s') (Key sc) p0 ps (map e_Name ?ms)"
    using cut mods modules_sorted [OF assms(3)] by (simp add: getFromDB_def)
  moreover have "p0 \<notin> e_Name ` set ?ms"
  proof
    assume "p0 \<in> e_Name ` set ?ms"
    then have "p0 \<in> set (map e_Name (e_children (Ptr r [])))" by auto
    also have "map e_Name (e_children (Ptr r [])) = map fst (e_Dir (Ptr r []))"
      using rootOk_names [of Y r] assms(3) unfolding schemaOk_def by blast
    finally show False using p0 by (auto simp: map_of_eq_None_iff)
  qed
  ultimately show ?thesis
    using firstModule_firstEntry [OF assms(1-5) pe fresh, of ?ms se] GetEntry_modules [OF assms(3,4) c p0, of ps] by simp
qed


text \<open>A concrete backend: an association list, values that are their own encoding and a cache
  that is one too.\<close>

type_synonym fx_value = "schema_elem + (string \<times> string list) list"
type_synonym fx_db = "(string \<times> fx_value) list"
type_synonym fx_cache = "(cache_key \<times> schema_elem) list"

definition fxBackend :: "(fx_db, fx_value, fx_cache) backend" where
  "fxBackend = \<lparr>kv_get = map_of, kv_flush = (\<lambda>d b. Inr (rev b @ d)),
     kv_dropPrefix = (\<lambda>d ps. Inr (filter (\<lambda>(k, v). \<not> list_ex (\<lambda>p. hasPrefix k p) ps) d)),
     kv_scan = (\<lambda>d p. filter (\<lambda>k. hasPrefix k p) (remdups (map fst d))),
     pb_marshal = (\<lambda>x. Inr (Inl x)), pb_unmarshal = (\<lambda>b. case b of Inl x \<Rightarrow> Inr x | Inr _ \<Rightarrow> Inl (Errorf ''bad'' [])),
     js_marshal = (\<lambda>x. Inr (Inr x)), js_unmarshal = (\<lambda>b. case b of Inr x \<Rightarrow> Inr x | Inl _ \<Rightarrow> Inl (Errorf ''bad'' [])),
     ca_get = map_of, ca_set = (\<lambda>c k v. (k, v) # c)\<rparr>"

lemma map_of_filter_key: "map_of (filter (\<lambda>(k, v). P k) d) k = (if P k then map_of d k else None)"
  by (induction d) auto

lemma fxBackend_ok: "backend_ok fxBackend"
proof -
  have scan: "(map_of d k \<noteq> None) = (k \<in> fst ` set d)" for d :: fx_db and k by (simp add: map_of_eq_None_iff)
  have "kv_ok fxBackend"
    unfolding kv_ok_def fxBackend_def
    by (auto simp: map_of_filter_key list_ex_iff hasPrefix_prefix map_add_def scan [symmetric] simp del: map_of_eq_None_iff
        split: option.split)
  then show ?thesis by (auto simp: backend_ok_def codec_ok_def cache_ok_def fxBackend_def split: if_splits)
qed

definition fxStore :: "(fx_db, fx_cache) persistStore" where
  "fxStore = \<lparr>ps_cacheWithDescription = True, ps_readOnly = False, ps_db = [], ps_cache = None\<rparr>"

definition fxGet :: get_req where
  "fxGet = \<lparr>gr_Schema = Some (Key fxSchema), gr_Path = Some \<lparr>p_Origin = [], p_Target = [], p_Elem =
      [\<lparr>pe_Name = ''host'', pe_Key = []\<rparr>, \<lparr>pe_Name = ''detail-list'', pe_Key = [(''id'', ''7'')]\<rparr>]\<rparr>,
     gr_WithDescription = True\<rparr>"

lemma fxStore_add: "\<exists>s' sc'. ps_AddSchema 2 kindApi fxBackend fxStore fxSchema = Some (Inr (s', sc'))"
proof -
  have "map_option (map_sum (\<lambda>_. ()) (\<lambda>_. ())) (ps_AddSchema 2 kindApi fxBackend fxStore fxSchema) = Some (Inr ())"
    by code_simp
  then show ?thesis by (cases "ps_AddSchema 2 kindApi fxBackend fxStore fxSchema" rule: run_cases) auto
qed

lemma fxSchema_ok: "schemaOk kindApi fxRoot" "sc_root fxSchema = Some fxRoot"
  by code_simp+


section \<open>Catalogue properties\<close>

lemma splitN3_key:
  assumes "CHR ''@'' \<notin> set a" "CHR ''@'' \<notin> set b"
  shows "splitN3 (CHR ''@'') (a @ ''@'' @ b @ ''@'' @ c) = [a, b, c]"
  using assms by (simp add: splitN3_def splitN2_def str_index_append)

lemma splitN3_concat:
  assumes "splitN3 (CHR ''@'') s = [a, b, c]"
  shows "s = a @ ''@'' @ b @ ''@'' @ c"
proof -
  from assms obtain i where i: "str_index (CHR ''@'') s = Some i" "a = take i s"
    "splitN2 (CHR ''@'') (drop (Suc i) s) = [b, c]"
    by (auto simp: splitN3_def split: option.splits)
  then obtain j where j: "str_index (CHR ''@'') (drop (Suc i) s) = Some j" "b = take j (drop (Suc i) s)"
    "c = drop (Suc j) (drop (Suc i) s)"
    by (auto simp: splitN2_def split: option.splits)
  show ?thesis using str_index_Some [OF i(1)] str_index_Some [OF j(1)] i(2) j(2,3) by simp
qed

lemma ps_List_Has:
  assumes "kv_ok B" "CHR ''@'' \<notin> set (sk_Name k)" "CHR ''@'' \<notin> set (sk_Vendor k)"
  shows "k \<in> set (ps_ListSchema B s) \<longleftrightarrow> ps_HasSchema B s k"
proof -
  have scan: "set (kv_scan B (ps_db s) [schemasPrefix]) = {x. prefix [schemasPrefix] x \<and> kv_get B (ps_db s) x \<noteq> None}"
    using assms(1) by (simp add: kv_ok_def)
  let ?f = "\<lambda>x. case splitN3 (CHR ''@'') (tl x) of
         [p0, p1, p2] \<Rightarrow> [\<lparr>sk_Name = p0, sk_Vendor = p1, sk_Version = p2\<rparr>] | _ \<Rightarrow> []"
  have own: "?f (buildSchemaKey k) = [k]"
    using splitN3_key [OF assms(2,3)] by (simp add: buildSchemaKey_def schemaKeyString_def)
  have origin: "x = buildSchemaKey k" if "prefix [schemasPrefix] x" "k \<in> set (?f x)" for x
  proof -
    from that(2) obtain a b c where abc: "splitN3 (CHR ''@'') (tl x) = [a, b, c]"
      "k = \<lparr>sk_Name = a, sk_Vendor = b, sk_Version = c\<rparr>"
      by (auto split: list.splits) metis
    from that(1) have "x = schemasPrefix # tl x" by (cases x) auto
    with splitN3_concat [OF abc(1)] abc(2) show ?thesis by (simp add: buildSchemaKey_def schemaKeyString_def)
  qed
  have pre: "prefix [schemasPrefix] (buildSchemaKey k)" by (simp add: buildSchemaKey_def)
  have "k \<in> set (ps_ListSchema B s) \<longleftrightarrow> (\<exists>x. prefix [schemasPrefix] x \<and> kv_get B (ps_db s) x \<noteq> None \<and> k \<in> set (?f x))"
    unfolding ps_ListSchema_def set_concat set_map scan by blast
  also have "\<dots> \<longleftrightarrow> kv_get B (ps_db s) (buildSchemaKey k) \<noteq> None"
    using own origin pre by (metis list.set_intros(1))
  finally show ?thesis by (simp add: ps_HasSchema_def)
qed

text \<open>Listing and asking agree. \<open>ListSchema\<close> takes the stored keys apart at the first two
  \<open>@\<close> signs; for every key whose name and vendor contain none it lists the key exactly if
  \<open>HasSchema\<close> knows it, so no schema is lost or invented.\<close>

theorem ps_List_iff_Has:
  assumes "kv_ok B" "CHR ''@'' \<notin> set (sk_Name k)" "CHR ''@'' \<notin> set (sk_Vendor k)"
  shows "k \<in> set (ps_ListSchema B s) \<longleftrightarrow> ps_HasSchema B s k"
  by (rule ps_List_Has [OF assms])

theorem ps_List_iff_Has_witness:
  "\<exists>s' sc'. ps_AddSchema 2 kindApi fxBackend fxStore fxSchema = Some (Inr (s', sc')) \<and>
     Key fxSchema \<in> set (ps_ListSchema fxBackend s')"
proof -
  obtain s' sc' where a: "ps_AddSchema 2 kindApi fxBackend fxStore fxSchema = Some (Inr (s', sc'))"
    using fxStore_add by blast
  have ok: "kv_ok fxBackend" using fxBackend_ok by (simp add: backend_ok_def)
  have "ps_HasSchema fxBackend s' (Key fxSchema)" by (rule ps_HasSchema_AddSchema [OF ok fxSchema_ok a])
  moreover have "Key fxSchema \<in> set (ps_ListSchema fxBackend s') \<longleftrightarrow> ps_HasSchema fxBackend s' (Key fxSchema)"
    by (rule ps_List_iff_Has [OF ok]) (simp_all add: Key_def fxSchema_def)
  ultimately show ?thesis using a by blast
qed

lemma ps_Delete_get:
  assumes "kv_ok B" "ps_DeleteSchema B s (Some k) = Inr s'"
  shows "kv_get B (ps_db s') x =
    (if prefix (buildEntryKey k [] []) x \<or> prefix (buildSchemaKey k) x then None else kv_get B (ps_db s) x) \<and>
    ps_cache s' = ps_cache s"
proof -
  from assms(2) obtain db where db: "kv_dropPrefix B (ps_db s) [buildEntryKey k [] [], buildSchemaKey k] = Inr db"
    "s' = s\<lparr>ps_db := db\<rparr>"
    by (auto simp: ps_DeleteSchema_def split: if_splits)
  with assms(1) have "kv_get B db x = (if \<exists>p\<in>set [buildEntryKey k [] [], buildSchemaKey k]. prefix p x then None else kv_get B (ps_db s) x)"
    unfolding kv_ok_def by blast
  with db(2) show ?thesis by simp
qed

text \<open>Two versions of one schema in the database.\<close>

definition fxVersion :: "string \<Rightarrow> schema_key" where
  "fxVersion v = \<lparr>sk_Name = ''lrc'', sk_Vendor = ''test'', sk_Version = v\<rparr>"

definition fxVersions :: "(fx_db, fx_cache) persistStore" where
  "fxVersions = fxStore\<lparr>ps_db := [(buildSchemaKey (fxVersion ''22.1''), Inr []), (buildSchemaKey (fxVersion ''22.11''), Inr []),
     (buildSchemaKey (fxVersion ''23.1''), Inr [])]\<rparr>"

lemma fxVersions_delete:
  "\<exists>s'. ps_DeleteSchema fxBackend fxVersions (Some (fxVersion ''22.1'')) = Inr s'"
  by (simp add: ps_DeleteSchema_def checkKey_def ps_HasSchema_def fxVersions_def fxVersion_def fxBackend_def)

text \<open>C25: deleting a schema removes all of it. After \<open>DeleteSchema\<close> the key is unknown and no
  pair of the schema is left in the database, and the records of schemas whose key string does not
  extend the deleted one are untouched.\<close>

theorem ps_DeleteSchema_complete:
  assumes "kv_ok B" "ps_DeleteSchema B s (Some k) = Inr s'"
  shows "\<not> ps_HasSchema B s' k \<and> kv_get B (ps_db s') (buildEntryKey k p ps) = None \<and>
    (\<not> prefix (schemaKeyString k) (schemaKeyString k') \<longrightarrow> ps_HasSchema B s' k' = ps_HasSchema B s k')"
proof -
  have "prefix (buildEntryKey k [] []) (buildEntryKey k p ps)"
    by (simp add: buildEntryKey_def)
  then have "kv_get B (ps_db s') (buildEntryKey k p ps) = None" using ps_Delete_get [OF assms] by simp
  moreover have "\<not> prefix (buildEntryKey k [] []) (buildSchemaKey k')"
    by (simp add: buildEntryKey_def buildSchemaKey_def schemaObjectsPrefix_def schemasPrefix_def)
  moreover have "prefix (buildSchemaKey k) (buildSchemaKey k') \<longleftrightarrow> prefix (schemaKeyString k) (schemaKeyString k')"
    by (simp add: buildSchemaKey_def)
  ultimately show ?thesis using ps_Delete_get [OF assms] by (simp add: ps_HasSchema_def)
qed

theorem ps_DeleteSchema_complete_witness:
  "\<exists>s'. ps_DeleteSchema fxBackend fxVersions (Some (fxVersion ''22.1'')) = Inr s' \<and>
     \<not> ps_HasSchema fxBackend s' (fxVersion ''22.1'') \<and> ps_HasSchema fxBackend s' (fxVersion ''23.1'')"
proof -
  have ok: "kv_ok fxBackend" using fxBackend_ok by (simp add: backend_ok_def)
  obtain s' where d: "ps_DeleteSchema fxBackend fxVersions (Some (fxVersion ''22.1'')) = Inr s'"
    using fxVersions_delete by blast
  have "\<not> prefix (schemaKeyString (fxVersion ''22.1'')) (schemaKeyString (fxVersion ''23.1''))"
    "ps_HasSchema fxBackend fxVersions (fxVersion ''23.1'')"
    by (simp_all add: schemaKeyString_def fxVersion_def ps_HasSchema_def fxBackend_def fxVersions_def)
  with ps_DeleteSchema_complete [OF ok d, of "[]" "[]" "fxVersion ''23.1''"] d show ?thesis by blast
qed

text \<open>C34: deleting a version also forgets the versions it is a prefix of. The catalogue record is
  dropped by prefix and the key string has no terminator: deleting version \<open>v\<close> makes version
  \<open>v @ x\<close> of the same schema (say 22.1 and 22.11) unknown, while its nodes stay in the
  database.\<close>

theorem ps_DeleteSchema_prefix_version:
  assumes "kv_ok B" "ps_DeleteSchema B s (Some k) = Inr s'" "x \<noteq> []" "hd x \<noteq> colon"
  shows "\<not> ps_HasSchema B s' (k\<lparr>sk_Version := sk_Version k @ x\<rparr>) \<and>
    kv_get B (ps_db s') (buildEntryKey (k\<lparr>sk_Version := sk_Version k @ x\<rparr>) p ps) =
    kv_get B (ps_db s) (buildEntryKey (k\<lparr>sk_Version := sk_Version k @ x\<rparr>) p ps)"
proof -
  let ?k = "k\<lparr>sk_Version := sk_Version k @ x\<rparr>"
  have "prefix (buildSchemaKey k) (buildSchemaKey ?k)" by (simp add: buildSchemaKey_def schemaKeyString_def)
  moreover have "\<not> prefix (buildEntryKey k [] []) (buildEntryKey ?k p ps)"
    using assms(3,4) by (cases x) (auto simp: buildEntryKey_def schemaKeyString_def colon_def)
  moreover have "\<not> prefix (buildSchemaKey k) (buildEntryKey ?k p ps)"
    by (simp add: buildEntryKey_def buildSchemaKey_def schemaObjectsPrefix_def schemasPrefix_def)
  ultimately show ?thesis using ps_Delete_get [OF assms(1,2)] by (simp add: ps_HasSchema_def)
qed

theorem ps_DeleteSchema_prefix_version_witness:
  "\<exists>s'. ps_DeleteSchema fxBackend fxVersions (Some (fxVersion ''22.1'')) = Inr s' \<and>
     ps_HasSchema fxBackend fxVersions (fxVersion ''22.11'') \<and> \<not> ps_HasSchema fxBackend s' (fxVersion ''22.11'')"
proof -
  have ok: "kv_ok fxBackend" using fxBackend_ok by (simp add: backend_ok_def)
  obtain s' where d: "ps_DeleteSchema fxBackend fxVersions (Some (fxVersion ''22.1'')) = Inr s'"
    using fxVersions_delete by blast
  have "ps_HasSchema fxBackend fxVersions (fxVersion ''22.11'')"
    by (simp add: ps_HasSchema_def fxBackend_def fxVersions_def)
  moreover have "\<not> ps_HasSchema fxBackend s' ((fxVersion ''22.1'')\<lparr>sk_Version := sk_Version (fxVersion ''22.1'') @ ''1''\<rparr>)"
    using ps_DeleteSchema_prefix_version [OF ok d, of "''1''"] by (simp add: colon_def)
  then have "\<not> ps_HasSchema fxBackend s' (fxVersion ''22.11'')" by (simp add: fxVersion_def)
  ultimately show ?thesis using d by blast
qed

text \<open>The catalogue cannot tell keys apart that differ only in where an \<open>@\<close> sign stands:
  the schema \<open>a@b\<close> of vendor \<open>c\<close> and the schema \<open>a\<close> of vendor \<open>b@c\<close> are the same
  record.\<close>

theorem ps_HasSchema_at_sign:
  "ps_HasSchema B s \<lparr>sk_Name = a @ ''@'' @ b, sk_Vendor = c, sk_Version = v\<rparr> =
   ps_HasSchema B s \<lparr>sk_Name = a, sk_Vendor = b @ ''@'' @ c, sk_Version = v\<rparr>"
  by (simp add: ps_HasSchema_def buildSchemaKey_def schemaKeyString_def)

section \<open>The cache\<close>

definition cached :: "('d, 'b, 'c) backend \<Rightarrow> ('d, 'c) persistStore \<Rightarrow> schema_key \<Rightarrow> string list \<Rightarrow> schema_elem option" where
  "cached B s sck pes = (case ps_cache s of None \<Rightarrow> None
     | Some c \<Rightarrow> ca_get B c \<lparr>ck_Schema = sck, ck_Path = str_join [slash] pes\<rparr>)"

lemma ps_AddSchema_cache: "ps_AddSchema n Y B s sc = Some (Inr (s', sc')) \<Longrightarrow> ps_cache s' = ps_cache s"
  by (auto simp: ps_AddSchema_def lift_def)

text \<open>C35: reloading a schema does not reach the cache. Whatever the new files say, a path that
  was answered from the database before the reload is still answered with the old element as long as
  the cache holds it.\<close>

theorem ps_reload_stale_cache:
  assumes "ps_ReloadSchema n F L Y B s (Some k) = (s', Some (Inr ()))" "kv_ok B"
    and "cached B s k (ToStrings path False True) = Some v"
  shows "snd (ps_getSchema B s' path True k) = Inr v"
proof -
  from assms(1) obtain s1 sc' where s1: "ps_DeleteSchema B s (Some k) = Inr s1"
    and a: "\<exists>sc. ps_AddSchema n Y B s1 sc = Some (Inr (s', sc'))"
    by (auto simp: ps_ReloadSchema_def split: sum.splits option.splits) blast
  have "ps_cache s1 = ps_cache s" using ps_Delete_get [OF assms(2) s1] by blast
  with a ps_AddSchema_cache have "ps_cache s' = ps_cache s" by metis
  with assms(3) show ?thesis by (auto simp: cached_def ps_getSchema_def Let_def split: option.splits)
qed

definition fxCached :: "(fx_db, fx_cache) persistStore" where
  "fxCached = \<lparr>ps_cacheWithDescription = True, ps_readOnly = False, ps_db = [(buildSchemaKey (Key fxSchema), Inr [])],
     ps_cache = Some [(\<lparr>ck_Schema = Key fxSchema, ck_Path = ''gone''\<rparr>, Container (emptyContainer kindApi fxModulePtr True))]\<rparr>"

theorem ps_reload_stale_cache_witness:
  "\<exists>s'. ps_ReloadSchema 2 fxOs fxLoader kindApi fxBackend fxCached (Some (Key fxSchema)) = (s', Some (Inr ())) \<and>
     snd (ps_getSchema fxBackend s' (Some \<lparr>p_Origin = [], p_Target = [], p_Elem = [\<lparr>pe_Name = ''gone'', pe_Key = []\<rparr>]\<rparr>) True (Key fxSchema)) =
     Inr (Container (emptyContainer kindApi fxModulePtr True))"
proof -
  let ?r = "ps_ReloadSchema 2 fxOs fxLoader kindApi fxBackend fxCached (Some (Key fxSchema))"
  have "map_option (map_sum (\<lambda>_. ()) (\<lambda>_. ())) (snd ?r) = Some (Inr ())" by code_simp
  then have "snd ?r = Some (Inr ())" by (cases "snd ?r" rule: run_cases) auto
  then obtain s' where r: "?r = (s', Some (Inr ()))" by (metis prod.collapse)
  have "snd (ps_getSchema fxBackend s' (Some \<lparr>p_Origin = [], p_Target = [], p_Elem = [\<lparr>pe_Name = ''gone'', pe_Key = []\<rparr>]\<rparr>) True (Key fxSchema)) =
     Inr (Container (emptyContainer kindApi fxModulePtr True))"
    by (rule ps_reload_stale_cache [OF r])
       (use fxBackend_ok in \<open>simp_all add: backend_ok_def cached_def fxCached_def fxBackend_def ToStrings_def\<close>)
  with r show ?thesis by blast
qed

text \<open>C36: a reload that fails late loses the schema. The old pairs are deleted before the new ones
  are written: when the files still load but an element cannot be built or written, \<open>ReloadSchema\<close>
  returns the error and the schema is gone, although it was there before.\<close>

theorem ps_reload_loses_schema:
  assumes "kv_ok B" "ps_GetSchemaDetails B s (Some k) = Inr d"
    and "NewSchema F L Y \<lparr>cfg_Name = sk_Name k, cfg_Vendor = sk_Vendor k, cfg_Version = sk_Version k,
      cfg_Files = dr_File d, cfg_Directories = dr_Directory d, cfg_Excludes = dr_Exclude d\<rparr> = Inr sc"
    and "ps_DeleteSchema B s (Some k) = Inr s1" "ps_AddSchema n Y B s1 sc = Some (Inl err)"
  shows "\<exists>s'. ps_ReloadSchema n F L Y B s (Some k) = (s', Some (Inl err)) \<and> ps_HasSchema B s k \<and>
    \<not> ps_HasSchema B s' k \<and> (\<forall>p ps. kv_get B (ps_db s') (buildEntryKey k p ps) = None)"
proof -
  have "ps_ReloadSchema n F L Y B s (Some k) = (s1, Some (Inl err))"
    using assms(2-5) by (simp add: ps_ReloadSchema_def keyOf_def)
  moreover have "ps_HasSchema B s k" using assms(4) by (auto simp: ps_DeleteSchema_def split: if_splits)
  moreover have "\<not> ps_HasSchema B s1 k" using ps_Delete_get [OF assms(1,4)] by (simp add: ps_HasSchema_def)
  moreover have "kv_get B (ps_db s1) (buildEntryKey k p ps) = None" for p ps
    using ps_Delete_get [OF assms(1,4)] by (simp add: buildEntryKey_def)
  ultimately show ?thesis by blast
qed

text \<open>A database that refuses to write, say because the disk is full.\<close>

definition fxFull :: "(fx_db, fx_value, fx_cache) backend" where
  "fxFull = fxBackend\<lparr>kv_flush := (\<lambda>d b. Inl (Errorf ''full'' []))\<rparr>"

theorem ps_reload_loses_schema_witness:
  "\<exists>s' err. ps_ReloadSchema 2 fxOs fxLoader kindApi fxFull fxCached (Some (Key fxSchema)) = (s', Some (Inl err)) \<and>
     ps_HasSchema fxFull fxCached (Key fxSchema) \<and> \<not> ps_HasSchema fxFull s' (Key fxSchema)"
proof -
  let ?k = "Key fxSchema"
  let ?d = "\<lparr>dr_Schema = ?k, dr_File = [], dr_Directory = [], dr_Exclude = []\<rparr>"
  let ?n = "NewSchema fxOs fxLoader kindApi \<lparr>cfg_Name = sk_Name ?k, cfg_Vendor = sk_Vendor ?k, cfg_Version = sk_Version ?k,
      cfg_Files = dr_File ?d, cfg_Directories = dr_Directory ?d, cfg_Excludes = dr_Exclude ?d\<rparr>"
  let ?del = "ps_DeleteSchema fxFull fxCached (Some ?k)"
  have ok: "kv_ok fxFull" using fxBackend_ok by (simp add: backend_ok_def kv_ok_def fxFull_def)
  have d: "ps_GetSchemaDetails fxFull fxCached (Some ?k) = Inr ?d"
    by (simp add: ps_GetSchemaDetails_def fxFull_def fxBackend_def fxCached_def keyOf_def cfgField_def)
  have "map_sum (\<lambda>_. ()) (\<lambda>sc. map_sum (\<lambda>_. ()) (\<lambda>s1. map_option (map_sum (\<lambda>_. ()) (\<lambda>_. ())) (ps_AddSchema 2 kindApi fxFull s1 sc)) ?del) ?n =
      Inr (Inr (Some (Inl ())))" by code_simp
  then obtain sc s1 where sc: "?n = Inr sc" "?del = Inr s1"
    and a: "map_option (map_sum (\<lambda>_. ()) (\<lambda>_. ())) (ps_AddSchema 2 kindApi fxFull s1 sc) = Some (Inl ())"
    by (cases ?n; cases ?del) auto
  from a obtain err where "ps_AddSchema 2 kindApi fxFull s1 sc = Some (Inl err)"
    by (cases "ps_AddSchema 2 kindApi fxFull s1 sc" rule: run_cases) auto
  from ps_reload_loses_schema [OF ok d sc this] show ?thesis by blast
qed

text \<open>The answer to a request without description depends on whether it was asked before. In
  a store whose cache keeps descriptions, the first request is answered from the database with the
  description and only a repeated one without.\<close>

theorem ps_description_inconsistent:
  assumes "ps_cache s = Some c" "ps_cacheWithDescription s" "cached B s k pes = None"
    and "ToStrings path False True = pes" "pes \<noteq> []" "pes \<noteq> [[]]"
    and "getFromDB B (ps_db s) k (hd pes) (tl pes) = Inr se"
    and "ca_get B (ca_set B c \<lparr>ck_Schema = k, ck_Path = str_join [slash] pes\<rparr> se)
           \<lparr>ck_Schema = k, ck_Path = str_join [slash] pes\<rparr> = Some se"
  shows "snd (ps_getSchema B s path False k) = Inr se \<and>
    snd (ps_getSchema B (fst (ps_getSchema B s path False k)) path False k) = Inr (removeDescription se)"
  using assms by (simp add: ps_getSchema_def cached_def Let_def)

theorem ps_description_inconsistent_witness:
  "\<exists>s se. snd (ps_getSchema fxBackend s (gr_Path fxGet) False (Key fxSchema)) = Inr se \<and>
     snd (ps_getSchema fxBackend (fst (ps_getSchema fxBackend s (gr_Path fxGet) False (Key fxSchema))) (gr_Path fxGet) False (Key fxSchema)) =
     Inr (removeDescription se)"
proof -
  obtain s' sc' where a: "ps_AddSchema 2 kindApi fxBackend fxStore fxSchema = Some (Inr (s', sc'))"
    using fxStore_add by blast
  let ?pes = "[''host'', ''detail-list'']" and ?s = "s'\<lparr>ps_cache := Some []\<rparr>"
  have p: "ToStrings (gr_Path fxGet) False True = ?pes" by (simp add: fxGet_def ToStrings_def)
  have wd: "ps_cacheWithDescription ?s"
    using a by (auto simp: ps_AddSchema_def lift_def fxStore_def)
  have "map_option (map_sum (\<lambda>_. ()) (\<lambda>(s, _). map_sum (\<lambda>_. ()) (\<lambda>_. ()) (getFromDB fxBackend (ps_db s) (Key fxSchema) (hd ?pes) (tl ?pes))))
     (ps_AddSchema 2 kindApi fxBackend fxStore fxSchema) = Some (Inr (Inr ()))" by code_simp
  then obtain se where se: "getFromDB fxBackend (ps_db s') (Key fxSchema) (hd ?pes) (tl ?pes) = Inr se"
    using a by (cases "getFromDB fxBackend (ps_db s') (Key fxSchema) (hd ?pes) (tl ?pes)") auto
  have "snd (ps_getSchema fxBackend ?s (gr_Path fxGet) False (Key fxSchema)) = Inr se \<and>
     snd (ps_getSchema fxBackend (fst (ps_getSchema fxBackend ?s (gr_Path fxGet) False (Key fxSchema))) (gr_Path fxGet) False (Key fxSchema)) =
     Inr (removeDescription se)"
    by (rule ps_description_inconsistent [OF _ wd _ p]) (use se in \<open>simp_all add: cached_def fxBackend_def\<close>)
  then show ?thesis by blast
qed

end
