(* ===== verification/PersistPaths.thy ===== *)
theory PersistPaths
  imports PersistStore
begin

text \<open>
  The path operations of \<open>persiststore.go\<close>: \<open>ToPath\<close>, \<open>ExpandPath\<close> with \<open>addPath\<close>, and
  \<open>GetSchemaElements\<close>. They work on stored schema elements only. Each call of \<open>getSchema\<close>
  may fill the cache, so every operation returns the store it leaves.
\<close>

section \<open>Operations\<close>

text \<open>The loop over the keys of a list: key \<open>k\<close> gets the element after the current one, which
  the code reads without a bounds check.\<close>

primrec keyValues :: "string list \<Rightarrow> string list \<Rightarrow> nat \<Rightarrow> (string \<times> string) list \<Rightarrow> (nat \<times> (string \<times> string) list) res" where
  "keyValues els [] i m = Inr (i, m)"
| "keyValues els (k # ks) i m =
     (if Suc i < length els then keyValues els ks (Suc i) (AList.update k (els ! Suc i) m)
      else Inl (GoPanic ''index out of range''))"

lemma keyValues_index: "keyValues els ks i m = Inr (i', m') \<Longrightarrow> i' = i + length ks"
proof (induction ks arbitrary: i m)
  case (Cons k ks)
  then have "keyValues els ks (Suc i) (AList.update k (els ! Suc i) m) = Inr (i', m')" by (simp split: if_splits)
  with Cons.IH show ?case by fastforce
qed simp

text \<open>\<open>elems\<close> is the path built so far, \<open>i\<close> the index of the next element. The loop stops at
  the last element.\<close>

function toPathLoop :: "('d, 'b, 'c) backend \<Rightarrow> schema_key \<Rightarrow> string list \<Rightarrow> ('d, 'c) persistStore \<Rightarrow> nat \<Rightarrow> PathElem list \<Rightarrow>
    ('d, 'c) persistStore \<times> (nat \<times> PathElem list) res" where
  "toPathLoop B sck els s i elems =
     (if i \<ge> length els then (s, Inr (i, elems))
      else if i \<ge> length els - 1 then (s, Inr (i, elems @ [\<lparr>pe_Name = els ! i, pe_Key = []\<rparr>]))
      else
        (case ps_getSchema B s (Some \<lparr>p_Origin = [], p_Target = [], p_Elem = elems @ [\<lparr>pe_Name = els ! i, pe_Key = []\<rparr>]\<rparr>) False sck of
           (s1, Inl err) \<Rightarrow> (s1, Inl err)
         | (s1, Inr (Container c)) \<Rightarrow>
             (case keyValues els (map l_Name (c_Keys c)) i [] of
                Inl err \<Rightarrow> (s1, Inl err)
              | Inr (i', m) \<Rightarrow> toPathLoop B sck els s1 (Suc i') (elems @ [\<lparr>pe_Name = els ! i, pe_Key = m\<rparr>]))
         | (s1, Inr (Field f)) \<Rightarrow> toPathLoop B sck els s1 (Suc i) (elems @ [\<lparr>pe_Name = els ! i, pe_Key = []\<rparr>])
         | (s1, Inr (Leaflist l)) \<Rightarrow>
             toPathLoop B sck els s1 (Suc (Suc i)) (elems @ [\<lparr>pe_Name = els ! i, pe_Key = [(els ! i, els ! Suc i)]\<rparr>])))"
  by pat_completeness auto
termination
  by (relation "measure (\<lambda>(B, sck, els, s, i, elems). length els - i)") (auto dest!: keyValues_index)

declare toPathLoop.simps [simp del]

definition ps_ToPath :: "('d, 'b, 'c) backend \<Rightarrow> ('d, 'c) persistStore \<Rightarrow> topath_req \<Rightarrow> ('d, 'c) persistStore \<times> Path res" where
  "ps_ToPath B s req =
     (case tp_Schema req of
        None \<Rightarrow> (s, Inl missingSchema)
      | Some sck \<Rightarrow>
          if \<not> ps_HasSchema B s sck then (s, Inl (StatusErr InvalidArgument ''unknown schema %v'' [SchemaKey_String sck]))
          else
            (case toPathLoop B sck (tp_PathElement req) s 0 [] of
               (s1, Inl err) \<Rightarrow> (s1, Inl err)
             | (s1, Inr (i, elems)) \<Rightarrow>
                 if length (tp_PathElement req) - 1 > i
                 then (s1, Inl (Errorf ''unknown PathElement(s): %s'' (drop i (tp_PathElement req))))
                 else
                   (let p = \<lparr>p_Origin = [], p_Target = [], p_Elem = elems\<rparr> in
                    case ps_getSchema B s1 (Some p) False sck of
                      (s2, Inl err) \<Rightarrow> (s2, Inl err)
                    | (s2, Inr _) \<Rightarrow> (s2, Inr p))))"

definition addPath :: "expand_rsp \<Rightarrow> Path \<Rightarrow> data_type \<Rightarrow> bool \<Rightarrow> bool \<Rightarrow> expand_rsp" where
  "addPath rsp p dt isSt xpath =
     (if (case dt of DT_ALL \<Rightarrow> False | DT_CONFIG \<Rightarrow> isSt | DT_STATE \<Rightarrow> \<not> isSt) then rsp
      else if xpath then ExpandRsp (ex_Path rsp) (ex_Xpath rsp @ [ToXPath (Some p) False])
      else ExpandRsp (ex_Path rsp @ [p]) (ex_Xpath rsp))"

text \<open>The wildcards for the keys of the last element; with keys but no element the index is out of
  range.\<close>

definition starLast :: "string list \<Rightarrow> Path \<Rightarrow> Path res" where
  "starLast keys p =
     (if keys = [] then Inr p
      else if p_Elem p = [] then Inl (GoPanic ''index out of range'')
      else Inr (p\<lparr>p_Elem := butlast (p_Elem p) @
        [(last (p_Elem p))\<lparr>pe_Key := fold (\<lambda>k m. AList.update k ''*'' m) keys (pe_Key (last (p_Elem p)))\<rparr>]\<rparr>))"

definition childPath :: "Path \<Rightarrow> string \<Rightarrow> Path" where
  "childPath p n = p\<lparr>p_Elem := p_Elem p @ [\<lparr>pe_Name = n, pe_Key = []\<rparr>]\<rparr>"

text \<open>\<open>ExpandPath\<close> calls itself for the children the stored element names; the fuel bounds the
  depth. A nil path is cloned into nil and dereferenced; it asks for the root, which is stored as a
  container, so this is the only branch it can reach.\<close>

primrec ps_ExpandPath :: "nat \<Rightarrow> ('d, 'b, 'c) backend \<Rightarrow> ('d, 'c) persistStore \<Rightarrow> expand_req \<Rightarrow>
    ('d, 'c) persistStore \<times> expand_rsp run" where
  "ps_ExpandPath 0 B s req = (s, None)"
| "ps_ExpandPath (Suc n) B s req =
     (case ps_GetSchema B s \<lparr>gr_Schema = er_Schema req, gr_Path = er_Path req, gr_WithDescription = False\<rparr> of
        (s1, Inl err) \<Rightarrow> (s1, Some (Inl err))
      | (s1, Inr se) \<Rightarrow>
          (case er_Path req of
             None \<Rightarrow> (s1, Some (Inl nilDeref))
           | Some p \<Rightarrow>
               (case se of
                  Field f \<Rightarrow> (s1, Some (Inr (addPath (ExpandRsp [] []) p (er_DataType req) (l_IsState f) (er_Xpath req))))
                | Leaflist l \<Rightarrow> (s1, Some (Inr (addPath (ExpandRsp [] []) p (er_DataType req) (ll_IsState l) (er_Xpath req))))
                | Container c \<Rightarrow>
                    (case starLast (map l_Name (c_Keys c)) p of
                       Inl err \<Rightarrow> (s1, Some (Inl err))
                     | Inr pp \<Rightarrow>
                         (let r1 = fold (\<lambda>f r. addPath r (childPath pp (l_Name f)) (er_DataType req) (l_IsState f) (er_Xpath req))
                                     (c_Fields c) (ExpandRsp [] []);
                              r2 = fold (\<lambda>l r. addPath r (childPath pp (ll_Name l)) (er_DataType req) (ll_IsState l) (er_Xpath req))
                                     (c_Leaflists c) r1 in
                          fold (\<lambda>child (s, acc).
                              case acc of
                                Some (Inr r) \<Rightarrow>
                                  (case ps_ExpandPath n B s (req\<lparr>er_Path := Some (childPath pp child)\<rparr>) of
                                     (s', Some (Inr r')) \<Rightarrow>
                                       (s', Some (Inr (ExpandRsp (ex_Path r @ ex_Path r') (ex_Xpath r @ ex_Xpath r'))))
                                   | (s', e) \<Rightarrow> (s', e))
                              | e \<Rightarrow> (s, e))
                            (c_Children c) (s1, Some (Inr r2)))))))"

text \<open>The elements sent for the prefixes of the path; a lookup that fails is sent as nil.\<close>

primrec prefixElems :: "('d, 'b, 'c) backend \<Rightarrow> schema_key \<Rightarrow> bool \<Rightarrow> PathElem list \<Rightarrow> PathElem list \<Rightarrow>
    ('d, 'c) persistStore \<Rightarrow> ('d, 'c) persistStore \<times> schema_elem option list" where
  "prefixElems B sck wd pre [] s = (s, [])"
| "prefixElems B sck wd pre (pe # pes) s =
     (let pre' = pre @ [\<lparr>pe_Name = pe_Name pe, pe_Key = []\<rparr>];
          (s1, r) = ps_getSchema B s (Some \<lparr>p_Origin = [], p_Target = [], p_Elem = pre'\<rparr>) wd sck;
          (s2, rs) = prefixElems B sck wd pre' pes s1 in
      (s2, (case r of Inl _ \<Rightarrow> None | Inr se \<Rightarrow> Some se) # rs))"

definition ps_GetSchemaElements :: "('d, 'b, 'c) backend \<Rightarrow> ('d, 'c) persistStore \<Rightarrow> get_req \<Rightarrow>
    ('d, 'c) persistStore \<times> schema_elem option list res" where
  "ps_GetSchemaElements B s req =
     (case gr_Schema req of
        None \<Rightarrow> (s, Inl missingSchema)
      | Some sck \<Rightarrow>
          if \<not> ps_HasSchema B s sck then (s, Inl (StatusErr InvalidArgument ''unknown schema %v'' [SchemaKey_String sck]))
          else
            (case ps_getSchema B s (gr_Path req) (gr_WithDescription req) sck of
               (s1, Inl err) \<Rightarrow> (s1, Inl err)
             | (s1, Inr rsp) \<Rightarrow>
                 (let es = (case gr_Path req of None \<Rightarrow> [] | Some p \<Rightarrow> p_Elem p) in
                  if length es = 1 then (s1, Inr [Some rsp])
                  else (let (s2, rs) = prefixElems B sck (gr_WithDescription req) [] es s1 in (s2, Inr rs)))))"


section \<open>Keys of a list element\<close>

lemma keyValues_panic: "length els \<le> i + length ks \<Longrightarrow> ks \<noteq> [] \<Longrightarrow> \<exists>x. keyValues els ks i m = Inl (GoPanic x)"
proof (induction ks arbitrary: i m)
  case (Cons k ks)
  show ?case
  proof (cases "Suc i < length els")
    case True
    with Cons.prems have "ks \<noteq> []" "length els \<le> Suc i + length ks" by auto
    with Cons.IH True show ?thesis by simp
  qed simp
qed simp

lemma keyValues_zip:
  "distinct (map fst m @ ks) \<Longrightarrow> i + length ks < length els \<Longrightarrow>
   keyValues els ks i m = Inr (i + length ks, m @ zip ks (drop (Suc i) els))"
proof (induction ks arbitrary: i m)
  case (Cons k ks)
  have "AList.update k (els ! Suc i) m = m @ [(k, els ! Suc i)]"
    using Cons.prems(1) by (intro update_new) auto
  moreover have "drop (Suc i) els = els ! Suc i # drop (Suc (Suc i)) els"
    using Cons.prems(2) by (simp add: Cons_nth_drop_Suc)
  ultimately show ?case using Cons.IH [of "m @ [(k, els ! Suc i)]" "Suc i"] Cons.prems by simp
qed simp

lemma getSchema_uncached: "ps_cache s = None \<Longrightarrow> fst (ps_getSchema B s path wd sck) = s"
  by (auto simp: ps_getSchema_def Let_def split: sum.split)

text \<open>A schema with a list whose key statement is not in the order of the names.\<close>

definition fxTwoKeys :: entry where
  "fxTwoKeys = fxList ''l'' ''z a'' [fxLeaf ''z'' fxString, fxLeaf ''a'' fxString, fxLeaf ''x'' fxString]"

definition fxSchema3 :: schema where
  "fxSchema3 = fxSchema\<lparr>sc_root := Some (Entry (attrs fxRoot) (Some [(''lrc'', Entry (attrs fxModule) (Some [(''l'', fxTwoKeys)]))]))\<rparr>"

lemma fxSchema3_stored:
  "\<exists>s c. ps_HasSchema fxBackend s (Key fxSchema3) \<and> ps_cache s = None \<and>
     snd (ps_getSchema fxBackend s (Some \<lparr>p_Origin = [], p_Target = [], p_Elem = [\<lparr>pe_Name = ''l'', pe_Key = []\<rparr>]\<rparr>) False (Key fxSchema3)) =
       Inr (Container c) \<and> map l_Name (c_Keys c) = [''z'', ''a'']"
proof -
  let ?a = "ps_AddSchema 2 kindApi fxBackend fxStore fxSchema3"
  let ?p = "Some \<lparr>p_Origin = [], p_Target = [], p_Elem = [\<lparr>pe_Name = ''l'', pe_Key = []\<rparr>]\<rparr>"
  have "map_option (map_sum (\<lambda>_. ()) (\<lambda>(s, _). (ps_HasSchema fxBackend s (Key fxSchema3), Option.is_none (ps_cache s),
       map_sum (\<lambda>_. ()) (\<lambda>se. case se of Container c \<Rightarrow> map l_Name (c_Keys c) | _ \<Rightarrow> [])
         (snd (ps_getSchema fxBackend s ?p False (Key fxSchema3)))))) ?a = Some (Inr (True, True, Inr [''z'', ''a'']))"
    by code_simp
  then obtain s se where s: "ps_HasSchema fxBackend s (Key fxSchema3)" "ps_cache s = None"
    "snd (ps_getSchema fxBackend s ?p False (Key fxSchema3)) = Inr se"
    "(case se of Container c \<Rightarrow> map l_Name (c_Keys c) | _ \<Rightarrow> []) = [''z'', ''a'']"
    by (cases ?a rule: run_cases) (auto simp: Option.is_none_def map_sum_def split: sum.splits)
  from s(4) obtain c where "se = Container c" "map l_Name (c_Keys c) = [''z'', ''a'']" by (cases se) auto
  with s show ?thesis by (intro exI [of _ s] exI [of _ c]) simp
qed

text \<open>A list given with some but not all of its keys crashes \<open>ToPath\<close>. When the
  elements end inside the keys of a list, the code reads past the end of the element slice: the
  handler panics, where the in-memory store returns the path with the keys that were given.\<close>

lemma ps_ToPath_partial_keys_panics:
  assumes "tp_Schema req = Some sck" "ps_HasSchema B s sck" "tp_PathElement req = n # v # vs"
    and "snd (ps_getSchema B s (Some \<lparr>p_Origin = [], p_Target = [], p_Elem = [\<lparr>pe_Name = n, pe_Key = []\<rparr>]\<rparr>) False sck) =
      Inr (Container c)"
    and "length (n # v # vs) \<le> length (c_Keys c)"
  shows "\<exists>x. snd (ps_ToPath B s req) = Inl (GoPanic x)"
proof -
  obtain s1 where g: "ps_getSchema B s (Some \<lparr>p_Origin = [], p_Target = [], p_Elem = [\<lparr>pe_Name = n, pe_Key = []\<rparr>]\<rparr>) False sck =
      (s1, Inr (Container c))" using assms(4) by (metis prod.collapse)
  have "\<exists>x. keyValues (n # v # vs) (map l_Name (c_Keys c)) 0 [] = Inl (GoPanic x)"
    by (rule keyValues_panic) (use assms(5) in auto)
  then obtain x where "keyValues (n # v # vs) (map l_Name (c_Keys c)) 0 [] = Inl (GoPanic x)" by blast
  with g have "toPathLoop B sck (n # v # vs) s 0 [] = (s1, Inl (GoPanic x))"
    by (subst toPathLoop.simps) simp
  with assms(1-3) show ?thesis by (simp add: ps_ToPath_def)
qed

text \<open>The two stores assign the values of a list's keys differently. The persistent store
  takes them in the order of the stored keys, which is that of the \<open>key\<close> statement; the in-memory
  store takes them in the order of the key names.\<close>

theorem ToPath_key_order:
  assumes "tp_Schema req = Some sck" "ps_HasSchema B s sck" "tp_PathElement req = e_Name e # vs" "ps_cache s = None"
    and "snd (ps_getSchema B s (Some \<lparr>p_Origin = [], p_Target = [], p_Elem = [\<lparr>pe_Name = e_Name e, pe_Key = []\<rparr>]\<rparr>) False sck) =
      Inr (Container c)"
    and "map l_Name (c_Keys c) = str_fields (e_Key e)" "distinct (str_fields (e_Key e))"
    and "length vs = length (str_fields (e_Key e))" "vs \<noteq> []" "IsList Y e"
  shows "snd (ps_ToPath B s req) =
      Inr \<lparr>p_Origin = [], p_Target = [], p_Elem = [\<lparr>pe_Name = e_Name e, pe_Key = zip (str_fields (e_Key e)) vs\<rparr>]\<rparr> \<and>
    buildPath Y (e_Name e # vs) [] e = Inr [\<lparr>pe_Name = e_Name e, pe_Key = zip (sort (str_fields (e_Key e))) vs\<rparr>]"
proof
  let ?ks = "str_fields (e_Key e)" and ?els = "e_Name e # vs"
  let ?g = "\<lambda>pe. ps_getSchema B s (Some \<lparr>p_Origin = [], p_Target = [], p_Elem = [pe]\<rparr>) False sck"
  have g: "?g \<lparr>pe_Name = e_Name e, pe_Key = m\<rparr> = (s, Inr (Container c))" for m
  proof -
    have "?g \<lparr>pe_Name = e_Name e, pe_Key = m\<rparr> = ?g \<lparr>pe_Name = e_Name e, pe_Key = []\<rparr>"
      by (simp add: ps_getSchema_def ToStrings_def)
    then show ?thesis using assms(5) getSchema_uncached [OF assms(4)] by (metis prod.collapse)
  qed
  have "keyValues ?els ?ks 0 [] = Inr (length ?ks, zip ?ks vs)"
    using keyValues_zip [of "[]" ?ks 0 ?els] assms(7,8) by simp
  then have "toPathLoop B sck ?els s 0 [] =
      toPathLoop B sck ?els s (Suc (length ?ks)) [\<lparr>pe_Name = e_Name e, pe_Key = zip ?ks vs\<rparr>]"
    using g assms(6,9) by (subst toPathLoop.simps) simp
  also have "\<dots> = (s, Inr (Suc (length ?ks), [\<lparr>pe_Name = e_Name e, pe_Key = zip ?ks vs\<rparr>]))"
    using assms(8) by (subst toPathLoop.simps) simp
  finally show "snd (ps_ToPath B s req) =
      Inr \<lparr>p_Origin = [], p_Target = [], p_Elem = [\<lparr>pe_Name = e_Name e, pe_Key = zip ?ks vs\<rparr>]\<rparr>"
    using assms(1-3,8) g by (simp add: ps_ToPath_def)
  have "map snd (zip (sort ?ks) vs) = vs" using assms(8) by simp
  then show "buildPath Y ?els [] e = Inr [\<lparr>pe_Name = e_Name e, pe_Key = zip (sort ?ks) vs\<rparr>]"
    using buildPath_flat [OF follows.list_end [OF assms(10,7), of vs]] assms(8) by simp
qed

theorem ToPath_key_order_witness:
  "\<exists>s e. snd (ps_ToPath fxBackend s \<lparr>tp_Schema = Some (Key fxSchema3), tp_PathElement = [''l'', ''1'', ''2'']\<rparr>) =
       Inr \<lparr>p_Origin = [], p_Target = [], p_Elem = [\<lparr>pe_Name = ''l'', pe_Key = [(''z'', ''1''), (''a'', ''2'')]\<rparr>]\<rparr> \<and>
     buildPath kindApi [''l'', ''1'', ''2''] [] e = Inr [\<lparr>pe_Name = ''l'', pe_Key = [(''a'', ''1''), (''z'', ''2'')]\<rparr>]"
proof -
  obtain s c where s: "ps_HasSchema fxBackend s (Key fxSchema3)" "ps_cache s = None"
    "snd (ps_getSchema fxBackend s (Some \<lparr>p_Origin = [], p_Target = [], p_Elem = [\<lparr>pe_Name = ''l'', pe_Key = []\<rparr>]\<rparr>) False (Key fxSchema3)) =
       Inr (Container c)" and k: "map l_Name (c_Keys c) = [''z'', ''a'']" using fxSchema3_stored by (elim exE conjE) (rule that)
  let ?e = "Ptr fxTwoKeys []"
  have n: "e_Name ?e = ''l''" and f: "str_fields (e_Key ?e) = [''z'', ''a'']" and l: "IsList kindApi ?e"
    and so: "sort [''z'', ''a''] = [''a'', ''z'']" by code_simp+
  have "snd (ps_ToPath fxBackend s \<lparr>tp_Schema = Some (Key fxSchema3), tp_PathElement = e_Name ?e # [''1'', ''2'']\<rparr>) =
      Inr \<lparr>p_Origin = [], p_Target = [], p_Elem = [\<lparr>pe_Name = e_Name ?e, pe_Key = zip (str_fields (e_Key ?e)) [''1'', ''2'']\<rparr>]\<rparr> \<and>
    buildPath kindApi (e_Name ?e # [''1'', ''2'']) [] ?e =
      Inr [\<lparr>pe_Name = e_Name ?e, pe_Key = zip (sort (str_fields (e_Key ?e))) [''1'', ''2'']\<rparr>]"
    by (rule ToPath_key_order [OF _ s(1) _ s(2), where c = c]) (use s(3) k f n l in simp_all)
  then show ?thesis unfolding f n so by auto
qed
end
