(* ===== verification/PersistCache.thy ===== *)
theory PersistCache
  imports PersistStore
begin

text \<open>
  The cache of \<open>persiststore.go\<close>: how \<open>New\<close> sets it up, and that it is transparent as long as
  the schemas in the database stay the same. The relation \<open>cache_step\<close> has the events between two
  changes of the database: requests that read and fill the cache, and entries that expire or are
  evicted at any time. That a change of the database does not reach the cache is
  \<open>ps_reload_stale_cache\<close> of theory \<open>PersistStore\<close>.
\<close>

section \<open>Opening the store\<close>

text \<open>\<open>openDB\<close> and the constructor of the cache are calls into badger and ttlcache.\<close>

definition ps_New :: "(string \<Rightarrow> bool \<Rightarrow> 'd res) \<Rightarrow> (int \<Rightarrow> 64 word \<Rightarrow> 'c) \<Rightarrow> string \<Rightarrow> cache_config option \<Rightarrow> bool \<Rightarrow>
    ('d, 'c) persistStore res" where
  "ps_New openDB ttlcache_New p cfg readOnly =
     rbind (openDB p readOnly) (\<lambda>db.
       Inr (case cfg of
              None \<Rightarrow> \<lparr>ps_cacheWithDescription = False, ps_readOnly = readOnly, ps_db = db, ps_cache = None\<rparr>
            | Some c \<Rightarrow> \<lparr>ps_cacheWithDescription = cc_WithDescription c, ps_readOnly = readOnly, ps_db = db,
                ps_cache = Some (ttlcache_New (cc_TTL c) (cc_Capacity c))\<rparr>))"

definition ps_IsReadOnly :: "('d, 'c) persistStore \<Rightarrow> bool" where
  "ps_IsReadOnly s = ps_readOnly s"

section \<open>Events\<close>

abbreviation noSlash :: "string list \<Rightarrow> bool" where
  "noSlash pes \<equiv> list_all (\<lambda>p. slash \<notin> set p) pes"

inductive cache_step :: "('d, 'b, 'c) backend \<Rightarrow> ('d, 'c) persistStore \<Rightarrow> ('d, 'c) persistStore \<Rightarrow> bool" for B where
  request: "noSlash (ToStrings (gr_Path req) False True) \<Longrightarrow> cache_step B s (fst (ps_GetSchema B s req))"
| expire: "ps_cache s = Some c \<Longrightarrow> (\<And>k v. ca_get B c' k = Some v \<Longrightarrow> ca_get B c k = Some v) \<Longrightarrow>
    cache_step B s (s\<lparr>ps_cache := Some c'\<rparr>)"

section \<open>Cache keys\<close>

text \<open>The cache key joins the element names with a slash. Names without a slash can be read back.\<close>

lemma str_join_concat: "pes \<noteq> [] \<Longrightarrow> slash # str_join [slash] pes = concat (map (\<lambda>pe. slash # pe) pes)"
  by (induction "[slash]" pes rule: str_join.induct) auto

lemma str_join_inj:
  assumes "str_join [slash] xs = str_join [slash] ys" "noSlash xs" "noSlash ys" "xs \<noteq> []" "ys \<noteq> []"
  shows "xs = ys"
  using slash_concat_inj [OF assms(2,3)] str_join_concat [OF assms(4)] str_join_concat [OF assms(5)] assms(1) by simp

section \<open>Coherence\<close>

text \<open>\<open>coherent\<close>: a cached element is the one the database has for the path.\<close>

definition coherent :: "('d, 'b, 'c) backend \<Rightarrow> ('d, 'c) persistStore \<Rightarrow> bool" where
  "coherent B s \<longleftrightarrow> (\<forall>c k v. ps_cache s = Some c \<longrightarrow> ca_get B c k = Some v \<longrightarrow>
     (\<exists>p ps. ck_Path k = str_join [slash] (p # ps) \<and> noSlash (p # ps) \<and> p # ps \<noteq> [[]] \<and>
       getFromDB B (ps_db s) (ck_Schema k) p ps = Inr v))"

lemma coherent_empty: "ps_cache s = Some c \<Longrightarrow> (\<And>k. ca_get B c k = None) \<Longrightarrow> coherent B s"
  by (simp add: coherent_def)

lemma coherent_hit:
  assumes "coherent B s" "ps_cache s = Some c" "ca_get B c \<lparr>ck_Schema = k, ck_Path = str_join [slash] pes\<rparr> = Some v" "noSlash pes"
  shows "pes \<noteq> [] \<and> pes \<noteq> [[]] \<and> getFromDB B (ps_db s) k (hd pes) (tl pes) = Inr v"
proof -
  from assms(1-3) obtain p ps where p: "str_join [slash] pes = str_join [slash] (p # ps)" "noSlash (p # ps)" "p # ps \<noteq> [[]]"
    "getFromDB B (ps_db s) k p ps = Inr v" unfolding coherent_def by force
  show ?thesis
  proof (cases "pes = []")
    case True
    then have "str_join [slash] [[]] = str_join [slash] (p # ps)" using p(1) by simp
    from str_join_inj [OF this _ p(2)] p(3) show ?thesis by simp
  next
    case False
    from str_join_inj [OF p(1) assms(4) p(2) False] p(3,4) show ?thesis by simp
  qed
qed

lemma getSchema_coherent:
  fixes B :: "('d, 'b, 'c) backend" and k :: schema_key and wd :: bool
  assumes "cache_ok B" "coherent B s" "noSlash (ToStrings path False True)"
  defines "s' \<equiv> fst (ps_getSchema B s path wd k)"
  shows "coherent B s' \<and> ps_db s' = ps_db s \<and> ps_cacheWithDescription s' = ps_cacheWithDescription s"
proof -
  let ?pes = "ToStrings path False True"
  let ?k = "\<lparr>ck_Schema = k, ck_Path = str_join [slash] ?pes\<rparr>"
  have "s' = s \<or> (\<exists>c v. ps_cache s = Some c \<and> s' = s\<lparr>ps_cache := Some (ca_set B c ?k v)\<rparr> \<and> ?pes \<noteq> [] \<and> ?pes \<noteq> [[]] \<and>
      getFromDB B (ps_db s) k (hd ?pes) (tl ?pes) = Inr v)"
    unfolding s'_def ps_getSchema_def Let_def
    by (cases "ps_cache s"; cases "getFromDB B (ps_db s) k (hd ?pes) (tl ?pes)") (auto split: option.split)
  then show ?thesis
  proof (elim disjE exE conjE)
    fix c v
    assume c: "ps_cache s = Some c" "s' = s\<lparr>ps_cache := Some (ca_set B c ?k v)\<rparr>" "?pes \<noteq> []" "?pes \<noteq> [[]]"
      "getFromDB B (ps_db s) k (hd ?pes) (tl ?pes) = Inr v"
    have "\<exists>p ps. ck_Path k' = str_join [slash] (p # ps) \<and> noSlash (p # ps) \<and> p # ps \<noteq> [[]] \<and>
        getFromDB B (ps_db s) (ck_Schema k') p ps = Inr w"
      if w: "ca_get B (ca_set B c ?k v) k' = Some w" for k' w
    proof (cases "k' = ?k \<and> w = v")
      case True
      with c(3-5) assms(3) show ?thesis by (intro exI [of _ "hd ?pes"] exI [of _ "tl ?pes"]) simp
    next
      case False
      with w assms(1) have "ca_get B c k' = Some w" unfolding cache_ok_def by blast
      with assms(2) c(1) show ?thesis unfolding coherent_def by blast
    qed
    with c(2) show ?thesis by (auto simp: coherent_def)
  qed (use assms(2) in simp)
qed

lemma step_coherent:
  assumes "cache_step B s s'" "cache_ok B" "coherent B s"
  shows "coherent B s' \<and> ps_db s' = ps_db s \<and> ps_cacheWithDescription s' = ps_cacheWithDescription s"
  using assms(1)
proof (cases rule: cache_step.cases)
  case (request req)
  then show ?thesis
    using getSchema_coherent [OF assms(2,3)] assms(3) by (simp add: ps_GetSchema_def Let_def split: if_split)
next
  case (expire c c')
  with assms(3) show ?thesis by (auto simp: coherent_def)
qed

lemma steps_coherent:
  "(cache_step B)\<^sup>*\<^sup>* s s' \<Longrightarrow> cache_ok B \<Longrightarrow> coherent B s \<Longrightarrow>
   coherent B s' \<and> ps_db s' = ps_db s \<and> ps_cacheWithDescription s' = ps_cacheWithDescription s"
  by (induction rule: rtranclp_induct) (auto dest: step_coherent)

text \<open>What a coherent cache answers.\<close>

definition undescribed :: "schema_elem res \<Rightarrow> schema_elem res" where
  "undescribed r = map_sum id removeDescription r"

lemma getSchema_miss:
  assumes "(case ps_cache s of None \<Rightarrow> None | Some c \<Rightarrow>
      ca_get B c \<lparr>ck_Schema = k, ck_Path = str_join [slash] (ToStrings path False True)\<rparr>) = None"
  shows "snd (ps_getSchema B s path wd k) = snd (ps_getSchema B (s\<lparr>ps_cache := None\<rparr>) path wd k)"
  unfolding ps_getSchema_def Let_def assms by (simp split: sum.split)

lemma coherent_answer:
  assumes "coherent B s" "noSlash (ToStrings (gr_Path req) False True)"
  defines "r \<equiv> snd (ps_GetSchema B (s\<lparr>ps_cache := None\<rparr>) req)"
  shows "snd (ps_GetSchema B s req) = r \<or>
    \<not> gr_WithDescription req \<and> ps_cacheWithDescription s \<and> snd (ps_GetSchema B s req) = undescribed r"
proof -
  let ?pes = "ToStrings (gr_Path req) False True" and ?k = "keyOf (gr_Schema req)"
  show ?thesis
  proof (cases "case ps_cache s of None \<Rightarrow> None | Some c \<Rightarrow> ca_get B c \<lparr>ck_Schema = ?k, ck_Path = str_join [slash] ?pes\<rparr>")
    case None
    then show ?thesis
      using getSchema_miss [OF None] unfolding r_def by (simp only: ps_GetSchema_def ps_HasSchema_def Let_def) simp
  next
    case (Some v)
    then obtain c where c: "ps_cache s = Some c" "ca_get B c \<lparr>ck_Schema = ?k, ck_Path = str_join [slash] ?pes\<rparr> = Some v"
      by (cases "ps_cache s") auto
    let ?wd = "gr_WithDescription req"
    have "ps_getSchema B s (gr_Path req) ?wd ?k = (s, Inr (if \<not> ?wd \<and> ps_cacheWithDescription s then removeDescription v else v))"
      using c by (simp add: ps_getSchema_def Let_def)
    moreover have "snd (ps_getSchema B (s\<lparr>ps_cache := None\<rparr>) (gr_Path req) ?wd ?k) = Inr v"
      using coherent_hit [OF assms(1) c assms(2)] by (simp add: ps_getSchema_def Let_def)
    ultimately show ?thesis unfolding r_def by (simp add: ps_GetSchema_def Let_def ps_HasSchema_def undescribed_def)
  qed
qed

text \<open>C15: the cache is transparent between two changes of the database. Start from an empty cache and
  let requests and expirations happen in any number and order: every request is then answered as by a
  store without a cache. Only where the request wants no description and the cache keeps them, the
  description may be missing.\<close>

theorem ps_cache_transparent:
  assumes "cache_ok B" "ps_cache s = Some c" "\<forall>k. ca_get B c k = None" "(cache_step B)\<^sup>*\<^sup>* s s'"
    and "noSlash (ToStrings (gr_Path req) False True)"
  shows "(snd (ps_GetSchema B s' req) = snd (ps_GetSchema B (s\<lparr>ps_cache := None\<rparr>) req) \<or>
      \<not> gr_WithDescription req \<and> ps_cacheWithDescription s \<and>
      snd (ps_GetSchema B s' req) = map_sum id removeDescription (snd (ps_GetSchema B (s\<lparr>ps_cache := None\<rparr>) req))) \<and>
    ps_db s' = ps_db s"
proof -
  from assms(3) have "coherent B s" using coherent_empty [OF assms(2)] by blast
  from steps_coherent [OF assms(4,1) this] have s': "coherent B s'" "ps_db s' = ps_db s"
    "ps_cacheWithDescription s' = ps_cacheWithDescription s" by blast+
  have "snd (ps_GetSchema B (s'\<lparr>ps_cache := None\<rparr>) req) = snd (ps_GetSchema B (s\<lparr>ps_cache := None\<rparr>) req)"
    using s'(2) by (auto simp: ps_GetSchema_def ps_getSchema_def Let_def ps_HasSchema_def split: sum.split)
  with coherent_answer [OF s'(1) assms(5)] s'(2,3) show ?thesis by (simp add: undescribed_def)
qed

theorem ps_cache_transparent_witness:
  "\<exists>s s' se. ps_cache s = Some [] \<and> (cache_step fxBackend)\<^sup>*\<^sup>* s s' \<and> ps_cache s' \<noteq> Some [] \<and>
     snd (ps_GetSchema fxBackend s' (fxGet\<lparr>gr_WithDescription := True\<rparr>)) = Inr se \<and>
     snd (ps_GetSchema fxBackend (s\<lparr>ps_cache := None\<rparr>) (fxGet\<lparr>gr_WithDescription := True\<rparr>)) = Inr se"
proof -
  obtain s0 sc' where a: "ps_AddSchema 2 kindApi fxBackend fxStore fxSchema = Some (Inr (s0, sc'))"
    using fxStore_add by blast
  let ?s = "s0\<lparr>ps_cache := Some []\<rparr>" and ?r = "fxGet\<lparr>gr_WithDescription := True\<rparr>"
  let ?s' = "fst (ps_GetSchema fxBackend ?s ?r)"
  have "map_option (map_sum (\<lambda>_. ()) (\<lambda>(s, _). let t = ps_GetSchema fxBackend (s\<lparr>ps_cache := Some []\<rparr>) ?r in
       (map_option length (ps_cache (fst t)), map_sum (\<lambda>_. ()) (\<lambda>_. ()) (snd (ps_GetSchema fxBackend (fst t) ?r)))))
     (ps_AddSchema 2 kindApi fxBackend fxStore fxSchema) = Some (Inr (Some 1, Inr ()))" by code_simp
  then obtain se where se: "map_option length (ps_cache ?s') = Some 1" "snd (ps_GetSchema fxBackend ?s' ?r) = Inr se"
    using a by (cases "snd (ps_GetSchema fxBackend ?s' ?r)") (auto simp: Let_def)
  have n: "noSlash (ToStrings (gr_Path ?r) False True)" by code_simp
  have st: "(cache_step fxBackend)\<^sup>*\<^sup>* ?s ?s'" using cache_step.request [OF n] by blast
  have "cache_ok fxBackend" using fxBackend_ok by (simp add: backend_ok_def)
  from ps_cache_transparent [OF this _ _ st n] have "snd (ps_GetSchema fxBackend ?s' ?r) = snd (ps_GetSchema fxBackend (?s\<lparr>ps_cache := None\<rparr>) ?r)"
    by (simp add: fxBackend_def)
  moreover have "ps_cache ?s' \<noteq> Some []" using se(1) by auto
  ultimately show ?thesis using st se(2) by (intro exI [of _ ?s] exI [of _ ?s'] exI [of _ se]) simp
qed

end
