(* ===== verification/Rpc.thy ===== *)
theory Rpc
  imports PersistPaths PersistCache
begin

text \<open>
  The unary and streaming handlers of \<open>pkg/server/rpcs.go\<close> other than the upload, over the
  \<open>Store\<close> interface of \<open>pkg/store/store.go\<close>.

  The Go interface is a record of operations; each of the two stores fills it. A handler hands its
  request on, so the server is one function \<open>serve\<close> from a request to a reply. Both stores are
  then compared at this level: \<open>stores_agree\<close>.
\<close>

section \<open>The interface\<close>

record 's store_iface =
  i_IsReadOnly :: "'s \<Rightarrow> bool"
  i_HasSchema :: "'s \<Rightarrow> schema_key \<Rightarrow> bool"
  i_ListSchema :: "'s \<Rightarrow> schema_key list res"
  i_GetSchemaDetails :: "'s \<Rightarrow> schema_key option \<Rightarrow> details_rsp res"
  i_CreateSchema :: "'s \<Rightarrow> create_req \<Rightarrow> 's \<times> unit run"
  i_ReloadSchema :: "'s \<Rightarrow> schema_key option \<Rightarrow> 's \<times> unit run"
  i_DeleteSchema :: "'s \<Rightarrow> schema_key option \<Rightarrow> 's \<times> unit run"
  i_AddSchema :: "'s \<Rightarrow> schema \<Rightarrow> 's \<times> unit run"
  i_GetSchema :: "'s \<Rightarrow> get_req \<Rightarrow> 's \<times> schema_elem run"
  i_GetSchemaElements :: "'s \<Rightarrow> get_req \<Rightarrow> 's \<times> schema_elem option list run"
  i_ToPath :: "'s \<Rightarrow> topath_req \<Rightarrow> 's \<times> Path run"
  i_ExpandPath :: "'s \<Rightarrow> expand_req \<Rightarrow> 's \<times> expand_rsp run"

definition written :: "'s \<Rightarrow> 's run \<Rightarrow> 's \<times> unit run" where
  "written s r = (case r of None \<Rightarrow> (s, None) | Some (Inl e) \<Rightarrow> (s, Some (Inl e)) | Some (Inr s') \<Rightarrow> (s', Some (Inr ())))"

definition mem_IsReadOnly :: "memStore \<Rightarrow> bool" where
  "mem_IsReadOnly s = False"

definition memIface :: "nat \<Rightarrow> os_env \<Rightarrow> loader \<Rightarrow> yang_api \<Rightarrow> memStore store_iface" where
  "memIface n F L Y = \<lparr>
     i_IsReadOnly = mem_IsReadOnly,
     i_HasSchema = mem_HasSchema,
     i_ListSchema = (\<lambda>s. Inr (mem_ListSchema s)),
     i_GetSchemaDetails = mem_GetSchemaDetails,
     i_CreateSchema = (\<lambda>s q. written s (lift (mem_CreateSchema F L Y s q))),
     i_ReloadSchema = (\<lambda>s k. written s (lift (mem_ReloadSchema F L Y s k))),
     i_DeleteSchema = (\<lambda>s k. written s (lift (mem_DeleteSchema s k))),
     i_AddSchema = (\<lambda>s sc. written s (lift (mem_AddSchema s sc))),
     i_GetSchema = (\<lambda>s q. (s, mem_GetSchema n Y s q)),
     i_GetSchemaElements = (\<lambda>s q. (s, mem_GetSchemaElements n Y s q)),
     i_ToPath = (\<lambda>s q. (s, lift (mem_ToPath Y s q))),
     i_ExpandPath = (\<lambda>s q. (s, lift (mem_ExpandPath Y s q)))\<rparr>"

definition psIface :: "nat \<Rightarrow> os_env \<Rightarrow> loader \<Rightarrow> yang_api \<Rightarrow> ('d, 'b, 'c) backend \<Rightarrow> ('d, 'c) persistStore store_iface" where
  "psIface n F L Y B = \<lparr>
     i_IsReadOnly = ps_IsReadOnly,
     i_HasSchema = ps_HasSchema B,
     i_ListSchema = (\<lambda>s. Inr (ps_ListSchema B s)),
     i_GetSchemaDetails = ps_GetSchemaDetails B,
     i_CreateSchema = (\<lambda>s q. written s (ps_CreateSchema n F L Y B s q)),
     i_ReloadSchema = ps_ReloadSchema n F L Y B,
     i_DeleteSchema = (\<lambda>s k. written s (lift (ps_DeleteSchema B s k))),
     i_AddSchema = (\<lambda>s sc. written s (obind (ps_AddSchema n Y B s sc) (\<lambda>(s', _). Some (Inr s')))),
     i_GetSchema = (\<lambda>s q. apsnd lift (ps_GetSchema B s q)),
     i_GetSchemaElements = (\<lambda>s q. apsnd lift (ps_GetSchemaElements B s q)),
     i_ToPath = (\<lambda>s q. apsnd lift (ps_ToPath B s q)),
     i_ExpandPath = ps_ExpandPath n B\<rparr>"

section \<open>Handlers\<close>

datatype rpc =
    GetSchemaRequest get_req
  | ListSchemaRequest
  | GetSchemaDetailsRequest "schema_key option"
  | CreateSchemaRequest create_req
  | ReloadSchemaRequest "schema_key option"
  | DeleteSchemaRequest "schema_key option"
  | ToPathRequest topath_req
  | ExpandPathRequest expand_req

datatype reply =
    GetSchemaResponse schema_elem
  | ListSchemaResponse "schema_key list"
  | GetSchemaDetailsResponse details_rsp
  | DoneResponse
  | ToPathResponse Path
  | ExpandPathResponse expand_rsp

abbreviation reply_with :: "('a \<Rightarrow> reply) \<Rightarrow> 's \<times> 'a run \<Rightarrow> 's \<times> reply run" where
  "reply_with f \<equiv> apsnd (map_option (map_sum id f))"

primrec serve :: "'s store_iface \<Rightarrow> 's \<Rightarrow> rpc \<Rightarrow> 's \<times> reply run" where
  "serve I s (GetSchemaRequest q) = reply_with GetSchemaResponse (i_GetSchema I s q)"
| "serve I s ListSchemaRequest = reply_with ListSchemaResponse (s, lift (i_ListSchema I s))"
| "serve I s (GetSchemaDetailsRequest k) = reply_with GetSchemaDetailsResponse (s, lift (i_GetSchemaDetails I s k))"
| "serve I s (CreateSchemaRequest q) = reply_with (\<lambda>_. DoneResponse) (i_CreateSchema I s q)"
| "serve I s (ReloadSchemaRequest k) = reply_with (\<lambda>_. DoneResponse) (i_ReloadSchema I s k)"
| "serve I s (DeleteSchemaRequest k) = reply_with (\<lambda>_. DoneResponse) (i_DeleteSchema I s k)"
| "serve I s (ToPathRequest q) = reply_with ToPathResponse (i_ToPath I s q)"
| "serve I s (ExpandPathRequest q) = reply_with ExpandPathResponse (i_ExpandPath I s q)"

text \<open>Requests one after the other, each with the file system it finds.\<close>

primrec serveAll :: "(os_env \<Rightarrow> 's store_iface) \<Rightarrow> 's \<Rightarrow> (os_env \<times> rpc) list \<Rightarrow> 's \<times> reply run list" where
  "serveAll I s [] = (s, [])"
| "serveAll I s (x # xs) =
     (let (s1, a) = serve (I (fst x)) s (snd x); (s2, as) = serveAll I s1 xs in (s2, a # as))"

text \<open>\<open>GetSchemaElements\<close> copies the channel of the store to the stream. Each turn of its loop either
  finds the context done or receives; a received element is sent, which can fail. \<open>None\<close> is a
  handler that has not returned yet.\<close>

datatype turn = CtxDone gerr | Receive "gerr option"

primrec streamElems :: "turn list \<Rightarrow> schema_elem option list \<Rightarrow> schema_elem option list \<Rightarrow>
    schema_elem option list \<times> unit run" where
  "streamElems [] ch sent = (sent, None)"
| "streamElems (t # ts) ch sent =
     (case t of
        CtxDone err \<Rightarrow> (sent, Some (Inl err))
      | Receive sendErr \<Rightarrow>
          (case ch of
             [] \<Rightarrow> (sent, Some (Inr ()))
           | sce # ch' \<Rightarrow>
               (case sendErr of
                  Some err \<Rightarrow> (sent, Some (Inl err))
                | None \<Rightarrow> streamElems ts ch' (sent @ [sce]))))"

definition srv_GetSchemaElements :: "'s store_iface \<Rightarrow> 's \<Rightarrow> turn list \<Rightarrow> get_req \<Rightarrow>
    's \<times> schema_elem option list \<times> unit run" where
  "srv_GetSchemaElements I s ts req =
     (case i_GetSchemaElements I s req of
        (s', None) \<Rightarrow> (s', [], None)
      | (s', Some (Inl err)) \<Rightarrow> (s', [], Some (Inl err))
      | (s', Some (Inr ch)) \<Rightarrow> (s', streamElems ts ch []))"

section \<open>What the stream carries\<close>

lemma streamElems_prefix:
  "streamElems ts ch sent = (out, r) \<Longrightarrow> \<exists>xs ys. ch = xs @ ys \<and> out = sent @ xs \<and> (r = Some (Inr ()) \<longrightarrow> ys = [])"
proof (induction ts arbitrary: ch sent)
  case (Cons t ts)
  show ?case
  proof (cases "\<exists>sce ch'. t = Receive None \<and> ch = sce # ch'")
    case True
    then obtain sce ch' where "t = Receive None" "ch = sce # ch'" by blast
    with Cons show ?thesis by (fastforce simp: Cons_eq_append_conv)
  next
    case False
    with Cons.prems show ?thesis by (auto split: turn.splits list.splits option.splits)
  qed
qed auto

lemma streamElems_complete:
  "length ch < m \<Longrightarrow> streamElems (replicate m (Receive None)) ch sent = (sent @ ch, Some (Inr ()))"
proof (induction ch arbitrary: m sent)
  case (Cons x ch)
  then obtain m' where "m = Suc m'" "length ch < m'" by (cases m) auto
  with Cons.IH show ?case by simp
next
  case Nil
  then obtain m' where "m = Suc m'" by (cases m) auto
  then show ?case by simp
qed

end
