(* ===== verification/PersistExpand.thy ===== *)
theory PersistExpand
  imports PersistPaths
begin

text \<open>
  \<open>ExpandPath\<close> of the persistent store: it ends, and lists exactly the leafs below a node, from
  the stored elements alone.
\<close>

section \<open>Reading a stored schema\<close>

lemma data_path_extend: "data_path Y m q e \<Longrightarrow> data_child Y e d \<Longrightarrow> unprefixed n = e_Name d \<Longrightarrow> data_path Y m (q @ [n]) d"
proof (induction rule: data_path.induct)
  case (here e)
  then show ?case using data_path.down [OF here(1), of n "[]" d] by (simp add: data_path.here)
next
  case (down e c p ps e')
  then show ?case using data_path.down [of Y e c p "ps @ [n]" d] by simp
qed

lemma firstEntry_snoc:
  assumes "\<And>m. m \<in> set ms \<Longrightarrow> moduleOk Y m" "firstEntry Y ms q = Some e" "data_child Y e d" "unprefixed n = e_Name d"
  shows "firstEntry Y ms (q @ [n]) = Some d"
  using assms(1,2)
proof (induction ms)
  case (Cons m ms)
  have m: "moduleOk Y m" using Cons.prems by simp
  then have mm: "\<not> isCC Y m" "unique_names Y m" by (simp_all add: moduleOk_def)
  show ?case
  proof (cases "getEntry Y m q")
    case (Inl err)
    then have "\<not> (\<exists>x. data_path Y m q x)" using getEntry_complete [OF _ mm] by force
    then have "\<not> (\<exists>x. data_path Y m (q @ [n]) x)" using data_path_snoc by blast
    with getEntry_fails [OF m] obtain err' where "getEntry Y m (q @ [n]) = Inl err'" by blast
    with Cons Inl show ?thesis by (simp del: getEntry.simps)
  next
    case (Inr x)
    with Cons.prems(2) have "x = e" by (simp del: getEntry.simps)
    with Inr getEntry_sound [OF _ mm(1)] have "data_path Y m q e" by blast
    from getEntry_complete [OF data_path_extend [OF this assms(3,4)] mm] show ?thesis by (simp del: getEntry.simps)
  qed
qed simp

abbreviation plainNames :: "string list \<Rightarrow> bool" where
  "plainNames q \<equiv> list_all (\<lambda>p. colon \<notin> set p \<and> slash \<notin> set p) q"

lemma GetEntry_snoc:
  assumes "schemaOk Y r" "sc_root sc = Some r" "colon \<notin> set p" "map_of (e_Dir (Ptr r [])) p = None"
    and "GetEntry Y sc (p # ps) = Inr e" "data_child Y e d" "colon \<notin> set (e_Name d)"
  shows "GetEntry Y sc (p # ps @ [e_Name d]) = Inr d"
proof -
  have "firstEntry Y (sort_by modLess (e_children (Ptr r []))) (p # ps) = Some e"
    using assms(5) GetEntry_modules [OF assms(1-4)] by simp
  from firstEntry_snoc [OF _ this assms(6) unprefixed_id [OF assms(7)]] schemaOk_module [OF assms(1)]
  have "firstEntry Y (sort_by modLess (e_children (Ptr r []))) ((p # ps) @ [e_Name d]) = Some d" by simp
  then show ?thesis using GetEntry_modules [OF assms(1-4), of "ps @ [e_Name d]"] by simp
qed

lemma firstEntry_in: "firstEntry Y ms q = Some e \<Longrightarrow> \<exists>m\<in>set ms. getEntry Y m q = Inr e"
  by (induction ms) (auto simp del: getEntry.simps split: sum.splits)

lemma GetEntry_data:
  assumes "schemaOk Y r" "sc_root sc = Some r" "colon \<notin> set p" "map_of (e_Dir (Ptr r [])) p = None"
    and "GetEntry Y sc (p # ps) = Inr e"
  shows "\<exists>m\<in>set (e_children (Ptr r [])). data_path Y m (p # ps) e"
proof -
  have "firstEntry Y (sort_by modLess (e_children (Ptr r []))) (p # ps) = Some e"
    using assms(5) GetEntry_modules [OF assms(1-4)] by simp
  from firstEntry_in [OF this] obtain m where m: "m \<in> set (e_children (Ptr r []))" "getEntry Y m (p # ps) = Inr e" by auto
  with getEntry_sound [OF m(2)] schemaOk_module [OF assms(1) m(1)] show ?thesis by (auto simp: moduleOk_def)
qed

text \<open>\<open>holds\<close>: the store has the schema, answers from the database, and finds every node.\<close>

definition holds :: "('d, 'b, 'c) backend \<Rightarrow> ('d, 'c) persistStore \<Rightarrow> nat \<Rightarrow> yang_api \<Rightarrow> schema \<Rightarrow> entry \<Rightarrow> bool" where
  "holds B s n Y sc r \<longleftrightarrow> ps_cache s = None \<and> ps_HasSchema B s (Key sc) \<and>
     (\<forall>p ps e. plainNames (p # ps) \<longrightarrow> map_of (e_Dir (Ptr r [])) p = None \<longrightarrow> GetEntry Y sc (p # ps) = Inr e \<longrightarrow>
       (\<exists>se. getFromDB B (ps_db s) (Key sc) p ps = Inr se \<and> SchemaElemFromYEntry n Y sc e True = Some (Inr se)))"

lemma stored_elem:
  assumes "kv_ok B" "schemaOk Y r" "sc_root sc = Some r" "ps_AddSchema n Y B s sc = Some (Inr (s', sc'))"
    and "m \<in> set (e_children (Ptr r []))" "data_path Y m q e"
  shows "\<exists>se. SchemaElemFromYEntry n Y sc e True = Some (Inr se)"
proof -
  from kv_stored [OF assms(1-4)] obtain kvs where
    kvs: "list_all2 (\<lambda>x kv. entryPair n Y B sc x = Some (Inr kv)) (walkNodes Y (Ptr r [])) kvs" by blast
  have e: "e \<in> set (walkNodes Y (Ptr r []))" using walkNodes_root [OF assms(2)] assms(5,6) by blast
  from list_all2_in1 [OF kvs this] obtain k b where "entryPair n Y B sc e = Some (Inr (k, b))" by auto
  from entryPair_key [OF assms(2) e this] show ?thesis by blast
qed

lemma AddSchema_holds:
  assumes "backend_ok B" "schemaOk Y r" "sc_root sc = Some r"
    and "ps_AddSchema n Y B s sc = Some (Inr (s', sc'))" "ps_cache s = None"
    and "\<forall>p ps. kv_get B (ps_db s) (buildEntryKey (Key sc) p ps) = None"
  shows "holds B s' n Y sc r"
proof -
  have ok: "kv_ok B" "codec_ok B" using assms(1) by (simp_all add: backend_ok_def)
  have fresh: "\<And>p ps. kv_get B (ps_db s) (buildEntryKey (Key sc) p ps) = None" using assms(6) by blast
  have "\<exists>se. getFromDB B (ps_db s') (Key sc) p ps = Inr se \<and> SchemaElemFromYEntry n Y sc e True = Some (Inr se)"
    if p: "plainNames (p # ps)" "map_of (e_Dir (Ptr r [])) p = None" "GetEntry Y sc (p # ps) = Inr e" for p ps e
  proof -
    have c: "colon \<notin> set p" using p(1) by simp
    from GetEntry_data [OF assms(2,3) c p(2,3)] obtain m where
      "m \<in> set (e_children (Ptr r []))" "data_path Y m (p # ps) e" by blast
    from stored_elem [OF ok(1) assms(2-4) this] obtain se where "SchemaElemFromYEntry n Y sc e True = Some (Inr se)" by blast
    with getFromDB_GetEntry [OF ok assms(2-4) p(1) fresh p(2), of se] p(3) show ?thesis by blast
  qed
  moreover have "ps_cache s' = None" using assms(4,5) by (auto simp: ps_AddSchema_def lift_def)
  moreover have "ps_HasSchema B s' (Key sc)" by (rule ps_HasSchema_AddSchema [OF ok(1) assms(2-4)])
  ultimately show ?thesis by (simp add: holds_def)
qed

section \<open>What the stored elements say\<close>

lemma addChild_states:
  assumes "addChild n Y sc keys wd c x = Some (Inr c')"
  shows "map (\<lambda>f. (l_Name f, l_IsState f)) (c_Fields c') = map (\<lambda>f. (l_Name f, l_IsState f)) (c_Fields c) @
      (if isField Y x \<and> e_Name x \<notin> set keys then [(e_Name x, isState x)] else []) \<and>
    map (\<lambda>l. (ll_Name l, ll_IsState l)) (c_Leaflists c') = map (\<lambda>l. (ll_Name l, ll_IsState l)) (c_Leaflists c) @
      (if isLL Y x then [(e_Name x, isState x)] else [])"
proof (cases "\<not> IsDir Y x \<and> (IsLeaf Y x \<or> IsLeafList Y x)")
  case True
  with assms obtain el where el: "leafElem n Y sc x wd = Some (Inr el)" by (auto simp: addChild_def)
  then have "if IsLeaf Y x then \<exists>l. el = Field l \<and> (l_Name l, l_IsState l) = (e_Name x, isState x)
      else \<exists>l. el = Leaflist l \<and> (ll_Name l, ll_IsState l) = (e_Name x, isState x)"
    by (auto simp: leafElem_def leafFromYEntry_def leafListFromYEntry_def split: if_splits)
  with True assms el show ?thesis
    by (auto simp: addChild_def isField_def isLL_def split: if_splits)
next
  case False
  with assms show ?thesis by (auto simp: addChild_def isField_def isLL_def split: if_splits)
qed

lemma ofold_states:
  "ofold (addChild n Y sc keys wd) c xs = Some (Inr c') \<Longrightarrow>
   map (\<lambda>f. (l_Name f, l_IsState f)) (c_Fields c') = map (\<lambda>f. (l_Name f, l_IsState f)) (c_Fields c) @
      map (\<lambda>x. (e_Name x, isState x)) (filter (\<lambda>x. isField Y x \<and> e_Name x \<notin> set keys) xs) \<and>
    map (\<lambda>l. (ll_Name l, ll_IsState l)) (c_Leaflists c') = map (\<lambda>l. (ll_Name l, ll_IsState l)) (c_Leaflists c) @
      map (\<lambda>x. (e_Name x, isState x)) (filter (isLL Y) xs)"
proof (induction xs arbitrary: c)
  case (Cons x xs)
  then obtain c1 where "addChild n Y sc keys wd c x = Some (Inr c1)" "ofold (addChild n Y sc keys wd) c1 xs = Some (Inr c')"
    by auto
  with Cons.IH addChild_states show ?case by fastforce
qed simp

lemma container_states:
  assumes "containerFromYEntry n Y sc e wd = Some (Inr c)"
  shows "map (\<lambda>f. (l_Name f, l_IsState f)) (c_Fields c) =
      map (\<lambda>x. (e_Name x, isState x)) (filter (\<lambda>x. isField Y x \<and> e_Name x \<notin> set (str_fields (e_Key e))) (getChildren Y e))"
    "map (\<lambda>l. (ll_Name l, ll_IsState l)) (c_Leaflists c) = map (\<lambda>x. (e_Name x, isState x)) (filter (isLL Y) (getChildren Y e))"
proof -
  let ?keys = "str_fields (e_Key e)"
  from assms obtain d where d: "ofold (addChild n Y sc ?keys wd) (emptyContainer Y e wd) (getChildren Y e) = Some (Inr d)"
    and "c_Fields c = c_Fields d" "c_Leaflists c = c_Leaflists d" by (auto simp: containerFromYEntry_def Let_def)
  moreover have "c_Fields (emptyContainer Y e wd) = []" "c_Leaflists (emptyContainer Y e wd) = []"
    by (simp_all add: emptyContainer_def)
  ultimately show "map (\<lambda>f. (l_Name f, l_IsState f)) (c_Fields c) =
      map (\<lambda>x. (e_Name x, isState x)) (filter (\<lambda>x. isField Y x \<and> e_Name x \<notin> set (str_fields (e_Key e))) (getChildren Y e))"
    "map (\<lambda>l. (ll_Name l, ll_IsState l)) (c_Leaflists c) = map (\<lambda>x. (e_Name x, isState x)) (filter (isLL Y) (getChildren Y e))"
    using ofold_states [OF d] by simp_all
qed

section \<open>The nodes below a stored node\<close>

text \<open>\<open>storeOk\<close>: every data node below is of one kind, the directories are the lists and containers,
  only lists have keys, and the keys of a list are different leafs of it.\<close>

definition nodeOk :: "yang_api \<Rightarrow> eptr \<Rightarrow> bool" where
  "nodeOk Y e \<longleftrightarrow> oneKind Y e \<and> (IsLeaf Y e \<or> IsLeafList Y e \<or> IsList Y e \<or> IsContainer Y e) \<and>
     (IsDir Y e \<longleftrightarrow> IsList Y e \<or> IsContainer Y e) \<and> (IsContainer Y e \<longrightarrow> e_Key e = []) \<and>
     distinct (str_fields (e_Key e)) \<and>
     (IsDir Y e \<longrightarrow> list_all (\<lambda>k. list_ex (\<lambda>x. isField Y x \<and> e_Name x = k) (getChildren Y e)) (str_fields (e_Key e)))"

function storeOk :: "yang_api \<Rightarrow> eptr \<Rightarrow> bool" where
  "storeOk Y e \<longleftrightarrow> nodeOk Y e \<and> list_all (storeOk Y) (getChildren Y e)"
  by pat_completeness auto
termination
  by (relation "measure (\<lambda>(Y, e). size (ent e))") (auto dest!: getChildren_sound getChildren_size)

declare storeOk.simps [simp del]

lemma storeOk_child: "storeOk Y e \<Longrightarrow> data_child Y e d \<Longrightarrow> storeOk Y d"
  by (subst (asm) storeOk.simps) (simp add: list_all_iff getChildren_complete)

lemma storeOk_node: "storeOk Y e \<Longrightarrow> nodeOk Y e"
  by (subst (asm) storeOk.simps) simp

lemma at_most_one:
  "length (filter id [a, b, c, d, e, f]) \<le> 1 \<Longrightarrow> (c \<longrightarrow> \<not> d \<and> \<not> e \<and> \<not> f) \<and> (d \<longrightarrow> \<not> e \<and> \<not> f) \<and> (e \<longrightarrow> \<not> f)"
  by (cases a; cases b; cases c; cases d; cases e; cases f; simp)

lemma nodeOkD:
  assumes "nodeOk Y e"
  shows "oneKind Y e" "IsLeaf Y e \<or> IsLeafList Y e \<or> IsList Y e \<or> IsContainer Y e" "IsDir Y e \<longleftrightarrow> IsList Y e \<or> IsContainer Y e"
    "IsContainer Y e \<longrightarrow> e_Key e = []" "distinct (str_fields (e_Key e))"
    "IsDir Y e \<longrightarrow> list_all (\<lambda>k. list_ex (\<lambda>x. isField Y x \<and> e_Name x = k) (getChildren Y e)) (str_fields (e_Key e))"
  by (insert assms, unfold nodeOk_def) (elim conjE, assumption)+

lemma storeOk_kinds:
  assumes "storeOk Y e"
  shows "IsLeaf Y e \<or> IsLeafList Y e \<or> IsDir Y e" "IsLeaf Y e \<Longrightarrow> \<not> IsLeafList Y e \<and> \<not> IsDir Y e" "IsLeafList Y e \<Longrightarrow> \<not> IsDir Y e"
    "IsDir Y e \<longleftrightarrow> IsList Y e \<or> IsContainer Y e" "IsContainer Y e \<Longrightarrow> e_Key e = [] \<and> \<not> IsList Y e"
    "distinct (str_fields (e_Key e))"
proof -
  note n = nodeOkD [OF storeOk_node [OF assms]]
  note x = at_most_one [OF n(1) [unfolded oneKind_def]]
  show "IsDir Y e \<longleftrightarrow> IsList Y e \<or> IsContainer Y e" by (fact n(3))
  show "distinct (str_fields (e_Key e))" by (fact n(5))
  show "IsLeaf Y e \<or> IsLeafList Y e \<or> IsDir Y e" using n(2) unfolding n(3) by blast
  show "IsLeaf Y e \<Longrightarrow> \<not> IsLeafList Y e \<and> \<not> IsDir Y e" using x unfolding n(3) by blast
  show "IsLeafList Y e \<Longrightarrow> \<not> IsDir Y e" using x unfolding n(3) by blast
  show "IsContainer Y e \<Longrightarrow> e_Key e = [] \<and> \<not> IsList Y e" using x n(4) by blast
qed

lemma storeOk_keys:
  assumes "storeOk Y e" "IsDir Y e" "k \<in> set (str_fields (e_Key e))"
  shows "\<exists>x\<in>set (getChildren Y e). isField Y x \<and> e_Name x = k"
proof -
  have "list_all (\<lambda>k. list_ex (\<lambda>x. isField Y x \<and> e_Name x = k) (getChildren Y e)) (str_fields (e_Key e))"
    using nodeOkD(6) [OF storeOk_node [OF assms(1)]] assms(2) by (rule mp)
  then show ?thesis using assms(3) by (simp add: list_all_iff list_ex_iff)
qed

lemma expands_dir:
  assumes "storeOk Y e" "IsDir Y e"
  shows "expands Y dt e y \<longleftrightarrow> (\<exists>d els. y = \<lparr>pe_Name = e_Name e, pe_Key = starKeys e\<rparr> # els \<and> data_child Y e d \<and>
    e_Name d \<notin> set (str_fields (e_Key e)) \<and> expands Y dt d els)" (is "_ \<longleftrightarrow> ?R")
proof
  note k = storeOk_kinds [OF assms(1)]
  have c: "starKeys e = []" "str_fields (e_Key e) = []" if "IsContainer Y e"
    using k(5) [OF that] by (simp_all add: starKeys_def str_fields_def)
  show ?R if "expands Y dt e y"
    using that
  proof (cases rule: expands.cases)
    case leaf
    then show ?thesis using k(2,3) assms(2) by blast
  next
    case (list d els)
    then show ?thesis by blast
  next
    case (container d els)
    then show ?thesis using c by auto
  qed
  assume ?R
  then obtain d els where y: "y = \<lparr>pe_Name = e_Name e, pe_Key = starKeys e\<rparr> # els" "data_child Y e d"
    "e_Name d \<notin> set (str_fields (e_Key e))" "expands Y dt d els" by blast
  show "expands Y dt e y"
  proof (cases "IsList Y e")
    case True
    then show ?thesis unfolding y(1) using y(2-4) by (rule expands.list)
  next
    case False
    then have "IsContainer Y e" using k(4) assms(2) by blast
    then show ?thesis unfolding y(1) c(1) [OF \<open>IsContainer Y e\<close>] using y(2,4) by (rule expands.container)
  qed
qed

lemma expands_leaf:
  assumes "storeOk Y e" "\<not> IsDir Y e"
  shows "expands Y dt e y \<longleftrightarrow> y = [\<lparr>pe_Name = e_Name e, pe_Key = []\<rparr>] \<and> dtOk dt e"
proof
  note k = storeOk_kinds [OF assms(1)]
  show "y = [\<lparr>pe_Name = e_Name e, pe_Key = []\<rparr>] \<and> dtOk dt e" if "expands Y dt e y"
    using that by (cases rule: expands.cases) (use k(4) assms(2) in blast)+
  show "expands Y dt e y" if "y = [\<lparr>pe_Name = e_Name e, pe_Key = []\<rparr>] \<and> dtOk dt e"
    using that k(1) assms(2) by (blast intro: expands.leaf)
qed

section \<open>The loops\<close>

definition keeps :: "data_type \<Rightarrow> bool \<Rightarrow> bool" where
  "keeps dt st = (case dt of DT_ALL \<Rightarrow> True | DT_CONFIG \<Rightarrow> \<not> st | DT_STATE \<Rightarrow> st)"

lemma addPath_paths: "addPath r p dt st False = ExpandRsp (ex_Path r @ (if keeps dt st then [p] else [])) (ex_Xpath r)"
  by (cases r) (auto simp: addPath_def keeps_def split: data_type.splits)

lemma fold_addPath:
  "fold (\<lambda>f r. addPath r (P f) dt (st f) False) fs r = ExpandRsp (ex_Path r @ map P (filter (\<lambda>f. keeps dt (st f)) fs)) (ex_Xpath r)"
proof (induction fs arbitrary: r)
  case Nil
  then show ?case by (cases r) simp
next
  case (Cons f fs)
  then show ?case by (simp add: addPath_paths)
qed

lemma expand_fold:
  assumes "\<And>c. c \<in> set cs \<Longrightarrow> ps_ExpandPath n B s (q\<lparr>er_Path := Some (childPath pp c)\<rparr>) = (s, Some (Inr (g c)))"
  shows "fold (\<lambda>child (s, acc).
        case acc of
          Some (Inr r) \<Rightarrow>
            (case ps_ExpandPath n B s (q\<lparr>er_Path := Some (childPath pp child)\<rparr>) of
               (s', Some (Inr r')) \<Rightarrow> (s', Some (Inr (ExpandRsp (ex_Path r @ ex_Path r') (ex_Xpath r @ ex_Xpath r'))))
             | (s', e) \<Rightarrow> (s', e))
        | e \<Rightarrow> (s, e)) cs (s, Some (Inr r)) =
    (s, Some (Inr (ExpandRsp (ex_Path r @ concat (map (ex_Path \<circ> g) cs)) (ex_Xpath r @ concat (map (ex_Xpath \<circ> g) cs)))))"
  using assms
proof (induction cs arbitrary: r)
  case Nil
  then show ?case by (cases r) simp
next
  case (Cons c cs)
  then show ?case by (simp del: ps_ExpandPath.simps)
qed

section \<open>ExpandPath of the persistent store\<close>

abbreviation expReq :: "schema \<Rightarrow> data_type \<Rightarrow> Path \<Rightarrow> expand_req" where
  "expReq sc dt p \<equiv> \<lparr>er_Schema = Some (Key sc), er_Path = Some p, er_DataType = dt, er_Xpath = False\<rparr>"

lemma names_ToStrings: "ToStrings (Some p) False True = map pe_Name (p_Elem p)"
  by (simp add: ToStrings_def concat_map_singleton)

lemma holds_get:
  assumes "holds B s n Y sc r" "map pe_Name (p_Elem p) = p0 # ps" "p0 \<noteq> []" "plainNames (p0 # ps)"
    "map_of (e_Dir (Ptr r [])) p0 = None" "GetEntry Y sc (p0 # ps) = Inr e"
  shows "\<exists>se. ps_GetSchema B s \<lparr>gr_Schema = Some (Key sc), gr_Path = Some p, gr_WithDescription = wd\<rparr> = (s, Inr se) \<and>
    SchemaElemFromYEntry n Y sc e True = Some (Inr se)"
proof -
  from assms(1,4-6) obtain se where se: "getFromDB B (ps_db s) (Key sc) p0 ps = Inr se"
    "SchemaElemFromYEntry n Y sc e True = Some (Inr se)" unfolding holds_def by blast
  have "ps_cache s = None" "ps_HasSchema B s (Key sc)" using assms(1) by (simp_all add: holds_def)
  with se assms(2,3) show ?thesis
    by (intro exI [of _ se]) (simp add: ps_GetSchema_def ps_getSchema_def keyOf_def Let_def names_ToStrings)
qed

lemma stored_leaf:
  assumes "SchemaElemFromYEntry n Y sc e True = Some (Inr se)" "storeOk Y e" "\<not> IsDir Y e"
  shows "(\<exists>f. se = Field f \<and> l_IsState f = isState e) \<or> (\<exists>l. se = Leaflist l \<and> ll_IsState l = isState e)"
proof -
  have "IsLeaf Y e \<or> IsLeafList Y e" using storeOk_kinds(1) [OF assms(2)] assms(3) by blast
  with assms(1) have "leafElem n Y sc e True = Some (Inr se)" by (simp add: SchemaElemFromYEntry_def)
  then show ?thesis
    by (auto simp: leafElem_def leafFromYEntry_def leafListFromYEntry_def split: if_splits)
qed

lemma stored_container:
  assumes "SchemaElemFromYEntry n Y sc e True = Some (Inr se)" "storeOk Y e" "unique_names Y e" "IsDir Y e"
  defines "K \<equiv> set (str_fields (e_Key e))"
  shows "\<exists>c. se = Container c \<and> map l_Name (c_Keys c) = str_fields (e_Key e) \<and>
    set (c_Children c) = e_Name ` {d. data_child Y e d \<and> IsDir Y d} \<and>
    (\<lambda>f. (l_Name f, l_IsState f)) ` set (c_Fields c) = (\<lambda>d. (e_Name d, isState d)) ` {d. data_child Y e d \<and> IsLeaf Y d \<and> e_Name d \<notin> K} \<and>
    (\<lambda>l. (ll_Name l, ll_IsState l)) ` set (c_Leaflists c) = (\<lambda>d. (e_Name d, isState d)) ` {d. data_child Y e d \<and> IsLeafList Y d}"
proof -
  have "\<not> IsLeaf Y e" "\<not> IsLeafList Y e" using storeOk_kinds(2,3) [OF assms(2)] assms(4) by blast+
  with assms(1) obtain c where c: "se = Container c" "containerFromYEntry n Y sc e True = Some (Inr c)"
    by (auto simp: SchemaElemFromYEntry_def)
  have ch: "set (getChildren Y e) = {d. data_child Y e d}" using getChildren_sound getChildren_complete by blast
  have kinds: "isField Y d \<longleftrightarrow> IsLeaf Y d" "isLL Y d \<longleftrightarrow> IsLeafList Y d" if "data_child Y e d" for d
    using storeOk_kinds(2,3) [OF storeOk_child [OF assms(2) that]] by (auto simp: isField_def isLL_def)
  let ?ks = "str_fields (e_Key e)"
  let ?xs = "map e_Name (filter (\<lambda>x. isField Y x \<and> e_Name x \<in> set ?ks) (getChildren Y e))"
  have "distinct ?xs" using unique_names_distinct [OF assms(3)] by (rule distinct_map_filter)
  moreover have "set ?xs = set ?ks" using storeOk_keys [OF assms(2,4)] by auto
  ultimately have "sort_key (slicesIndex ?ks) ?xs = ?ks" using sort_by_keys storeOk_kinds(6) [OF assms(2)] by blast
  then have k: "map l_Name (c_Keys c) = ?ks" "c_Children c = sort (map e_Name (filter (IsDir Y) (getChildren Y e)))"
    using container_lists [OF c(2)] by (simp_all add: lists_def)
  have f: "{d. data_child Y e d \<and> isField Y d \<and> e_Name d \<notin> K} = {d. data_child Y e d \<and> IsLeaf Y d \<and> e_Name d \<notin> K}"
    "{d. data_child Y e d \<and> isLL Y d} = {d. data_child Y e d \<and> IsLeafList Y d}"
    using kinds by blast+
  have "(\<lambda>f. (l_Name f, l_IsState f)) ` set (c_Fields c) = (\<lambda>d. (e_Name d, isState d)) ` {d. data_child Y e d \<and> isField Y d \<and> e_Name d \<notin> K}"
    using arg_cong [OF container_states(1) [OF c(2)], of set] ch by (simp add: K_def)
  moreover have "(\<lambda>l. (ll_Name l, ll_IsState l)) ` set (c_Leaflists c) = (\<lambda>d. (e_Name d, isState d)) ` {d. data_child Y e d \<and> isLL Y d}"
    using arg_cong [OF container_states(2) [OF c(2)], of set] ch by simp
  ultimately show ?thesis using c(1) k ch unfolding f by simp
qed

definition starred :: "eptr \<Rightarrow> PathElem \<Rightarrow> PathElem" where
  "starred e x = x\<lparr>pe_Key := fold (\<lambda>k m. AList.update k ''*'' m) (str_fields (e_Key e)) (pe_Key x)\<rparr>"

definition expanded :: "yang_api \<Rightarrow> data_type \<Rightarrow> eptr \<Rightarrow> PathElem list \<Rightarrow> PathElem \<Rightarrow> PathElem list set" where
  "expanded Y dt e pre x =
     (if IsDir Y e then {pre @ starred e x # els |els d. data_child Y e d \<and> e_Name d \<notin> set (str_fields (e_Key e)) \<and> expands Y dt d els}
      else if dtOk dt e then {pre @ [x]} else {})"

lemma expanded_expands:
  assumes "storeOk Y d"
  shows "expanded Y dt d pre \<lparr>pe_Name = e_Name d, pe_Key = []\<rparr> = {pre @ y |y. expands Y dt d y}"
proof (cases "IsDir Y d")
  case True
  then show ?thesis unfolding expands_dir [OF assms True] by (auto simp: expanded_def starred_def starKeys_def)
next
  case False
  then show ?thesis unfolding expands_leaf [OF assms False] by (auto simp: expanded_def)
qed

lemma Collect_image_filter: "{z \<in> f ` A. P z} = f ` {a \<in> A. P (f a)}"
  by blast

lemma starLast_starred:
  assumes "p_Elem p = pre @ [x]"
  shows "starLast (str_fields (e_Key e)) p = Inr (p\<lparr>p_Elem := pre @ [starred e x]\<rparr>)"
  using assms by (cases "str_fields (e_Key e) = []") (simp_all add: starLast_def starred_def)

text \<open>One level: the answer for a directory from the answers for its directories.\<close>

lemma expand_dir:
  assumes get: "ps_GetSchema B s \<lparr>gr_Schema = Some (Key sc), gr_Path = Some p, gr_WithDescription = False\<rparr> = (s, Inr (Container c))"
    and keys: "map l_Name (c_Keys c) = str_fields (e_Key e)" and p: "p_Elem p = pre @ [x]"
    and ch: "\<forall>nm\<in>set (c_Children c).
      ps_ExpandPath k B s (expReq sc dt (childPath (p\<lparr>p_Elem := pre @ [starred e x]\<rparr>) nm)) = (s, Some (Inr (g nm)))"
  shows "\<exists>rsp. ps_ExpandPath (Suc k) B s (expReq sc dt p) = (s, Some (Inr rsp)) \<and>
    p_Elem ` set (ex_Path rsp) =
      {pre @ [starred e x, \<lparr>pe_Name = nm, pe_Key = []\<rparr>] |nm st. keeps dt st \<and>
        (nm, st) \<in> (\<lambda>f. (l_Name f, l_IsState f)) ` set (c_Fields c) \<union> (\<lambda>l. (ll_Name l, ll_IsState l)) ` set (c_Leaflists c)} \<union>
      (\<Union>nm\<in>set (c_Children c). p_Elem ` set (ex_Path (g nm)))"
proof -
  let ?pp = "p\<lparr>p_Elem := pre @ [starred e x]\<rparr>"
  define fs where "fs = map (\<lambda>f. childPath ?pp (l_Name f)) (filter (\<lambda>f. keeps dt (l_IsState f)) (c_Fields c))"
  define ls where "ls = map (\<lambda>l. childPath ?pp (ll_Name l)) (filter (\<lambda>l. keeps dt (ll_IsState l)) (c_Leaflists c))"
  have st: "starLast (map l_Name (c_Keys c)) p = Inr ?pp" unfolding keys using p by (rule starLast_starred)
  have "ps_ExpandPath (Suc k) B s (expReq sc dt p) =
    (s, Some (Inr (ExpandRsp (fs @ ls @ concat (map (ex_Path \<circ> g) (c_Children c))) (concat (map (ex_Xpath \<circ> g) (c_Children c))))))"
    using expand_fold [where cs = "c_Children c" and n = k and B = B and s = s and q = "expReq sc dt p" and pp = ?pp
        and g = g and r = "ExpandRsp (fs @ ls) []"] ch
    by (simp add: get st fold_addPath fs_def ls_def)
  moreover have "p_Elem ` set (fs @ ls) = {pre @ [starred e x, \<lparr>pe_Name = nm, pe_Key = []\<rparr>] |nm st. keeps dt st \<and>
        (nm, st) \<in> (\<lambda>f. (l_Name f, l_IsState f)) ` set (c_Fields c) \<union> (\<lambda>l. (ll_Name l, ll_IsState l)) ` set (c_Leaflists c)}"
  proof -
    have "{pre @ [y, \<lparr>pe_Name = nm, pe_Key = []\<rparr>] |nm st. keeps dt st \<and> (nm, st) \<in> A \<union> A'} =
        (\<lambda>z. pre @ [y, \<lparr>pe_Name = fst z, pe_Key = []\<rparr>]) ` {z \<in> A. keeps dt (snd z)} \<union>
        (\<lambda>z. pre @ [y, \<lparr>pe_Name = fst z, pe_Key = []\<rparr>]) ` {z \<in> A'. keeps dt (snd z)}" for A A' and y :: PathElem
      by force
    then show ?thesis by (simp add: fs_def ls_def childPath_def image_Un image_image Collect_image_filter)
  qed
  ultimately show ?thesis unfolding set_append image_Un by (auto simp: image_Un image_UN Un_assoc [symmetric])
qed

lemma dtOk_keeps: "dtOk dt e \<longleftrightarrow> keeps dt (isState e)"
  by (simp add: dtOk_def keeps_def)

lemma key_is_leaf:
  assumes "storeOk Y e" "unique_names Y e" "IsDir Y e" "data_child Y e d" "e_Name d \<in> set (str_fields (e_Key e))"
  shows "IsLeaf Y d"
proof -
  from storeOk_keys [OF assms(1,3,5)] obtain x where x: "x \<in> set (getChildren Y e)" "isField Y x" "e_Name x = e_Name d" by blast
  have "d \<in> set (getChildren Y e)" using assms(4) by (rule getChildren_complete)
  with x have "x = d" using inj_onD [OF distinct_map [THEN iffD1, THEN conjunct2, OF unique_names_distinct [OF assms(2)]]] by blast
  with x(2) show ?thesis by (simp add: isField_def)
qed

lemma expanded_split:
  assumes "storeOk Y e" "unique_names Y e" "IsDir Y e"
  defines "K \<equiv> set (str_fields (e_Key e))"
  shows "expanded Y dt e pre x =
    {pre @ [starred e x, \<lparr>pe_Name = nm, pe_Key = []\<rparr>] |nm st. keeps dt st \<and>
        (nm, st) \<in> (\<lambda>d. (e_Name d, isState d)) ` {d. data_child Y e d \<and> IsLeaf Y d \<and> e_Name d \<notin> K} \<union>
          (\<lambda>d. (e_Name d, isState d)) ` {d. data_child Y e d \<and> IsLeafList Y d}} \<union>
    (\<Union>d\<in>{d. data_child Y e d \<and> IsDir Y d}. expanded Y dt d (pre @ [starred e x]) \<lparr>pe_Name = e_Name d, pe_Key = []\<rparr>)"
    (is "_ = ?L \<union> ?D")
proof -
  note k = storeOk_kinds [OF storeOk_child [OF assms(1)]]
  note lf = expands_leaf [OF storeOk_child [OF assms(1)]]
  have nk: "e_Name d \<notin> K" if "data_child Y e d" "\<not> IsLeaf Y d" for d
    using key_is_leaf [OF assms(1-3) that(1)] that(2) unfolding K_def by blast
  let ?E = "\<lambda>A. {pre @ starred e x # els |els d. data_child Y e d \<and> e_Name d \<notin> K \<and> expands Y dt d els \<and> d \<in> A}"
  have "expanded Y dt e pre x = ?E {d. \<not> IsDir Y d} \<union> ?E {d. IsDir Y d}"
    using assms(3) by (simp add: expanded_def K_def) blast
  moreover have "?E {d. \<not> IsDir Y d} = ?L"
  proof -
    have "?E {d. \<not> IsDir Y d} = {pre @ [starred e x, \<lparr>pe_Name = e_Name d, pe_Key = []\<rparr>] |d.
        data_child Y e d \<and> e_Name d \<notin> K \<and> \<not> IsDir Y d \<and> keeps dt (isState d)}"
      using lf dtOk_keeps by (simp cong: conj_cong) blast
    also have "\<dots> = {pre @ [starred e x, \<lparr>pe_Name = e_Name d, pe_Key = []\<rparr>] |d.
        data_child Y e d \<and> (IsLeaf Y d \<and> e_Name d \<notin> K \<or> IsLeafList Y d) \<and> keeps dt (isState d)}"
      using k(1-3) nk by blast
    also have "\<dots> = ?L" by blast
    finally show ?thesis .
  qed
  moreover have "?E {d. IsDir Y d} = ?D"
  proof -
    have "?D = (\<Union>d\<in>{d. data_child Y e d \<and> IsDir Y d}. {pre @ starred e x # y |y. expands Y dt d y})"
      using expanded_expands [OF storeOk_child [OF assms(1)]] by simp
    then show ?thesis using nk k(2) by blast
  qed
  ultimately show ?thesis by simp
qed

lemma starred_Name [simp]: "pe_Name (starred e x) = pe_Name x"
  by (simp add: starred_def)

lemma expand_node:
  assumes h: "holds B s n Y sc r" "schemaOk Y r" "sc_root sc = Some r"
    and "storeOk Y e" "unique_names Y e" "treeOk Y e" "size (ent e) < k"
    and "map pe_Name (p_Elem p) = p0 # ps" "p0 \<noteq> []" "plainNames (p0 # ps)"
    and "map_of (e_Dir (Ptr r [])) p0 = None" "GetEntry Y sc (p0 # ps) = Inr e" "p_Elem p = pre @ [x]"
  shows "\<exists>rsp. ps_ExpandPath k B s (expReq sc dt p) = (s, Some (Inr rsp)) \<and> p_Elem ` set (ex_Path rsp) = expanded Y dt e pre x"
  using assms(4-)
proof (induction k arbitrary: e p ps pre x)
  case (Suc k)
  note prems = Suc.prems
  from holds_get [OF h(1) prems(5-9)] obtain se where
    g: "ps_GetSchema B s \<lparr>gr_Schema = Some (Key sc), gr_Path = Some p, gr_WithDescription = False\<rparr> = (s, Inr se)"
    and se: "SchemaElemFromYEntry n Y sc e True = Some (Inr se)" by blast
  show ?case
  proof (cases "IsDir Y e")
    case False
    have "p_Elem ` set (if keeps dt (isState e) then [p] else []) = expanded Y dt e pre x"
      using False prems(10) by (simp add: expanded_def dtOk_keeps)
    moreover have "ps_ExpandPath (Suc k) B s (expReq sc dt p) =
        (s, Some (Inr (ExpandRsp (if keeps dt (isState e) then [p] else []) [])))"
      using stored_leaf [OF se prems(1) False]
      by (elim disjE exE conjE) (simp_all add: g addPath_paths)
    ultimately show ?thesis by (simp only: prod.inject option.inject sum.inject simp_thms ex_simps expand_rsp.sel)
  next
    case True
    let ?K = "set (str_fields (e_Key e))" and ?p = "p\<lparr>p_Elem := pre @ [starred e x]\<rparr>"
    let ?call = "\<lambda>nm. ps_ExpandPath k B s (expReq sc dt (childPath ?p nm))"
    from stored_container [OF se prems(1,2) True] obtain c where c: "se = Container c"
      "map l_Name (c_Keys c) = str_fields (e_Key e)" "set (c_Children c) = e_Name ` {d. data_child Y e d \<and> IsDir Y d}"
      "(\<lambda>f. (l_Name f, l_IsState f)) ` set (c_Fields c) = (\<lambda>d. (e_Name d, isState d)) ` {d. data_child Y e d \<and> IsLeaf Y d \<and> e_Name d \<notin> ?K}"
      "(\<lambda>l. (ll_Name l, ll_IsState l)) ` set (c_Leaflists c) = (\<lambda>d. (e_Name d, isState d)) ` {d. data_child Y e d \<and> IsLeafList Y d}"
      by (elim exE conjE) (rule that)
    define f where "f nm = projr (the (snd (?call nm)))" for nm
    have f: "?call (e_Name d) = (s, Some (Inr (f (e_Name d))))"
      "p_Elem ` set (ex_Path (f (e_Name d))) = expanded Y dt d (pre @ [starred e x]) \<lparr>pe_Name = e_Name d, pe_Key = []\<rparr>"
      if "data_child Y e d" for d
    proof -
      note d = storeOk_child [OF prems(1) that] unique_names_child [OF prems(2) that] data_child_treeOk [OF that prems(3)]
      have sz: "size (ent d) < k" using getChildren_size [OF that] prems(4) by linarith
      have nm: "colon \<notin> set (e_Name d)" "slash \<notin> set (e_Name d)" using treeOk_name [OF d(3)] by blast+
      have "colon \<notin> set p0" using prems(7) by simp
      from GetEntry_snoc [OF h(2,3) this prems(8,9) that nm(1)] have "GetEntry Y sc (p0 # ps @ [e_Name d]) = Inr d" .
      moreover have "map pe_Name (p_Elem (childPath ?p (e_Name d))) = p0 # ps @ [e_Name d]"
        using prems(5,10) by (simp add: childPath_def)
      moreover have "plainNames (p0 # ps @ [e_Name d])" using prems(7) nm by simp
      ultimately have "\<exists>rsp. ?call (e_Name d) = (s, Some (Inr rsp)) \<and>
          p_Elem ` set (ex_Path rsp) = expanded Y dt d (pre @ [starred e x]) \<lparr>pe_Name = e_Name d, pe_Key = []\<rparr>"
        using Suc.IH [OF d sz _ prems(6) _ prems(8), where p = "childPath ?p (e_Name d)" and ps = "ps @ [e_Name d]"] by (simp add: childPath_def)
      then obtain rsp where r: "?call (e_Name d) = (s, Some (Inr rsp))"
          "p_Elem ` set (ex_Path rsp) = expanded Y dt d (pre @ [starred e x]) \<lparr>pe_Name = e_Name d, pe_Key = []\<rparr>" by blast
      then have "f (e_Name d) = rsp" by (simp only: f_def snd_conv option.sel sum.sel)
      with r show "?call (e_Name d) = (s, Some (Inr (f (e_Name d))))"
        "p_Elem ` set (ex_Path (f (e_Name d))) = expanded Y dt d (pre @ [starred e x]) \<lparr>pe_Name = e_Name d, pe_Key = []\<rparr>"
        by (simp_all only:)
    qed
    have ch: "\<forall>nm\<in>set (c_Children c). ?call nm = (s, Some (Inr (f nm)))" using f(1) unfolding c(3) by blast
    obtain rsp where
      rsp: "ps_ExpandPath (Suc k) B s (expReq sc dt p) = (s, Some (Inr rsp))"
      "p_Elem ` set (ex_Path rsp) =
      {pre @ [starred e x, \<lparr>pe_Name = nm, pe_Key = []\<rparr>] |nm st. keeps dt st \<and>
        (nm, st) \<in> (\<lambda>f. (l_Name f, l_IsState f)) ` set (c_Fields c) \<union> (\<lambda>l. (ll_Name l, ll_IsState l)) ` set (c_Leaflists c)} \<union>
      (\<Union>nm\<in>set (c_Children c). p_Elem ` set (ex_Path (f nm)))"
      using expand_dir [OF g [unfolded c(1)] c(2) prems(10) ch] by (elim exE conjE) (rule that)
    have "(\<Union>nm\<in>set (c_Children c). p_Elem ` set (ex_Path (f nm))) =
      (\<Union>d\<in>{d. data_child Y e d \<and> IsDir Y d}. expanded Y dt d (pre @ [starred e x]) \<lparr>pe_Name = e_Name d, pe_Key = []\<rparr>)"
      unfolding c(3) using f(2) by simp
    with rsp(2) have "p_Elem ` set (ex_Path rsp) = expanded Y dt e pre x"
      unfolding expanded_split [OF prems(1,2) True] c(4,5) by (simp only:)
    with rsp(1) show ?thesis by (intro exI conjI)
  qed
qed simp

lemma data_path_below: "data_path Y m q e \<Longrightarrow> unique_names Y m \<Longrightarrow> treeOk Y m \<Longrightarrow> unique_names Y e \<and> treeOk Y e"
  by (induction rule: data_path.induct) (auto dest: unique_names_child data_child_treeOk)

lemma GetEntry_below:
  assumes "schemaOk Y r" "sc_root sc = Some r" "colon \<notin> set p" "map_of (e_Dir (Ptr r [])) p = None" "GetEntry Y sc (p # ps) = Inr e"
  shows "unique_names Y e" "treeOk Y e"
proof -
  from GetEntry_data [OF assms] obtain m where m: "m \<in> set (e_children (Ptr r []))" "data_path Y m (p # ps) e" by blast
  have "unique_names Y m" "treeOk Y m" using schemaOk_module [OF assms(1) m(1)] by (simp_all add: moduleOk_def)
  with data_path_below [OF m(2)] show "unique_names Y e" "treeOk Y e" by blast+
qed

text \<open>C28: \<open>ExpandPath\<close> of the persistent store ends and is complete. On the store that
  \<open>AddSchema\<close> leaves, with a recursion depth above the size of the addressed subtree, it returns,
  changes nothing, and the paths it returns are exactly those of the leafs and leaf-lists below the
  node that pass the data type filter: the elements given, the last one with every key of the node
  set to \<open>*\<close>, then the way down with wildcards for the keys of lists. Key leafs are left out. For a
  leaf it is the path itself, or nothing.\<close>

theorem ps_ExpandPath_spec:
  assumes "backend_ok B" "schemaOk Y r" "sc_root sc = Some r"
    and "ps_AddSchema n Y B s sc = Some (Inr (s', sc'))" "ps_cache s = None"
    and "\<forall>p ps. kv_get B (ps_db s) (buildEntryKey (Key sc) p ps) = None"
    and "p_Elem p = pre @ [x]" "map pe_Name (p_Elem p) = p0 # ps" "p0 \<noteq> []" "plainNames (p0 # ps)"
    and "map_of (e_Dir (Ptr r [])) p0 = None" "GetEntry Y sc (p0 # ps) = Inr e" "storeOk Y e"
    and "size (ent e) < k"
  shows "\<exists>rsp. ps_ExpandPath k B s' \<lparr>er_Schema = Some (Key sc), er_Path = Some p, er_DataType = dt, er_Xpath = False\<rparr> =
      (s', Some (Inr rsp)) \<and>
    p_Elem ` set (ex_Path rsp) =
      (if IsDir Y e
       then {pre @ x\<lparr>pe_Key := fold (\<lambda>key m. AList.update key ''*'' m) (str_fields (e_Key e)) (pe_Key x)\<rparr> # els |els d.
         data_child Y e d \<and> e_Name d \<notin> set (str_fields (e_Key e)) \<and> expands Y dt d els}
       else if dtOk dt e then {pre @ [x]} else {})"
proof -
  have c: "colon \<notin> set p0" using assms(10) by simp
  from expand_node [OF AddSchema_holds [OF assms(1-6)] assms(2,3,13) GetEntry_below [OF assms(2,3) c assms(11,12)]
      assms(14,8-12,7)]
  show ?thesis unfolding expanded_def starred_def .
qed

theorem ps_ExpandPath_spec_witness:
  "\<exists>s' sc' rsp. ps_AddSchema 2 kindApi fxBackend fxStore fxSchema = Some (Inr (s', sc')) \<and>
     ps_ExpandPath 100 fxBackend s' (expReq fxSchema DT_CONFIG fxHostPath) = (s', Some (Inr rsp)) \<and>
     [\<lparr>pe_Name = ''host'', pe_Key = []\<rparr>, \<lparr>pe_Name = ''other-leaf'', pe_Key = []\<rparr>] \<in> p_Elem ` set (ex_Path rsp)"
proof -
  let ?e = "Ptr fxHost [fxModule, fxRoot]"
  obtain s' sc' where a: "ps_AddSchema 2 kindApi fxBackend fxStore fxSchema = Some (Inr (s', sc'))"
    using fxStore_add by blast
  have g: "GetEntry kindApi fxSchema (''host'' # []) = Inr ?e" and ok: "storeOk kindApi ?e" "IsDir kindApi ?e"
    "str_fields (e_Key ?e) = []" "size (ent ?e) < 100" by code_simp+
  have "list_ex (\<lambda>d. e_Name d = ''other-leaf'' \<and> IsLeaf kindApi d \<and> dtOk DT_CONFIG d) (getChildren kindApi ?e)" by code_simp
  then obtain d where d: "data_child kindApi ?e d" "e_Name d = ''other-leaf''" "IsLeaf kindApi d" "dtOk DT_CONFIG d"
    using getChildren_sound by (auto simp: list_ex_iff)
  then have x: "expands kindApi DT_CONFIG d [\<lparr>pe_Name = ''other-leaf'', pe_Key = []\<rparr>]" using expands.leaf by metis
  have "\<exists>rsp. ps_ExpandPath 100 fxBackend s' (expReq fxSchema DT_CONFIG fxHostPath) = (s', Some (Inr rsp)) \<and>
    p_Elem ` set (ex_Path rsp) =
      (if IsDir kindApi ?e
       then {[] @ \<lparr>pe_Name = ''host'', pe_Key = []\<rparr>\<lparr>pe_Key := fold (\<lambda>key m. AList.update key ''*'' m) (str_fields (e_Key ?e)) []\<rparr> # els |els d.
         data_child kindApi ?e d \<and> e_Name d \<notin> set (str_fields (e_Key ?e)) \<and> expands kindApi DT_CONFIG d els}
       else if dtOk DT_CONFIG ?e then {[] @ [\<lparr>pe_Name = ''host'', pe_Key = []\<rparr>]} else {})"
    using ps_ExpandPath_spec [OF fxBackend_ok fxSchema_ok a _ _ _ _ _ _ _ g ok(1,4), where pre = "[]" and x = "\<lparr>pe_Name = ''host'', pe_Key = []\<rparr>"
        and p = fxHostPath and dt = DT_CONFIG]
    by (simp add: fxStore_def fxBackend_def fxHostPath_def char_defs fx_defs e_Dir_def dirl_def del: ps_ExpandPath.simps)
  with ok(2,3) x d(1) show ?thesis unfolding ok(3) using a
    by (auto simp del: ps_ExpandPath.simps)
qed

end
