(* ===== verification/StoresAgree.thy ===== *)
theory StoresAgree
  imports Rpc PersistExpand
begin

text \<open>
  The two stores behind the server: sequences of requests to create, reload, delete, list and query
  schemas get the same replies from the in-memory store and from the persistent store without cache.

  The proof is a simulation. \<open>backs\<close> says what the database has to hold for one key of the map of
  the in-memory store; a write for one key leaves the pairs of the other keys alone as long as no key
  string is a prefix of another (\<open>apart\<close>).
\<close>

section \<open>The pairs of one key\<close>

definition ownKey :: "schema_key \<Rightarrow> string \<Rightarrow> bool" where
  "ownKey k x \<longleftrightarrow> x = buildSchemaKey k \<or> (\<exists>p ps. x = buildEntryKey k p ps)"

definition apart :: "schema_key set \<Rightarrow> bool" where
  "apart K \<longleftrightarrow> (\<forall>k\<in>K. \<forall>k'\<in>K. k \<noteq> k' \<longrightarrow> \<not> prefix (schemaKeyString k) (schemaKeyString k'))"

lemma apart_prefix:
  assumes "\<not> prefix (schemaKeyString k) (schemaKeyString k')" "\<not> prefix (schemaKeyString k') (schemaKeyString k)" "ownKey k' x"
  shows "\<not> prefix (buildEntryKey k [] []) x \<and> \<not> prefix (buildSchemaKey k) x"
proof -
  have "\<not> prefix (schemaKeyString k @ y) (schemaKeyString k' @ z)" for y z
  proof
    assume "prefix (schemaKeyString k @ y) (schemaKeyString k' @ z)"
    then have "prefix (schemaKeyString k) (schemaKeyString k' @ z)" by (rule append_prefixD)
    moreover have "prefix (schemaKeyString k') (schemaKeyString k' @ z)" by simp
    ultimately show False using prefix_same_cases assms(1,2) by blast
  qed
  from this [of "'':::''"] this [of "[]" "[]"] assms(3) show ?thesis
    by (auto simp: ownKey_def buildEntryKey_def buildSchemaKey_def schemaObjectsPrefix_def schemasPrefix_def)
qed

lemma ownKey_prefix: "ownKey k x \<Longrightarrow> prefix (buildEntryKey k [] []) x \<or> prefix (buildSchemaKey k) x"
  by (auto simp: ownKey_def buildEntryKey_def)

lemma firstModule_frame:
  "(\<And>p ps. kv_get B d' (buildEntryKey k p ps) = kv_get B d (buildEntryKey k p ps)) \<Longrightarrow>
   firstModule B d' k p0 ps ms = firstModule B d k p0 ps ms"
  by (induction ms) (auto split: option.split)

lemma getFromDB_frame:
  assumes "\<And>p ps. kv_get B d' (buildEntryKey k p ps) = kv_get B d (buildEntryKey k p ps)"
  shows "getFromDB B d' k p0 ps = getFromDB B d k p0 ps"
proof -
  have f: "firstModule B d' k p ps = firstModule B d k p ps" for p by (rule ext, rule firstModule_frame [OF assms])
  have m: "getModules B d' k = getModules B d k" by (simp add: getModules_def assms)
  show ?thesis unfolding getFromDB_def m f ..
qed

section \<open>What the database holds for one key\<close>

definition catalogued :: "('d, 'b, 'c) backend \<Rightarrow> 'd \<Rightarrow> schema_key \<Rightarrow> schema_config \<Rightarrow> bool" where
  "catalogued B db k cfg \<longleftrightarrow> (\<exists>v. kv_get B db (buildSchemaKey k) = Some v \<and>
     js_unmarshal B v = Inr [(''files'', cfg_Files cfg), (''directories'', cfg_Directories cfg), (''excludes'', cfg_Excludes cfg)])"

definition answering :: "nat \<Rightarrow> yang_api \<Rightarrow> ('d, 'b, 'c) backend \<Rightarrow> 'd \<Rightarrow> schema \<Rightarrow> entry \<Rightarrow> bool" where
  "answering n Y B db sc r \<longleftrightarrow>
     (\<exists>b rse. kv_get B db (buildEntryKey (Key sc) RootName []) = Some b \<and> pb_unmarshal B b = Inr rse \<and>
        SchemaElemFromYEntry n Y sc (Ptr r []) True = Some (Inr rse)) \<and>
     (\<forall>p ps se. plainNames (p # ps) \<longrightarrow> map_of (e_Dir (Ptr r [])) p = None \<longrightarrow>
        (getFromDB B db (Key sc) p ps = Inr se \<longleftrightarrow>
          (\<exists>e. GetEntry Y sc (p # ps) = Inr e \<and> SchemaElemFromYEntry n Y sc e True = Some (Inr se))))"

definition backs :: "nat \<Rightarrow> yang_api \<Rightarrow> ('d, 'b, 'c) backend \<Rightarrow> 'd \<Rightarrow> schema_key \<Rightarrow> schema option \<Rightarrow> bool" where
  "backs n Y B db k x = (case x of
     None \<Rightarrow> \<forall>x. ownKey k x \<longrightarrow> kv_get B db x = None
   | Some sc \<Rightarrow> Key sc = k \<and> checkKey k = Inr () \<and> catalogued B db k (sc_config sc) \<and>
       (\<exists>r. sc_root sc = Some r \<and> schemaOk Y r \<and> answering n Y B db sc r))"

lemma backs_frame:
  assumes "backs n Y B d k x" "\<And>y. ownKey k y \<Longrightarrow> kv_get B d' y = kv_get B d y"
  shows "backs n Y B d' k x"
proof -
  have e: "kv_get B d' (buildEntryKey k p ps) = kv_get B d (buildEntryKey k p ps)" for p ps
    using assms(2) by (auto simp: ownKey_def)
  have c: "kv_get B d' (buildSchemaKey k) = kv_get B d (buildSchemaKey k)" using assms(2) by (simp add: ownKey_def)
  show ?thesis
  proof (cases x)
    case None
    with assms show ?thesis by (simp add: backs_def)
  next
    case (Some sc)
    with assms(1) have "Key sc = k" by (simp add: backs_def)
    then have "answering n Y B d' sc r = answering n Y B d sc r" for r
      unfolding answering_def by (simp add: e getFromDB_frame [OF e])
    with assms(1) Some c show ?thesis by (simp add: backs_def catalogued_def)
  qed
qed

lemma add_frame:
  assumes "kv_ok B" "schemaOk Y r" "sc_root sc = Some r" "ps_AddSchema n Y B s sc = Some (Inr (s', sc'))" "\<not> ownKey (Key sc) y"
  shows "kv_get B (ps_db s') y = kv_get B (ps_db s) y"
proof -
  from kv_stored [OF assms(1-4)] obtain kvs v where
    kvs: "list_all2 (\<lambda>x kv. entryPair n Y B sc x = Some (Inr kv)) (walkNodes Y (Ptr r [])) kvs"
    and get: "kv_get B (ps_db s') y = (case map_of (rev (kvs @ [(buildSchemaKey (Key sc), v)])) y of
        Some v \<Rightarrow> Some v | None \<Rightarrow> kv_get B (ps_db s) y)" by blast
  have "ownKey (Key sc) x" if xb: "(x, b) \<in> set kvs" for x b
  proof -
    from list_all2_in2 [OF kvs xb] obtain z where z: "z \<in> set (walkNodes Y (Ptr r []))" "entryPair n Y B sc z = Some (Inr (x, b))"
      by blast
    from entryPair_key [OF assms(2) z] show ?thesis by (auto simp: ownKey_def)
  qed
  then have "map_of (rev (kvs @ [(buildSchemaKey (Key sc), v)])) y = None"
    using assms(5) unfolding map_of_rev_None by (auto simp: ownKey_def)
  with get show ?thesis by simp
qed

lemma add_backs:
  assumes "kv_ok B" "codec_ok B" "schemaOk Y r" "sc_root sc = Some r" "ps_AddSchema n Y B s sc = Some (Inr (s', sc'))"
    and "backs n Y B (ps_db s) (Key sc) None" "checkKey (Key sc) = Inr ()"
  shows "backs n Y B (ps_db s') (Key sc) (Some sc)"
proof -
  have fresh: "kv_get B (ps_db s) (buildEntryKey (Key sc) p ps) = None" for p ps
    using assms(6) by (auto simp: backs_def ownKey_def)
  from kv_root [OF assms(1,3-5)] obtain b rse where
    "kv_get B (ps_db s') (buildEntryKey (Key sc) RootName []) = Some b" "pb_marshal B rse = Inr b"
    "SchemaElemFromYEntry n Y sc (Ptr r []) True = Some (Inr rse)" by blast
  moreover from this(2) have "pb_unmarshal B b = Inr rse" using assms(2) by (simp add: codec_ok_def)
  ultimately have "answering n Y B (ps_db s') sc r"
    using getFromDB_GetEntry [OF assms(1-5) _ fresh] unfolding answering_def by blast
  moreover have "catalogued B (ps_db s') (Key sc) (sc_config sc)"
  proof -
    from kv_stored [OF assms(1,3-5)] obtain kvs v where
      v: "js_marshal B [(''files'', sc_Files sc), (''directories'', sc_Dirs sc),
         (''excludes'', sc_Excludes sc)] = Inr v"
      and get: "\<And>k. kv_get B (ps_db s') k = (case map_of (rev (kvs @ [(buildSchemaKey (Key sc), v)])) k of
        Some v \<Rightarrow> Some v | None \<Rightarrow> kv_get B (ps_db s) k)" by blast
    from v have "js_unmarshal B v = Inr [(''files'', sc_Files sc), (''directories'', sc_Dirs sc),
         (''excludes'', sc_Excludes sc)]" using assms(2) by (simp add: codec_ok_def)
    with get [of "buildSchemaKey (Key sc)"] show ?thesis by (simp add: catalogued_def)
  qed
  ultimately show ?thesis using assms(3,4,7) by (simp add: backs_def)
qed

lemma delete_frame:
  assumes "kv_ok B" "ps_DeleteSchema B s (Some k) = Inr s'"
  shows "backs n Y B (ps_db s') k None" "ps_cache s' = ps_cache s"
    "\<not> prefix (buildEntryKey k [] []) y \<Longrightarrow> \<not> prefix (buildSchemaKey k) y \<Longrightarrow> kv_get B (ps_db s') y = kv_get B (ps_db s) y"
proof -
  note g = ps_Delete_get [OF assms]
  show "backs n Y B (ps_db s') k None" unfolding backs_def using g ownKey_prefix by auto
  show "ps_cache s' = ps_cache s" using g by blast
  show "\<not> prefix (buildEntryKey k [] []) y \<Longrightarrow> \<not> prefix (buildSchemaKey k) y \<Longrightarrow> kv_get B (ps_db s') y = kv_get B (ps_db s) y"
    using g by simp
qed

section \<open>The simulation relation\<close>

definition simul :: "nat \<Rightarrow> yang_api \<Rightarrow> ('d, 'b, 'c) backend \<Rightarrow> schema_key set \<Rightarrow> memStore \<Rightarrow> ('d, 'c) persistStore \<Rightarrow> bool" where
  "simul n Y B K ms s \<longleftrightarrow> keyed ms \<and> ps_cache s = None \<and> (\<forall>k\<in>K. backs n Y B (ps_db s) k (mem_abs ms k))"

lemma simulD: "simul n Y B K ms s \<Longrightarrow> k \<in> K \<Longrightarrow> backs n Y B (ps_db s) k (mem_abs ms k)"
  by (simp add: simul_def)

lemma backs_has: "backs n Y B (ps_db s) k x \<Longrightarrow> ps_HasSchema B s k \<longleftrightarrow> x \<noteq> None"
  by (cases x) (auto simp: backs_def ps_HasSchema_def ownKey_def catalogued_def)

lemma apartD:
  assumes "apart K" "k \<in> K" "k' \<in> K" "k \<noteq> k'" "ownKey k' y"
  shows "\<not> ownKey k y" "\<not> prefix (buildEntryKey k [] []) y" "\<not> prefix (buildSchemaKey k) y"
proof -
  have "\<not> prefix (schemaKeyString k) (schemaKeyString k')" "\<not> prefix (schemaKeyString k') (schemaKeyString k)"
    using assms(1-4) by (simp_all add: apart_def)
  note p = apart_prefix [OF this assms(5)]
  show "\<not> prefix (buildEntryKey k [] []) y" "\<not> prefix (buildSchemaKey k) y" using p by simp_all
  show "\<not> ownKey k y" using p ownKey_prefix by blast
qed

lemma simul_add:
  assumes "kv_ok B" "codec_ok B" "apart K" "simul n Y B K ms s" "schemaOk Y r" "sc_root sc = Some r"
    and "ps_AddSchema n Y B s sc = Some (Inr (s', sc'))" "backs n Y B (ps_db s) (Key sc) None" "checkKey (Key sc) = Inr ()" "Key sc \<in> K"
  shows "simul n Y B K (mem_store sc ms) s'"
proof -
  have "backs n Y B (ps_db s') k (mem_abs (mem_store sc ms) k)" if k: "k \<in> K" for k
  proof (cases "k = Key sc")
    case True
    then show ?thesis using add_backs [OF assms(1,2,5-9)] by (simp add: mem_store_abs)
  next
    case False
    have "kv_get B (ps_db s') y = kv_get B (ps_db s) y" if "ownKey k y" for y
      by (rule add_frame [OF assms(1,5-7)]) (use apartD(1) [OF assms(3,10) k _ that] False in blast)
    from backs_frame [OF simulD [OF assms(4) k] this] False show ?thesis by (simp add: mem_store_abs)
  qed
  with assms(4) ps_AddSchema_cache [OF assms(7)] show ?thesis by (simp add: simul_def keyed_store)
qed

lemma simul_delete:
  assumes "kv_ok B" "apart K" "simul n Y B K ms s" "ps_DeleteSchema B s (Some k) = Inr s'" "k \<in> K"
  shows "simul n Y B K (mem_delete k ms) s'" "backs n Y B (ps_db s') k None"
proof -
  show b: "backs n Y B (ps_db s') k None" by (rule delete_frame [OF assms(1,4)])
  have "backs n Y B (ps_db s') k' (mem_abs (mem_delete k ms) k')" if k': "k' \<in> K" for k'
  proof (cases "k' = k")
    case True
    then show ?thesis using b by (simp add: mem_delete_abs)
  next
    case False
    have "kv_get B (ps_db s') y = kv_get B (ps_db s) y" if "ownKey k' y" for y
      using delete_frame(3) [OF assms(1,4)] apartD(2,3) [OF assms(2,5) k' _ that] False by metis
    from backs_frame [OF simulD [OF assms(3) k'] this] False show ?thesis by (simp add: mem_delete_abs)
  qed
  then show "simul n Y B K (mem_delete k ms) s'"
    using assms(3) delete_frame(2) [OF assms(1,4)] by (simp add: simul_def keyed_delete)
qed

section \<open>Requests\<close>

text \<open>A configuration is loadable into both stores: what the loader delivers for it is a well-formed
  schema, and its elements can be built and written.\<close>

definition goodLoad :: "nat \<Rightarrow> os_env \<Rightarrow> loader \<Rightarrow> yang_api \<Rightarrow> ('d, 'b, 'c) backend \<Rightarrow> schema_config \<Rightarrow> bool" where
  "goodLoad n F L Y B cfg \<longleftrightarrow> (\<forall>sc. NewSchema F L Y cfg = Inr sc \<longrightarrow>
     (\<exists>r. sc_root sc = Some r \<and> schemaOk Y r) \<and> (\<forall>s. \<exists>s' sc'. ps_AddSchema n Y B s sc = Some (Inr (s', sc'))))"

text \<open>The requests compared, in a state of the in-memory store: they name a key of \<open>K\<close>; element requests
  ask for the description and for a path of plain names that does not begin with the name of a module.\<close>

primrec okReq :: "nat \<Rightarrow> loader \<Rightarrow> yang_api \<Rightarrow> ('d, 'b, 'c) backend \<Rightarrow> schema_key set \<Rightarrow> memStore \<Rightarrow> os_env \<Rightarrow> rpc \<Rightarrow> bool" where
  "okReq n L Y B K ms F (GetSchemaRequest q) \<longleftrightarrow> gr_WithDescription q \<and>
     (\<exists>k\<in>K. gr_Schema q = Some k \<and>
       (case ToStrings (gr_Path q) False True of
          [] \<Rightarrow> True
        | p # ps \<Rightarrow> p # ps \<noteq> [[]] \<and> plainNames (p # ps) \<and>
            (\<forall>sc r. mem_abs ms k = Some sc \<longrightarrow> sc_root sc = Some r \<longrightarrow> map_of (e_Dir (Ptr r [])) p = None)))"
| "okReq n L Y B K ms F ListSchemaRequest \<longleftrightarrow> (\<forall>k\<in>K. CHR ''@'' \<notin> set (sk_Name k) \<and> CHR ''@'' \<notin> set (sk_Vendor k))"
| "okReq n L Y B K ms F (GetSchemaDetailsRequest ko) \<longleftrightarrow> (\<exists>k\<in>K. ko = Some k)"
| "okReq n L Y B K ms F (CreateSchemaRequest q) \<longleftrightarrow> (\<exists>k\<in>K. cr_Schema q = Some k \<and> goodLoad n F L Y B (reqConfig k q))"
| "okReq n L Y B K ms F (ReloadSchemaRequest ko) \<longleftrightarrow>
     (\<exists>k\<in>K. ko = Some k \<and> (\<forall>sc. mem_abs ms k = Some sc \<longrightarrow> goodLoad n F L Y B (sc_config sc)))"
| "okReq n L Y B K ms F (DeleteSchemaRequest ko) \<longleftrightarrow> (\<exists>k\<in>K. ko = Some k)"
| "okReq n L Y B K ms F (ToPathRequest q) \<longleftrightarrow> False"
| "okReq n L Y B K ms F (ExpandPathRequest q) \<longleftrightarrow> False"

text \<open>Two replies agree: both are errors, or both are the same; lists may have another order, and the
  in-memory store leaves the excludes out of the details.\<close>

fun sameReply :: "schema_key set \<Rightarrow> reply \<Rightarrow> reply \<Rightarrow> bool" where
  "sameReply K (ListSchemaResponse xs) (ListSchemaResponse ys) \<longleftrightarrow> set xs \<inter> K = set ys \<inter> K"
| "sameReply K (GetSchemaDetailsResponse d) (GetSchemaDetailsResponse d') \<longleftrightarrow> d = d'\<lparr>dr_Exclude := []\<rparr>"
| "sameReply K a b \<longleftrightarrow> a = b"

definition agree :: "schema_key set \<Rightarrow> reply run \<Rightarrow> reply run \<Rightarrow> bool" where
  "agree K a b \<longleftrightarrow> (case a of
     Some (Inr x) \<Rightarrow> (case b of Some (Inr y) \<Rightarrow> sameReply K x y | _ \<Rightarrow> False)
   | _ \<Rightarrow> (case b of Some (Inr y) \<Rightarrow> False | _ \<Rightarrow> True))"

lemma agree_done [simp]: "agree K (Some (Inr x)) (Some (Inr y)) \<longleftrightarrow> sameReply K x y"
  "agree K (Some (Inl e)) (Some (Inl e'))"
  by (simp_all add: agree_def)

lemma written_simps [simp]:
  "written s (Some (Inr s')) = (s', Some (Inr ()))" "written s (Some (Inl e)) = (s, Some (Inl e))" "written s None = (s, None)"
  by (simp_all add: written_def)

definition stepOk :: "nat \<Rightarrow> yang_api \<Rightarrow> ('d, 'b, 'c) backend \<Rightarrow> schema_key set \<Rightarrow> memStore \<times> reply run \<Rightarrow>
    ('d, 'c) persistStore \<times> reply run \<Rightarrow> bool" where
  "stepOk n Y B K x y \<longleftrightarrow> simul n Y B K (fst x) (fst y) \<and> agree K (snd x) (snd y)"

lemma step_create:
  assumes "backend_ok B" "apart K" "simul n Y B K ms s" "cr_Schema q = Some k" "k \<in> K" "goodLoad n F L Y B (reqConfig k q)"
  shows "stepOk n Y B K (serve (memIface n F L Y) ms (CreateSchemaRequest q)) (serve (psIface n F L Y B) s (CreateSchemaRequest q))"
proof -
  have ok: "kv_ok B" "codec_ok B" using assms(1) by (simp_all add: backend_ok_def)
  have b: "backs n Y B (ps_db s) k (mem_abs ms k)" by (rule simulD [OF assms(3,5)])
  have has: "ps_HasSchema B s k \<longleftrightarrow> mem_abs ms k \<noteq> None" by (rule backs_has [OF b])
  consider "mem_abs ms k \<noteq> None" | e where "mem_abs ms k = None" "checkKey k = Inl e"
    | e where "mem_abs ms k = None" "checkKey k = Inr ()" "NewSchema F L Y (reqConfig k q) = Inl e"
    | sc where "mem_abs ms k = None" "checkKey k = Inr ()" "NewSchema F L Y (reqConfig k q) = Inr sc"
    by (cases "mem_abs ms k"; cases "checkKey k"; cases "NewSchema F L Y (reqConfig k q)") auto
  then show ?thesis
  proof cases
    case 4
    have k: "Key sc = k" by (rule reqConfig_Key [OF 4(3)])
    from assms(6) 4(3) obtain r s' sc' where r: "sc_root sc = Some r" "schemaOk Y r"
      "ps_AddSchema n Y B s sc = Some (Inr (s', sc'))" unfolding goodLoad_def by blast
    have "simul n Y B K (mem_store sc ms) s'"
      by (rule simul_add [OF ok assms(2,3) r(2,1,3)]) (use b 4 k assms(5) in simp_all)
    then show ?thesis using 4 has assms(4) r(3)
      by (simp add: stepOk_def memIface_def psIface_def mem_CreateSchema_def mem_CreateCheck_def ps_CreateSchema_def lift_def mem_abs_def)
  qed (use assms(3,4) has in
      \<open>simp_all add: stepOk_def memIface_def psIface_def mem_CreateSchema_def mem_CreateCheck_def ps_CreateSchema_def lift_def mem_abs_def\<close>)
qed

lemma step_delete:
  assumes "kv_ok B" "\<forall>d ps. \<exists>d'. kv_dropPrefix B d ps = Inr d'" "apart K" "simul n Y B K ms s" "k \<in> K"
  shows "stepOk n Y B K (serve (memIface n F L Y) ms (DeleteSchemaRequest (Some k)))
    (serve (psIface n F L Y B) s (DeleteSchemaRequest (Some k)))"
proof -
  have has: "ps_HasSchema B s k \<longleftrightarrow> mem_abs ms k \<noteq> None" by (rule backs_has [OF simulD [OF assms(4,5)]])
  from assms(2) obtain d where d: "kv_dropPrefix B (ps_db s) [buildEntryKey k [] [], buildSchemaKey k] = Inr d" by blast
  consider e where "checkKey k = Inl e" | "checkKey k = Inr ()" "mem_abs ms k = None" | "checkKey k = Inr ()" "mem_abs ms k \<noteq> None"
    by (cases "checkKey k"; cases "mem_abs ms k") auto
  then show ?thesis
  proof cases
    case 3
    have "ps_DeleteSchema B s (Some k) = Inr (s\<lparr>ps_db := d\<rparr>)" using 3 has d by (simp add: ps_DeleteSchema_def)
    moreover have "mem_DeleteSchema ms (Some k) = Inr (mem_delete k ms)"
      using 3 by (simp add: mem_DeleteSchema_def mem_DeleteCheck_def mem_abs_def)
    ultimately show ?thesis using simul_delete(1) [OF assms(1,3,4) _ assms(5)]
      by (simp add: stepOk_def memIface_def psIface_def lift_def)
  qed (use assms(4) has in
      \<open>simp_all add: stepOk_def memIface_def psIface_def mem_DeleteSchema_def mem_DeleteCheck_def ps_DeleteSchema_def lift_def mem_abs_def\<close>)
qed

lemma step_reload:
  assumes "backend_ok B" "\<forall>d ps. \<exists>d'. kv_dropPrefix B d ps = Inr d'" "apart K" "simul n Y B K ms s" "k \<in> K"
    and "\<forall>sc. mem_abs ms k = Some sc \<longrightarrow> goodLoad n F L Y B (sc_config sc)"
  shows "stepOk n Y B K (serve (memIface n F L Y) ms (ReloadSchemaRequest (Some k)))
    (serve (psIface n F L Y B) s (ReloadSchemaRequest (Some k)))"
proof (cases "mem_abs ms k")
  case None
  have "kv_get B (ps_db s) (buildSchemaKey k) = None"
    using simulD [OF assms(4,5)] None by (simp add: backs_def ownKey_def)
  with None assms(4) show ?thesis
    by (simp add: stepOk_def memIface_def psIface_def mem_ReloadSchema_def mem_ReloadCheck_def mem_find_def ps_ReloadSchema_def
        ps_GetSchemaDetails_def keyOf_def lift_def mem_abs_def)
next
  case (Some sc)
  have ok: "kv_ok B" "codec_ok B" using assms(1) by (simp_all add: backend_ok_def)
  note b = simulD [OF assms(4,5), unfolded Some backs_def, simplified]
  from b obtain v where v: "kv_get B (ps_db s) (buildSchemaKey k) = Some v" "js_unmarshal B v = Inr [(''files'', sc_Files sc),
      (''directories'', sc_Dirs sc), (''excludes'', sc_Excludes sc)]"
    unfolding catalogued_def by blast
  have "ps_GetSchemaDetails B s (Some k) = Inr \<lparr>dr_Schema = k, dr_File = sc_Files sc,
      dr_Directory = sc_Dirs sc, dr_Exclude = sc_Excludes sc\<rparr>"
    using v by (simp add: ps_GetSchemaDetails_def keyOf_def cfgField_def)
  moreover have "\<lparr>cfg_Name = sk_Name k, cfg_Vendor = sk_Vendor k, cfg_Version = sk_Version k, cfg_Files = sc_Files sc,
      cfg_Directories = sc_Dirs sc, cfg_Excludes = sc_Excludes sc\<rparr> = sc_config sc"
    using b by (auto simp: Key_def)
  moreover from assms(2) obtain d where "kv_dropPrefix B (ps_db s) [buildEntryKey k [] [], buildSchemaKey k] = Inr d" by blast
  then have del: "ps_DeleteSchema B s (Some k) = Inr (s\<lparr>ps_db := d\<rparr>)" (is "_ = Inr ?s1")
    using b v(1) by (simp add: ps_DeleteSchema_def ps_HasSchema_def)
  ultimately have ps: "ps_ReloadSchema n F L Y B s (Some k) = (case NewSchema F L Y (sc_config sc) of Inl err \<Rightarrow> (s, Some (Inl err))
      | Inr nsc \<Rightarrow> (case ps_AddSchema n Y B ?s1 nsc of None \<Rightarrow> (?s1, None) | Some (Inl err) \<Rightarrow> (?s1, Some (Inl err))
         | Some (Inr (s', _)) \<Rightarrow> (s', Some (Inr ()))))"
    by (simp add: ps_ReloadSchema_def keyOf_def split: sum.split)
  have mem: "mem_ReloadSchema F L Y ms (Some k) = rbind (NewSchema F L Y (sc_config sc)) (\<lambda>nsc. Inr (mem_store nsc ms))"
    using Some by (simp add: mem_ReloadSchema_def mem_ReloadCheck_def mem_find_def mem_abs_def Reload_def)
  show ?thesis
  proof (cases "NewSchema F L Y (sc_config sc)")
    case (Inl err)
    with assms(4) ps mem show ?thesis by (simp add: stepOk_def memIface_def psIface_def lift_def)
  next
    case (Inr nsc)
    have k: "Key nsc = k" using NewSchema_Key [OF Inr] b by (auto simp: Key_def)
    from assms(6) Some Inr obtain r s' sc' where r: "sc_root nsc = Some r" "schemaOk Y r"
      "ps_AddSchema n Y B ?s1 nsc = Some (Inr (s', sc'))" unfolding goodLoad_def by blast
    note d = simul_delete [OF ok(1) assms(3,4) del assms(5)]
    have "simul n Y B K (mem_store nsc (mem_delete k ms)) s'"
      by (rule simul_add [OF ok assms(3) d(1) r(2,1,3)]) (use d(2) b k assms(5) in simp_all)
    moreover have "mem_abs (mem_store nsc (mem_delete k ms)) = mem_abs (mem_store nsc ms)"
      using k by (auto simp: mem_store_abs mem_delete_abs)
    moreover have "keyed (mem_store nsc ms)" using assms(4) by (simp add: simul_def keyed_store)
    ultimately have "simul n Y B K (mem_store nsc ms) s'" by (simp add: simul_def)
    with Inr ps mem r(3) show ?thesis by (simp add: stepOk_def memIface_def psIface_def lift_def)
  qed
qed

lemma step_details:
  assumes "simul n Y B K ms s" "k \<in> K"
  shows "stepOk n Y B K (serve (memIface n F L Y) ms (GetSchemaDetailsRequest (Some k)))
    (serve (psIface n F L Y B) s (GetSchemaDetailsRequest (Some k)))"
proof (cases "mem_abs ms k")
  case None
  have "kv_get B (ps_db s) (buildSchemaKey k) = None"
    using simulD [OF assms] None by (simp add: backs_def ownKey_def)
  with None assms(1) show ?thesis
    by (simp add: stepOk_def memIface_def psIface_def mem_GetSchemaDetails_def mem_find_def ps_GetSchemaDetails_def keyOf_def
        lift_def mem_abs_def)
next
  case (Some sc)
  from simulD [OF assms, unfolded Some backs_def] obtain v where
    "Key sc = k" "kv_get B (ps_db s) (buildSchemaKey k) = Some v" "js_unmarshal B v = Inr [(''files'', sc_Files sc),
      (''directories'', sc_Dirs sc), (''excludes'', sc_Excludes sc)]"
    unfolding catalogued_def by auto
  with Some assms(1) show ?thesis
    by (simp add: stepOk_def memIface_def psIface_def mem_GetSchemaDetails_def mem_find_def ps_GetSchemaDetails_def keyOf_def
        lift_def mem_abs_def cfgField_def)
qed

lemma keyed_list: "keyed ms \<Longrightarrow> k \<in> set (mem_ListSchema ms) \<longleftrightarrow> mem_abs ms k \<noteq> None"
  by (force simp: keyed_def mem_ListSchema_def mem_abs_def list_all_iff map_of_eq_None_iff)

lemma step_list:
  assumes "kv_ok B" "simul n Y B K ms s" "\<forall>k\<in>K. CHR ''@'' \<notin> set (sk_Name k) \<and> CHR ''@'' \<notin> set (sk_Vendor k)"
  shows "stepOk n Y B K (serve (memIface n F L Y) ms ListSchemaRequest) (serve (psIface n F L Y B) s ListSchemaRequest)"
proof -
  have "k \<in> set (mem_ListSchema ms) \<longleftrightarrow> k \<in> set (ps_ListSchema B s)" if "k \<in> K" for k
    using ps_List_Has [OF assms(1)] backs_has [OF simulD [OF assms(2) that]] keyed_list [of ms k] assms(2,3) that
    by (simp add: simul_def)
  then have "set (mem_ListSchema ms) \<inter> K = set (ps_ListSchema B s) \<inter> K" by blast
  with assms(2) show ?thesis by (simp add: stepOk_def memIface_def psIface_def lift_def)
qed

lemma agree_elem:
  assumes "\<And>se. b = Inr se \<longleftrightarrow> a = Some (Inr se)"
  shows "agree K (map_option (map_sum id GetSchemaResponse) a) (Some (map_sum id GetSchemaResponse b))"
proof (cases b)
  case (Inl e)
  with assms have "a \<noteq> Some (Inr se)" for se by auto
  with Inl show ?thesis by (cases a rule: run_cases) (auto simp: agree_def)
next
  case (Inr se)
  with assms [of se] show ?thesis by simp
qed

lemma step_get:
  assumes "simul n Y B K ms s" "k \<in> K" "gr_WithDescription q" "gr_Schema q = Some k"
    and "case ToStrings (gr_Path q) False True of [] \<Rightarrow> True
        | p # ps \<Rightarrow> p # ps \<noteq> [[]] \<and> plainNames (p # ps) \<and>
            (\<forall>sc r. mem_abs ms k = Some sc \<longrightarrow> sc_root sc = Some r \<longrightarrow> map_of (e_Dir (Ptr r [])) p = None)"
  shows "stepOk n Y B K (serve (memIface n F L Y) ms (GetSchemaRequest q)) (serve (psIface n F L Y B) s (GetSchemaRequest q))"
proof -
  have c: "ps_cache s = None" using assms(1) by (simp add: simul_def)
  note b = simulD [OF assms(1,2)]
  have fst: "fst (ps_GetSchema B s q) = s"
    using getSchema_uncached [OF c, of B] by (simp add: ps_GetSchema_def Let_def)
  have "snd (ps_GetSchema B s q) = Inr se \<longleftrightarrow> mem_GetSchema n Y ms q = Some (Inr se)" for se
  proof (cases "mem_abs ms k")
    case None
    then show ?thesis using backs_has [OF b] assms(4)
      by (simp add: ps_GetSchema_def keyOf_def mem_GetSchema_def mem_find_def mem_abs_def)
  next
    case (Some sc)
    from b [unfolded Some backs_def] obtain r where r: "Key sc = k" "sc_root sc = Some r" "answering n Y B (ps_db s) sc r" by auto
    have h: "ps_GetSchema B s q = ps_getSchema B s (gr_Path q) True k"
      using backs_has [OF b] Some assms(3,4) by (simp add: ps_GetSchema_def keyOf_def)
    have m: "mem_GetSchema n Y ms q = (case GetEntry Y sc (ToStrings (gr_Path q) False True) of Inl err \<Rightarrow> Some (Inl err)
        | Inr e \<Rightarrow> SchemaElemFromYEntry n Y sc e True)"
      using Some assms(3,4) by (simp add: mem_GetSchema_def mem_find_def mem_abs_def split: sum.split)
    show ?thesis
    proof (cases "ToStrings (gr_Path q) False True")
      case Nil
      from r(1,3) obtain d rse where "kv_get B (ps_db s) (buildEntryKey k RootName []) = Some d" "pb_unmarshal B d = Inr rse"
        "SchemaElemFromYEntry n Y sc (Ptr r []) True = Some (Inr rse)" unfolding answering_def by blast
      then show ?thesis unfolding h m using Nil c r(2)
        by (simp add: ps_getSchema_def GetEntry_def rootPtr_def)
    next
      case (Cons p ps)
      with assms(5) Some r(2) have p: "p # ps \<noteq> [[]]" "plainNames (p # ps)" "map_of (e_Dir (Ptr r [])) p = None" by auto
      have "snd (ps_getSchema B s (gr_Path q) True k) = getFromDB B (ps_db s) k p ps"
        using Cons c p(1) by (auto simp: ps_getSchema_def Let_def split: sum.split)
      moreover have "getFromDB B (ps_db s) k p ps = Inr se \<longleftrightarrow>
          (\<exists>e. GetEntry Y sc (p # ps) = Inr e \<and> SchemaElemFromYEntry n Y sc e True = Some (Inr se))"
        using r(1,3) p(2,3) unfolding answering_def by blast
      ultimately show ?thesis unfolding h m Cons by (simp split: sum.split)
    qed
  qed
  from agree_elem [of "snd (ps_GetSchema B s q)", OF this] fst assms(1) show ?thesis
    by (simp add: stepOk_def memIface_def psIface_def lift_def)
qed

lemma step_agrees:
  assumes "backend_ok B" "\<forall>d ps. \<exists>d'. kv_dropPrefix B d ps = Inr d'" "apart K" "simul n Y B K ms s" "okReq n L Y B K ms F q"
  shows "stepOk n Y B K (serve (memIface n F L Y) ms q) (serve (psIface n F L Y B) s q)"
proof -
  have ok: "kv_ok B" using assms(1) by (simp add: backend_ok_def)
  show ?thesis
  proof (cases q)
    case (GetSchemaRequest r)
    with assms(5) obtain k where "k \<in> K" "gr_WithDescription r" "gr_Schema r = Some k" and
      "case ToStrings (gr_Path r) False True of [] \<Rightarrow> True
        | p # ps \<Rightarrow> p # ps \<noteq> [[]] \<and> plainNames (p # ps) \<and>
            (\<forall>sc r. mem_abs ms k = Some sc \<longrightarrow> sc_root sc = Some r \<longrightarrow> map_of (e_Dir (Ptr r [])) p = None)"
      by (simp only: okReq.simps) blast
    then show ?thesis unfolding GetSchemaRequest by (rule step_get [OF assms(4)])
  next
    case ListSchemaRequest
    with assms(5) step_list [OF ok assms(4)] show ?thesis by (simp only: okReq.simps)
  next
    case (GetSchemaDetailsRequest ko)
    with assms(5) step_details [OF assms(4)] show ?thesis by (auto simp only: okReq.simps)
  next
    case (CreateSchemaRequest r)
    with assms(5) step_create [OF assms(1,3,4)] show ?thesis by (auto simp only: okReq.simps)
  next
    case (ReloadSchemaRequest ko)
    with assms(5) step_reload [OF assms(1-4)] show ?thesis by (auto simp only: okReq.simps)
  next
    case (DeleteSchemaRequest ko)
    with assms(5) step_delete [OF ok assms(2-4)] show ?thesis by (auto simp only: okReq.simps)
  qed (use assms(5) in simp_all)
qed

section \<open>Sequences of requests\<close>

primrec okRun :: "nat \<Rightarrow> loader \<Rightarrow> yang_api \<Rightarrow> ('d, 'b, 'c) backend \<Rightarrow> schema_key set \<Rightarrow> memStore \<Rightarrow> (os_env \<times> rpc) list \<Rightarrow> bool" where
  "okRun n L Y B K ms [] \<longleftrightarrow> True"
| "okRun n L Y B K ms (x # xs) \<longleftrightarrow> okReq n L Y B K ms (fst x) (snd x) \<and>
     okRun n L Y B K (fst (serve (memIface n (fst x) L Y) ms (snd x))) xs"

lemma run_agrees:
  assumes "backend_ok B" "\<forall>d ps. \<exists>d'. kv_dropPrefix B d ps = Inr d'" "apart K"
  shows "simul n Y B K ms s \<Longrightarrow> okRun n L Y B K ms xs \<Longrightarrow>
    list_all2 (agree K) (snd (serveAll (\<lambda>F. memIface n F L Y) ms xs)) (snd (serveAll (\<lambda>F. psIface n F L Y B) s xs))"
proof (induction xs arbitrary: ms s)
  case (Cons x xs)
  have "stepOk n Y B K (serve (memIface n (fst x) L Y) ms (snd x)) (serve (psIface n (fst x) L Y B) s (snd x))"
    by (rule step_agrees [OF assms Cons.prems(1)]) (use Cons.prems(2) in simp)
  with Cons show ?case by (simp add: stepOk_def split_def Let_def)
qed simp


text \<open>One schema, created, listed, queried, reloaded, queried again and deleted.\<close>

definition fxKey :: schema_key where
  "fxKey = \<lparr>sk_Name = ''lrc'', sk_Vendor = ''v'', sk_Version = ''1''\<rparr>"

definition fxCreate :: create_req where
  "fxCreate = \<lparr>cr_Schema = Some fxKey, cr_File = [''/y''], cr_Directory = [], cr_Exclude = []\<rparr>"

definition fxQuery :: get_req where
  "fxQuery = fxGet\<lparr>gr_Schema := Some fxKey, gr_WithDescription := True\<rparr>"

definition fxRequests :: "(os_env \<times> rpc) list" where
  "fxRequests = map (Pair fxOs) [CreateSchemaRequest fxCreate, ListSchemaRequest, GetSchemaRequest fxQuery,
     ReloadSchemaRequest (Some fxKey), GetSchemaRequest fxQuery, DeleteSchemaRequest (Some fxKey), GetSchemaRequest fxQuery]"

text \<open>The concrete database takes every batch, so whether a schema can be written does not depend on the
  state of the store.\<close>

lemma fx_add_any:
  assumes "ps_AddSchema n Y fxBackend s sc = Some (Inr x)"
  shows "\<exists>s' sc'. ps_AddSchema n Y fxBackend t sc = Some (Inr (s', sc'))"
  using assms by (auto simp: ps_AddSchema_def lift_def addSchema_def fxBackend_def)

lemma fx_load:
  "\<exists>sc r. NewSchema fxOs fxLoader kindApi (reqConfig fxKey fxCreate) = Inr sc \<and> sc_root sc = Some r \<and> schemaOk kindApi r \<and>
     map_of (e_Dir (Ptr r [])) ''host'' = None"
proof -
  let ?n = "NewSchema fxOs fxLoader kindApi (reqConfig fxKey fxCreate)"
  have "map_sum (\<lambda>_. ()) (\<lambda>sc. map_option (\<lambda>r. schemaOk kindApi r \<and> Option.is_none (map_of (e_Dir (Ptr r [])) ''host'')) (sc_root sc)) ?n =
      Inr (Some True)" by code_simp
  then show ?thesis by (cases ?n) (auto simp: Option.is_none_def)
qed

lemma fx_goodLoad: "goodLoad 2 fxOs fxLoader kindApi fxBackend (reqConfig fxKey fxCreate)"
  unfolding goodLoad_def
proof (intro allI impI conjI)
  fix sc s
  assume sc: "NewSchema fxOs fxLoader kindApi (reqConfig fxKey fxCreate) = Inr sc"
  with fx_load show "\<exists>r. sc_root sc = Some r \<and> schemaOk kindApi r" by auto
  have "map_sum (\<lambda>_. ()) (\<lambda>sc. map_option (map_sum (\<lambda>_. ()) (\<lambda>_. ())) (ps_AddSchema 2 kindApi fxBackend fxStore sc))
      (NewSchema fxOs fxLoader kindApi (reqConfig fxKey fxCreate)) = Inr (Some (Inr ()))" by code_simp
  then have "map_option (map_sum (\<lambda>_. ()) (\<lambda>_. ())) (ps_AddSchema 2 kindApi fxBackend fxStore sc) = Some (Inr ())"
    unfolding sc by simp
  then obtain x where "ps_AddSchema 2 kindApi fxBackend fxStore sc = Some (Inr x)"
    by (cases "ps_AddSchema 2 kindApi fxBackend fxStore sc" rule: run_cases) auto
  then show "\<exists>s' sc'. ps_AddSchema 2 kindApi fxBackend s sc = Some (Inr (s', sc'))" by (rule fx_add_any)
qed

lemma goodLoad_reload: "goodLoad n F L Y B cfg \<Longrightarrow> NewSchema F L Y cfg = Inr sc \<Longrightarrow> goodLoad n F L Y B (sc_config sc)"
  using NewSchema_facts [of F L Y cfg sc] by (auto simp: goodLoad_def Reload_def)

lemma fx_okRun: "okRun 2 fxLoader kindApi fxBackend {fxKey} mem_New fxRequests"
proof -
  obtain sc r where sc: "NewSchema fxOs fxLoader kindApi (reqConfig fxKey fxCreate) = Inr sc" "sc_root sc = Some r"
    "map_of (e_Dir (Ptr r [])) ''host'' = None" using fx_load by blast
  let ?ms = "mem_store sc mem_New"
  have k: "Key sc = fxKey" by (rule reqConfig_Key [OF sc(1)])
  then have abs: "mem_abs ?ms fxKey = Some sc" by (simp add: mem_store_abs)
  have mo: "map_of (ms_schemas ?ms) fxKey = Some sc" using abs by (simp add: mem_abs_def)
  have c: "serve (memIface 2 fxOs fxLoader kindApi) mem_New (CreateSchemaRequest fxCreate) = (?ms, Some (Inr DoneResponse))"
    using sc(1) by (simp add: memIface_def mem_CreateSchema_def mem_CreateCheck_def mem_New_def fxCreate_def fxKey_def checkKey_def lift_def)
  have "Reload fxOs fxLoader kindApi sc = Inr sc" using NewSchema_facts [OF sc(1)] by blast
  then have rl: "fst (serve (memIface 2 fxOs fxLoader kindApi) ?ms (ReloadSchemaRequest (Some fxKey))) = mem_store sc ?ms"
    using mo by (simp add: memIface_def mem_ReloadSchema_def mem_ReloadCheck_def mem_find_def lift_def)
  have abs2: "mem_abs (mem_store sc ?ms) fxKey = Some sc" using k by (simp add: mem_store_abs)
  have del: "mem_abs (fst (serve (memIface 2 fxOs fxLoader kindApi) (mem_store sc ?ms) (DeleteSchemaRequest (Some fxKey)))) fxKey = None"
    using abs2 by (simp add: memIface_def mem_DeleteSchema_def mem_DeleteCheck_def mem_abs_def [symmetric] mem_delete_abs
        checkKey_def fxKey_def lift_def)
  have get: "okReq 2 fxLoader kindApi fxBackend {fxKey} ms fxOs (GetSchemaRequest fxQuery)"
    if "mem_abs ms fxKey = Some sc \<or> mem_abs ms fxKey = None" for ms
    using that sc(2,3) by (auto simp: fxQuery_def fxGet_def ToStrings_def char_defs)
  have same: "fst (serve (memIface 2 fxOs fxLoader kindApi) ms (GetSchemaRequest fxQuery)) = ms"
    "fst (serve (memIface 2 fxOs fxLoader kindApi) ms ListSchemaRequest) = ms" for ms
    by (simp_all add: memIface_def)
  note goods = fx_goodLoad goodLoad_reload [OF fx_goodLoad sc(1)]
  show ?thesis unfolding fxRequests_def list.map okRun.simps fst_conv snd_conv c same rl
    using get [of ?ms] get [of "mem_store sc ?ms"] get abs abs2 del goods
    by (auto simp: fxCreate_def fxKey_def simp del: serve.simps)
qed


end
