(* ===== verification/PersistToPath.thy ===== *)
theory PersistToPath
  imports PersistExpand
begin

text \<open>
  \<open>ToPath\<close> of the persistent store on the elements of an instance path, and the elements
  \<open>GetSchemaElements\<close> sends for a path.
\<close>

section \<open>Instance paths in a stored schema\<close>

text \<open>\<open>stored_path Y e xs\<close>: the path \<open>xs\<close> starts at the node \<open>e\<close>. A list carries its keys in the order
  of its \<open>key\<close> statement; only the last element may leave them out.\<close>

inductive stored_path :: "yang_api \<Rightarrow> eptr \<Rightarrow> PathElem list \<Rightarrow> bool" for Y where
  leaf: "IsLeaf Y e \<Longrightarrow> stored_path Y e [\<lparr>pe_Name = e_Name e, pe_Key = []\<rparr>]"
| leaflist: "IsLeafList Y e \<Longrightarrow> ks = [] \<or> ks = [(e_Name e, v)] \<Longrightarrow> stored_path Y e [\<lparr>pe_Name = e_Name e, pe_Key = ks\<rparr>]"
| dir_end: "IsDir Y e \<Longrightarrow> vs = [] \<or> length vs = length (str_fields (e_Key e)) \<Longrightarrow>
    stored_path Y e [\<lparr>pe_Name = e_Name e, pe_Key = zip (str_fields (e_Key e)) vs\<rparr>]"
| dir_next: "IsDir Y e \<Longrightarrow> length vs = length (str_fields (e_Key e)) \<Longrightarrow> data_child Y e d \<Longrightarrow> stored_path Y d xs \<Longrightarrow>
    stored_path Y e (\<lparr>pe_Name = e_Name e, pe_Key = zip (str_fields (e_Key e)) vs\<rparr> # xs)"

lemma stored_path_head: "stored_path Y e xs \<Longrightarrow> \<exists>x xs'. xs = x # xs' \<and> pe_Name x = e_Name e"
  by (cases rule: stored_path.cases) auto

lemma flat_nonempty: "stored_path Y e xs \<Longrightarrow> flat xs \<noteq> []"
  using stored_path_head by fastforce

lemma holds_getSchema_path:
  assumes "holds B s n Y sc r" "map pe_Name (p_Elem p) = p0 # ps" "p0 \<noteq> []" "plainNames (p0 # ps)"
    "map_of (e_Dir (Ptr r [])) p0 = None" "GetEntry Y sc (p0 # ps) = Inr e"
  shows "\<exists>se. ps_getSchema B s (Some p) wd (Key sc) = (s, Inr se) \<and> SchemaElemFromYEntry n Y sc e True = Some (Inr se)"
proof -
  have "ps_HasSchema B s (Key sc)" using assms(1) by (simp add: holds_def)
  with holds_get [OF assms, of wd] show ?thesis by (simp add: ps_GetSchema_def keyOf_def)
qed

lemma holds_getSchema:
  assumes "holds B s n Y sc r" "map pe_Name es = p0 # ps" "p0 \<noteq> []" "plainNames (p0 # ps)"
    "map_of (e_Dir (Ptr r [])) p0 = None" "GetEntry Y sc (p0 # ps) = Inr e"
  shows "\<exists>se. ps_getSchema B s (Some \<lparr>p_Origin = [], p_Target = [], p_Elem = es\<rparr>) wd (Key sc) = (s, Inr se) \<and>
    SchemaElemFromYEntry n Y sc e True = Some (Inr se)"
  by (rule holds_getSchema_path [OF assms(1) _ assms(3-)]) (simp add: assms(2))

lemma stored_leaflist:
  assumes "SchemaElemFromYEntry n Y sc e True = Some (Inr se)" "storeOk Y e" "IsLeafList Y e"
  shows "\<exists>l. se = Leaflist l"
proof -
  have "\<not> IsLeaf Y e" using storeOk_kinds(2) [OF assms(2)] assms(3) by blast
  moreover have "leafElem n Y sc e True = Some (Inr se)" using assms(1,3) by (simp add: SchemaElemFromYEntry_def)
  ultimately show ?thesis using assms(3) by (auto simp: leafElem_def)
qed

lemma dir_getSchema:
  assumes "holds B s n Y sc r" "schemaOk Y r" "sc_root sc = Some r" "map pe_Name es = p0 # ps" "p0 \<noteq> []" "plainNames (p0 # ps)"
    "map_of (e_Dir (Ptr r [])) p0 = None" "GetEntry Y sc (p0 # ps) = Inr e" "storeOk Y e" "IsDir Y e"
  shows "\<exists>c. ps_getSchema B s (Some \<lparr>p_Origin = [], p_Target = [], p_Elem = es\<rparr>) wd (Key sc) = (s, Inr (Container c)) \<and>
    map l_Name (c_Keys c) = str_fields (e_Key e)"
proof -
  from holds_getSchema [OF assms(1,4-8)] obtain se where
    se: "ps_getSchema B s (Some \<lparr>p_Origin = [], p_Target = [], p_Elem = es\<rparr>) wd (Key sc) = (s, Inr se)"
    "SchemaElemFromYEntry n Y sc e True = Some (Inr se)" by blast
  have c: "colon \<notin> set p0" using assms(6) by simp
  obtain con where "se = Container con" "map l_Name (c_Keys con) = str_fields (e_Key e)"
    using stored_container [OF se(2) assms(9) GetEntry_below(1) [OF assms(2,3) c assms(7,8)] assms(10)]
    by (elim exE conjE) (rule that)
  with se(1) show ?thesis by simp
qed

section \<open>The loop of ToPath\<close>

text \<open>The last element is taken without a look into the database.\<close>

lemma toPathLoop_last:
  "toPathLoop B sck (us @ [x]) s (length us) pre = (s, Inr (length us, pre @ [\<lparr>pe_Name = x, pe_Key = []\<rparr>]))"
  by (subst toPathLoop.simps) simp

lemma toPathLoop_end: "toPathLoop B sck us s (length us) pre = (s, Inr (length us, pre))"
  by (subst toPathLoop.simps) simp

lemma toPathLoop_leaflist:
  assumes "ps_getSchema B s (Some \<lparr>p_Origin = [], p_Target = [], p_Elem = pre @ [\<lparr>pe_Name = x, pe_Key = []\<rparr>]\<rparr>) False sck = (s, Inr (Leaflist l))"
  shows "toPathLoop B sck (us @ [x, v]) s (length us) pre = (s, Inr (length us + 2, pre @ [\<lparr>pe_Name = x, pe_Key = [(x, v)]\<rparr>]))"
proof -
  have "toPathLoop B sck (us @ [x, v]) s (length us) pre =
      toPathLoop B sck (us @ [x, v]) s (length (us @ [x, v])) (pre @ [\<lparr>pe_Name = x, pe_Key = [(x, v)]\<rparr>])"
    using assms by (subst toPathLoop.simps) (simp add: nth_append)
  then show ?thesis by (simp only: toPathLoop_end) simp
qed

lemma toPathLoop_container:
  assumes "ps_getSchema B s (Some \<lparr>p_Origin = [], p_Target = [], p_Elem = pre @ [\<lparr>pe_Name = x, pe_Key = []\<rparr>]\<rparr>) False sck = (s, Inr (Container c))"
    and "distinct (map l_Name (c_Keys c))" "length vs = length (c_Keys c)" "vs @ rest \<noteq> []"
  shows "toPathLoop B sck (us @ x # vs @ rest) s (length us) pre =
    toPathLoop B sck ((us @ x # vs) @ rest) s (length (us @ x # vs)) (pre @ [\<lparr>pe_Name = x, pe_Key = zip (map l_Name (c_Keys c)) vs\<rparr>])"
proof -
  let ?els = "us @ x # vs @ rest" and ?ks = "map l_Name (c_Keys c)"
  have "keyValues ?els ?ks (length us) [] = Inr (length us + length ?ks, zip ?ks vs)"
    using keyValues_zip [of "[]" ?ks "length us" ?els] assms(2,3) by (simp add: zip_append2)
  moreover have "\<not> length ?els - 1 \<le> length us" using assms(4) by (cases "vs @ rest") auto
  ultimately show ?thesis
    using assms(1,3) by (subst toPathLoop.simps) auto
qed

text \<open>The loop rebuilds an instance path, and the path it leaves addresses a node.\<close>

lemma toPathLoop_stored:
  assumes h: "holds B s n Y sc r" "schemaOk Y r" "sc_root sc = Some r" "map_of (e_Dir (Ptr r [])) p0 = None" "p0 \<noteq> []"
    and "stored_path Y e xs" "storeOk Y e" "plainNames (map pe_Name (pre @ xs))"
    and "map pe_Name pre @ [e_Name e] = p0 # ps" "GetEntry Y sc (p0 # ps) = Inr e"
  shows "\<exists>j e'. toPathLoop B (Key sc) (us @ flat xs) s (length us) pre = (s, Inr (j, pre @ xs)) \<and>
    length (us @ flat xs) - 1 \<le> j \<and> GetEntry Y sc (map pe_Name (pre @ xs)) = Inr e'"
  using assms(6-)
proof (induction arbitrary: pre ps us rule: stored_path.induct)
  case (leaf e)
  have "GetEntry Y sc (map pe_Name (pre @ [\<lparr>pe_Name = e_Name e, pe_Key = []\<rparr>])) = Inr e"
    using leaf.prems(3,4) by simp
  then show ?case using toPathLoop_last [of B "Key sc" us "e_Name e" s pre] by simp
next
  case (leaflist e ks v)
  have names: "map pe_Name (pre @ [\<lparr>pe_Name = e_Name e, pe_Key = ks\<rparr>]) = p0 # ps" for ks
    using leaflist.prems(3) by simp
  have plain: "plainNames (p0 # ps)" using leaflist.prems(2) unfolding names .
  from holds_getSchema [OF h(1) names h(5) plain h(4) leaflist.prems(4)] obtain se where
    g: "ps_getSchema B s (Some \<lparr>p_Origin = [], p_Target = [], p_Elem = pre @ [\<lparr>pe_Name = e_Name e, pe_Key = []\<rparr>]\<rparr>) False (Key sc) = (s, Inr se)"
    "SchemaElemFromYEntry n Y sc e True = Some (Inr se)" by blast
  from stored_leaflist [OF g(2) leaflist.prems(1) leaflist.hyps(1)] obtain l where l: "se = Leaflist l" by blast
  from leaflist.hyps(2) show ?case
  proof
    assume "ks = []"
    then show ?thesis using toPathLoop_last [of B "Key sc" us "e_Name e" s pre] leaflist.prems(4) unfolding names by simp
  next
    assume "ks = [(e_Name e, v)]"
    then show ?thesis using toPathLoop_leaflist [OF g(1) [unfolded l], of us v] leaflist.prems(4) unfolding names by simp
  qed
next
  case (dir_end e vs)
  let ?ks = "str_fields (e_Key e)"
  have names: "map pe_Name (pre @ [\<lparr>pe_Name = e_Name e, pe_Key = m\<rparr>]) = p0 # ps" for m
    using dir_end.prems(3) by simp
  have plain: "plainNames (p0 # ps)" using dir_end.prems(2) unfolding names .
  from dir_getSchema [OF h(1-3) names h(5) plain h(4) dir_end.prems(4,1) dir_end.hyps(1), of "[]" False] obtain c where
    c: "ps_getSchema B s (Some \<lparr>p_Origin = [], p_Target = [], p_Elem = pre @ [\<lparr>pe_Name = e_Name e, pe_Key = []\<rparr>]\<rparr>) False (Key sc) = (s, Inr (Container c))"
      "map l_Name (c_Keys c) = ?ks" by blast
  show ?case
  proof (cases "vs = []")
    case True
    then show ?thesis using toPathLoop_last [of B "Key sc" us "e_Name e" s pre] dir_end.prems(4) unfolding names by simp
  next
    case False
    then have vs: "length vs = length ?ks" using dir_end.hyps(2) by blast
    have "length (c_Keys c) = length ?ks" using arg_cong [OF c(2), of length] by simp
    then have "toPathLoop B (Key sc) (us @ e_Name e # vs @ []) s (length us) pre =
      toPathLoop B (Key sc) ((us @ e_Name e # vs) @ []) s (length (us @ e_Name e # vs)) (pre @ [\<lparr>pe_Name = e_Name e, pe_Key = zip ?ks vs\<rparr>])"
      using toPathLoop_container [OF c(1), of vs "[]" us] c(2) vs False storeOk_kinds(6) [OF dir_end.prems(1)] by simp
    then show ?thesis
      using toPathLoop_end [of B "Key sc" "us @ e_Name e # vs" s "pre @ [\<lparr>pe_Name = e_Name e, pe_Key = zip ?ks vs\<rparr>]"]
        vs dir_end.prems(4) unfolding names by simp
  qed
next
  case (dir_next e vs d xs)
  let ?ks = "str_fields (e_Key e)" and ?x = "\<lparr>pe_Name = e_Name e, pe_Key = zip (str_fields (e_Key e)) vs\<rparr>"
  have names: "map pe_Name (pre @ [\<lparr>pe_Name = e_Name e, pe_Key = m\<rparr>]) = p0 # ps" for m
    using dir_next.prems(3) by simp
  have "plainNames (map pe_Name pre @ [e_Name e])" using dir_next.prems(2) by simp
  then have plain: "plainNames (p0 # ps)" unfolding dir_next.prems(3) .
  from dir_getSchema [OF h(1-3) names h(5) plain h(4) dir_next.prems(4,1) dir_next.hyps(1), of "[]" False] obtain c where
    c: "ps_getSchema B s (Some \<lparr>p_Origin = [], p_Target = [], p_Elem = pre @ [\<lparr>pe_Name = e_Name e, pe_Key = []\<rparr>]\<rparr>) False (Key sc) = (s, Inr (Container c))"
      "map l_Name (c_Keys c) = ?ks" by blast
  obtain y ys where y: "xs = y # ys" "pe_Name y = e_Name d" using stored_path_head [OF dir_next.hyps(4)] by blast
  have "length (c_Keys c) = length ?ks" using arg_cong [OF c(2), of length] by simp
  then have "toPathLoop B (Key sc) (us @ e_Name e # vs @ flat xs) s (length us) pre =
      toPathLoop B (Key sc) ((us @ e_Name e # vs) @ flat xs) s (length (us @ e_Name e # vs)) (pre @ [?x])"
    using toPathLoop_container [OF c(1), of vs "flat xs" us] c(2) dir_next.hyps(2) flat_nonempty [OF dir_next.hyps(4)]
      storeOk_kinds(6) [OF dir_next.prems(1)] by simp
  moreover have "GetEntry Y sc (p0 # ps @ [e_Name d]) = Inr d"
    by (rule GetEntry_snoc [OF h(2,3) _ h(4) dir_next.prems(4) dir_next.hyps(3)]) (use plain dir_next.prems(2) y in auto)
  with dir_next.IH [of "pre @ [?x]" "ps @ [e_Name d]" "us @ e_Name e # vs"] dir_next.prems(2,3)
    storeOk_child [OF dir_next.prems(1) dir_next.hyps(3)]
  have "\<exists>j e'. toPathLoop B (Key sc) ((us @ e_Name e # vs) @ flat xs) s (length (us @ e_Name e # vs)) (pre @ [?x]) = (s, Inr (j, (pre @ [?x]) @ xs)) \<and>
    length ((us @ e_Name e # vs) @ flat xs) - 1 \<le> j \<and> GetEntry Y sc (map pe_Name ((pre @ [?x]) @ xs)) = Inr e'"
    by simp
  ultimately show ?case using dir_next.hyps(2) by simp
qed

text \<open>C18: \<open>ToPath\<close> of the persistent store inverts the flattening of an instance path. On the store
  that \<open>AddSchema\<close> leaves, the names and key values of a path, keys in the order of the \<open>key\<close> statement, are
  turned back into that path, through containers, lists, the members of choices and leaf-lists. Where the
  keys of the lists are in the order of their names as well and one module defines the first node, the
  in-memory store returns the same path.\<close>

theorem ps_ToPath_spec:
  assumes "backend_ok B" "schemaOk Y r" "sc_root sc = Some r"
    and "ps_AddSchema n Y B s sc = Some (Inr (s', sc'))" "ps_cache s = None"
    and "\<forall>p ps. kv_get B (ps_db s) (buildEntryKey (Key sc) p ps) = None"
    and "map_of (e_Dir (Ptr r [])) (e_Name e) = None" "e_Name e \<noteq> []" "GetEntry Y sc [e_Name e] = Inr e" "storeOk Y e"
    and "stored_path Y e xs" "plainNames (map pe_Name xs)"
  shows "ps_ToPath B s' \<lparr>tp_Schema = Some (Key sc), tp_PathElement = flat xs\<rparr> =
      (s', Inr \<lparr>p_Origin = [], p_Target = [], p_Elem = xs\<rparr>) \<and>
    (follows Y e xs \<longrightarrow> checkKey (Key sc) = Inr () \<longrightarrow> map_of (ms_schemas mem) (Key sc) = Some sc \<longrightarrow>
     (\<exists>m\<in>set (e_children (Ptr r [])). map_of (e_Dir m) (e_Name e) = Some e \<and>
       (\<forall>m'\<in>set (e_children (Ptr r [])). map_of (e_Dir m') (e_Name e) \<noteq> None \<longrightarrow> m' = m)) \<longrightarrow>
     mem_ToPath Y mem \<lparr>tp_Schema = Some (Key sc), tp_PathElement = flat xs\<rparr> =
       Inr \<lparr>p_Origin = [], p_Target = [], p_Elem = xs\<rparr>)"
proof (intro conjI impI)
  have h: "holds B s' n Y sc r" by (rule AddSchema_holds [OF assms(1-6)])
  obtain x xs' where x: "xs = x # xs'" "pe_Name x = e_Name e" using stored_path_head [OF assms(11)] by blast
  obtain j e' where j: "toPathLoop B (Key sc) (flat xs) s' 0 [] = (s', Inr (j, xs))" "length (flat xs) - 1 \<le> j"
    "GetEntry Y sc (map pe_Name xs) = Inr e'"
    using toPathLoop_stored [OF h assms(2,3,7,8,11,10), of "[]" "[]" "[]"] assms(9,12) by auto
  have names: "map pe_Name xs = e_Name e # map pe_Name xs'" using x by simp
  obtain se where "ps_getSchema B s' (Some \<lparr>p_Origin = [], p_Target = [], p_Elem = xs\<rparr>) False (Key sc) = (s', Inr se)"
    using holds_getSchema [OF h names assms(8) _ assms(7), of e' False] assms(12) j(3) names by auto
  then show "ps_ToPath B s' \<lparr>tp_Schema = Some (Key sc), tp_PathElement = flat xs\<rparr> =
      (s', Inr \<lparr>p_Origin = [], p_Target = [], p_Elem = xs\<rparr>)"
    using h j by (simp add: ps_ToPath_def holds_def)
next
  assume f: "follows Y e xs" "checkKey (Key sc) = Inr ()" "map_of (ms_schemas mem) (Key sc) = Some sc"
    "\<exists>m\<in>set (e_children (Ptr r [])). map_of (e_Dir m) (e_Name e) = Some e \<and>
       (\<forall>m'\<in>set (e_children (Ptr r [])). map_of (e_Dir m') (e_Name e) \<noteq> None \<longrightarrow> m' = m)"
  obtain x xs' where x: "xs = x # xs'" "pe_Name x = e_Name e" using stored_path_head [OF assms(11)] by blast
  from f(4) have "findChild (e_children (Ptr r [])) (e_Name e) = Some e" using findChild_unique by metis
  moreover have "cutFirst (e_Name e) = (e_Name e, e_Name e, False)"
    using assms(12) x by (simp add: cutFirst_def)
  ultimately have "BuildPath Y sc (flat xs) [] = buildPath Y (flat xs) [] e"
    using assms(3,7) x by (simp add: BuildPath_def rootPtr_def)
  then show "mem_ToPath Y mem \<lparr>tp_Schema = Some (Key sc), tp_PathElement = flat xs\<rparr> =
       Inr \<lparr>p_Origin = [], p_Target = [], p_Elem = xs\<rparr>"
    using buildPath_flat [OF f(1), of "[]"] f(2,3) by (simp add: mem_ToPath_def mem_findChecked_def mem_find_def)
qed

theorem ps_ToPath_spec_witness:
  "\<exists>s' sc'. ps_AddSchema 2 kindApi fxBackend fxStore fxSchema = Some (Inr (s', sc')) \<and>
     ps_ToPath fxBackend s' \<lparr>tp_Schema = Some (Key fxSchema), tp_PathElement = [''host'', ''detail-list'', ''7'', ''source-id'']\<rparr> =
       (s', Inr \<lparr>p_Origin = [], p_Target = [], p_Elem = [\<lparr>pe_Name = ''host'', pe_Key = []\<rparr>,
          \<lparr>pe_Name = ''detail-list'', pe_Key = [(''id'', ''7'')]\<rparr>, \<lparr>pe_Name = ''source-id'', pe_Key = []\<rparr>]\<rparr>)"
proof -
  obtain s' sc' where a: "ps_AddSchema 2 kindApi fxBackend fxStore fxSchema = Some (Inr (s', sc'))"
    using fxStore_add by blast
  let ?host = "Ptr fxHost [fxModule, fxRoot]" and ?list = "Ptr fxDetailList (tl (anc fxSourceId))"
  let ?xs = "[\<lparr>pe_Name = ''host'', pe_Key = []\<rparr>, \<lparr>pe_Name = ''detail-list'', pe_Key = [(''id'', ''7'')]\<rparr>,
          \<lparr>pe_Name = ''source-id'', pe_Key = []\<rparr>]"
  have n: "e_Name ?host = ''host''" "str_fields (e_Key ?host) = []" "e_Name ?list = ''detail-list''"
    "str_fields (e_Key ?list) = [''id'']" "e_Name fxSourceId = ''source-id''" by code_simp+
  have k: "IsDir kindApi ?host" "IsDir kindApi ?list" "IsLeaf kindApi fxSourceId" by code_simp+
  have "?list \<in> set (getChildren kindApi ?host)" "fxSourceId \<in> set (getChildren kindApi ?list)" by code_simp+
  then have d: "data_child kindApi ?host ?list" "data_child kindApi ?list fxSourceId" by (auto intro: getChildren_sound)
  have p: "stored_path kindApi ?host ?xs"
    using stored_path.dir_next [OF k(1) _ d(1) stored_path.dir_next [OF k(2) _ d(2) stored_path.leaf [OF k(3)], of "[''7'']"], of "[]"] n
    by simp
  have g: "GetEntry kindApi fxSchema [''host''] = Inr ?host" and ok: "storeOk kindApi ?host" by code_simp+
  have "ps_ToPath fxBackend s' \<lparr>tp_Schema = Some (Key fxSchema), tp_PathElement = flat ?xs\<rparr> =
      (s', Inr \<lparr>p_Origin = [], p_Target = [], p_Elem = ?xs\<rparr>)"
    by (rule ps_ToPath_spec [THEN conjunct1, OF fxBackend_ok fxSchema_ok a _ _ _ _ _ ok p])
      (use n g in \<open>simp_all add: fxStore_def fxBackend_def char_defs fx_defs e_Dir_def dirl_def\<close>)
  with a show ?thesis by simp
qed

section \<open>The elements on the way to a node\<close>

lemma find_child: "unique_names Y e \<Longrightarrow> data_child Y e c \<Longrightarrow> find (\<lambda>x. e_Name x = e_Name c) (getChildren Y e) = Some c"
  by (rule find_distinct [OF unique_names_distinct getChildren_complete])

abbreviation nameOnly :: "PathElem list \<Rightarrow> PathElem list" where
  "nameOnly \<equiv> map (\<lambda>x. \<lparr>pe_Name = pe_Name x, pe_Key = []\<rparr>)"

text \<open>Below a node both stores go down the same entries.\<close>

lemma along_path:
  assumes h: "holds B s n Y sc r" "schemaOk Y r" "sc_root sc = Some r" "map_of (e_Dir (Ptr r [])) p0 = None" "p0 \<noteq> []"
    and "data_path Y e (map pe_Name pes) f" "unique_names Y e" "\<not> isCC Y e" "plainNames (p0 # ps @ map pe_Name pes)"
    and "map pe_Name pre = p0 # ps" "GetEntry Y sc (p0 # ps) = Inr e"
  shows "\<exists>ses. prefixElems B (Key sc) wd (nameOnly pre) pes s = (s, map Some ses) \<and>
    list_all2 (\<lambda>x se. SchemaElemFromYEntry n Y sc x True = Some (Inr se)) (fst (getEntryCh Y e (map pe_Name pes))) ses \<and>
    GetEntry Y sc (p0 # ps @ map pe_Name pes) = Inr f"
  using assms(6-)
proof (induction pes arbitrary: e ps pre)
  case Nil
  then show ?case by (auto elim: data_path_NilE)
next
  case (Cons x pes)
  from Cons.prems(1) obtain c where c: "data_child Y e c" "e_Name c = unprefixed (pe_Name x)" "data_path Y c (map pe_Name pes) f"
    by (auto elim: data_path_ConsE)
  have n: "pe_Name x = e_Name c" using c(2) Cons.prems(4) by (simp add: unprefixed_id)
  have g: "GetEntry Y sc (p0 # ps @ [e_Name c]) = Inr c"
    by (rule GetEntry_snoc [OF h(2,3) _ h(4) Cons.prems(6) c(1)]) (use Cons.prems(4) n in auto)
  have names: "map pe_Name (nameOnly (pre @ [x])) = p0 # (ps @ [e_Name c])" using Cons.prems(5) n by (simp add: comp_def)
  have plain: "plainNames (p0 # ps @ [e_Name c])" "plainNames (p0 # (ps @ [e_Name c]) @ map pe_Name pes)" using Cons.prems(4) n by auto
  from holds_getSchema [OF h(1) names h(5) plain(1) h(4) g, of wd] obtain se where
    se: "ps_getSchema B s (Some \<lparr>p_Origin = [], p_Target = [], p_Elem = nameOnly (pre @ [x])\<rparr>) wd (Key sc) = (s, Inr se)"
    "SchemaElemFromYEntry n Y sc c True = Some (Inr se)" by blast
  have "map pe_Name (pre @ [x]) = p0 # (ps @ [e_Name c])" using Cons.prems(5) n by simp
  from Cons.IH [OF c(3) unique_names_child [OF Cons.prems(2) c(1)] getChildren_data [OF c(1)] plain(2) this] g obtain ses where
    ses: "prefixElems B (Key sc) wd (nameOnly (pre @ [x])) pes s = (s, map Some ses)"
    "list_all2 (\<lambda>x se. SchemaElemFromYEntry n Y sc x True = Some (Inr se)) (fst (getEntryCh Y c (map pe_Name pes))) ses"
    "GetEntry Y sc (p0 # (ps @ [e_Name c]) @ map pe_Name pes) = Inr f"
    by auto
  have "prefixElems B (Key sc) wd (nameOnly pre) (x # pes) s = (s, map Some (se # ses))"
    using se(1) ses(1) by simp
  moreover have "fst (getEntryCh Y e (map pe_Name (x # pes))) = c # fst (getEntryCh Y c (map pe_Name pes))"
    using find_child [OF Cons.prems(2) c(1)] data_child_dir [OF c(1)] n by (simp add: case_prod_beta)
  moreover have "GetEntry Y sc (p0 # ps @ map pe_Name (x # pes)) = Inr f" using ses(3) n by simp
  ultimately show ?case using se(2) ses(2) by (intro exI [of _ "se # ses"]) simp
qed

lemma otraverse_elems:
  "list_all2 (\<lambda>x se. SchemaElemFromYEntry n Y sc x wd = Some (Inr se)) es ses \<Longrightarrow>
   otraverse (\<lambda>e. case SchemaElemFromYEntry n Y sc e wd of
       None \<Rightarrow> None
     | Some (Inl (GoPanic m)) \<Rightarrow> Some (Inl (GoPanic m))
     | Some (Inl err) \<Rightarrow> Some (Inr None)
     | Some (Inr se) \<Rightarrow> Some (Inr (Some se))) es = Some (Inr (map Some ses))"
  by (induction rule: list_all2_induct) simp_all

text \<open>Both stores send the same elements on the way to a node. For a path whose first name one module
  defines, the persistent store that \<open>AddSchema\<close> leaves and an in-memory store with the schema answer
  \<open>GetSchemaElements\<close> alike: one element per name of the path, from the top to the node, each
  the message of the entry there.\<close>

lemma GetSchemaElements_agree:
  assumes "backend_ok B" "schemaOk Y r" "sc_root sc = Some r"
    and "ps_AddSchema n Y B s sc = Some (Inr (s', sc'))" "ps_cache s = None"
    and "\<forall>p ps. kv_get B (ps_db s) (buildEntryKey (Key sc) p ps) = None"
    and "p_Elem p = x # xs" "p0 = pe_Name x" "p0 \<noteq> []" "plainNames (map pe_Name (p_Elem p))"
    and "map_of (e_Dir (Ptr r [])) p0 = None" "GetEntry Y sc [p0] = Inr c" "data_path Y c (map pe_Name xs) e"
    and "m \<in> set (e_children (Ptr r []))" "map_of (e_Dir m) p0 = Some c"
    and "\<forall>m'\<in>set (e_children (Ptr r [])). map_of (e_Dir m') p0 \<noteq> None \<longrightarrow> m' = m"
    and "map_of (ms_schemas mem) (Key sc) = Some sc"
  shows "\<exists>ses. ps_GetSchemaElements B s' \<lparr>gr_Schema = Some (Key sc), gr_Path = Some p, gr_WithDescription = True\<rparr> =
      (s', Inr (map Some ses)) \<and>
    mem_GetSchemaElements n Y mem \<lparr>gr_Schema = Some (Key sc), gr_Path = Some p, gr_WithDescription = True\<rparr> =
      Some (Inr (map Some ses)) \<and>
    list_all2 (\<lambda>y se. SchemaElemFromYEntry n Y sc y True = Some (Inr se)) (c # fst (getEntryCh Y c (map pe_Name xs))) ses"
proof -
  have h: "holds B s' n Y sc r" by (rule AddSchema_holds [OF assms(1-6)])
  have col: "colon \<notin> set p0" and plain: "plainNames (p0 # [] @ map pe_Name xs)" "plainNames (p0 # [])" "plainNames (p0 # map pe_Name xs)"
    using assms(7,8,10) by simp_all
  have cc: "\<not> isCC Y c"
    using GetEntry_data [OF assms(2,3) col assms(11,12)] by (auto elim!: data_path_ConsE data_path_NilE dest: getChildren_data)
  have u: "unique_names Y c" by (rule GetEntry_below(1) [OF assms(2,3) col assms(11,12)])
  have n1: "map pe_Name (nameOnly [x]) = p0 # []" "map pe_Name [x] = p0 # []" using assms(8) by simp_all
  from along_path [OF h assms(2,3,11,9,13) u cc plain(1) n1(2) assms(12), of True] obtain ses where
    ses: "prefixElems B (Key sc) True (nameOnly [x]) xs s' = (s', map Some ses)"
    "list_all2 (\<lambda>x se. SchemaElemFromYEntry n Y sc x True = Some (Inr se)) (fst (getEntryCh Y c (map pe_Name xs))) ses"
    and g: "GetEntry Y sc (p0 # map pe_Name xs) = Inr e"
    by auto
  from holds_getSchema [OF h n1(1) assms(9) plain(2) assms(11,12), of True] obtain se where
    se: "ps_getSchema B s' (Some \<lparr>p_Origin = [], p_Target = [], p_Elem = nameOnly [x]\<rparr>) True (Key sc) = (s', Inr se)"
    "SchemaElemFromYEntry n Y sc c True = Some (Inr se)" by blast
  have all: "list_all2 (\<lambda>y se. SchemaElemFromYEntry n Y sc y True = Some (Inr se)) (c # fst (getEntryCh Y c (map pe_Name xs))) (se # ses)"
    using se(2) ses(2) by simp
  have pre: "prefixElems B (Key sc) True [] (p_Elem p) s' = (s', map Some (se # ses))"
    using se(1) ses(1) assms(7) by simp
  have "map pe_Name (p_Elem p) = p0 # map pe_Name xs" using assms(7,8) by simp
  from holds_getSchema_path [OF h this assms(9) plain(3) assms(11) g, of True] obtain rsp where
    rsp: "ps_getSchema B s' (Some p) True (Key sc) = (s', Inr rsp)" "SchemaElemFromYEntry n Y sc e True = Some (Inr rsp)" by blast
  have one: "se = rsp \<and> ses = []" if "xs = []"
    using that assms(13) ses(1) se(2) rsp(2) by (auto elim: data_path_NilE)
  have "ps_GetSchemaElements B s' \<lparr>gr_Schema = Some (Key sc), gr_Path = Some p, gr_WithDescription = True\<rparr> = (s', Inr (map Some (se # ses)))"
    using h pre rsp(1) one assms(7) by (cases "xs = []") (simp_all add: ps_GetSchemaElements_def holds_def)
  moreover have "fst (GetEntryCh Y sc (p0 # map pe_Name xs)) = c # fst (getEntryCh Y c (map pe_Name xs))"
  proof -
    have "findChild (e_children (Ptr r [])) p0 = Some c" using findChild_unique [OF assms(14,15)] assms(16) by blast
    moreover have "cutFirst p0 = (p0, p0, False)" using col by (simp add: cutFirst_def)
    ultimately show ?thesis using assms(3,11) by (simp add: GetEntryCh_def rootPtr_def case_prod_beta)
  qed
  then have "mem_GetSchemaElements n Y mem \<lparr>gr_Schema = Some (Key sc), gr_Path = Some p, gr_WithDescription = True\<rparr> =
      Some (Inr (map Some (se # ses)))"
    using otraverse_elems [OF all] assms(7,8,17) by (simp add: mem_GetSchemaElements_def mem_find_def names_ToStrings)
  ultimately show ?thesis using all by blast
qed

text \<open>With the first name in several modules they differ: \<open>GetEntryCh\<close> takes the first module in the order
  of map iteration and stays there, also when the rest of the path is in another one, which \<open>GetEntry\<close> finds.\<close>

lemma GetEntryCh_first_module:
  assumes "sc_root sc = Some r" "map_of (e_Dir (Ptr r [])) p0 = None" "colon \<notin> set p0"
    and "findChild (e_children (Ptr r [])) p0 = Some c" "\<forall>d. data_child Y c d \<longrightarrow> e_Name d \<noteq> p1"
  shows "fst (GetEntryCh Y sc (p0 # p1 # ps)) = [c]"
proof -
  have "find (\<lambda>ee. e_Name ee = p1) (getChildren Y c) = None"
    using assms(5) by (auto simp: find_None_iff dest: getChildren_sound)
  moreover have "cutFirst p0 = (p0, p0, False)" using assms(3) by (simp add: cutFirst_def)
  ultimately show ?thesis using assms(1,2,4) by (simp add: GetEntryCh_def rootPtr_def case_prod_beta)
qed

end
