(* ===== verification/Commands.thy ===== *)
theory Commands
  imports StoresAgree PersistToPath
begin

text \<open>
  The other commands of the client, \<open>client/cmd\<close>: the requests that \<open>get\<close>, \<open>expand-path\<close>,
  \<open>to-path\<close>, \<open>create\<close>, \<open>reload\<close> and \<open>delete\<close> send for their flags, the table that \<open>list\<close>
  prints, and the recursive queries of \<open>bench\<close>.

  The flags are a record. The connection to the server is an argument: the interface of the server
  for single requests, a function from requests to answers for \<open>bench\<close>.
\<close>

section \<open>Requests\<close>

record flags =
  fl_schemaName :: string
  fl_schemaVendor :: string
  fl_schemaVersion :: string
  fl_xpath :: string
  fl_withDesc :: bool
  fl_asXpath :: bool
  fl_configOnly :: bool
  fl_stateOnly :: bool
  fl_pathItems :: "string list"
  fl_schemaFiles :: "string list"
  fl_schemaDirs :: "string list"
  fl_schemaExcludes :: "string list"
  fl_format :: string

definition flagKey :: "flags \<Rightarrow> schema_key" where
  "flagKey fl = \<lparr>sk_Name = fl_schemaName fl, sk_Vendor = fl_schemaVendor fl, sk_Version = fl_schemaVersion fl\<rparr>"

definition schemaGetCmd :: "flags \<Rightarrow> rpc res" where
  "schemaGetCmd fl =
     rbind (ParsePath (fl_xpath fl)) (\<lambda>p.
       Inr (GetSchemaRequest \<lparr>gr_Schema = Some (flagKey fl), gr_Path = Some p, gr_WithDescription = fl_withDesc fl\<rparr>))"

definition schemaExpandPathCmd :: "flags \<Rightarrow> rpc res" where
  "schemaExpandPathCmd fl =
     (if fl_configOnly fl \<and> fl_stateOnly fl then Inl (Errorf ''either --config-only or --state-only can be set'' [])
      else rbind (ParsePath (fl_xpath fl)) (\<lambda>p.
        let dt = DT_ALL;
            dt = (if fl_configOnly fl then DT_CONFIG else dt);
            dt = (if fl_stateOnly fl then DT_STATE else dt) in
        Inr (ExpandPathRequest \<lparr>er_Schema = Some (flagKey fl), er_Path = Some p, er_DataType = dt, er_Xpath = fl_asXpath fl\<rparr>)))"

definition schemaToPathCmd :: "flags \<Rightarrow> rpc res" where
  "schemaToPathCmd fl = Inr (ToPathRequest \<lparr>tp_Schema = Some (flagKey fl), tp_PathElement = fl_pathItems fl\<rparr>)"

definition schemaCreateCmd :: "flags \<Rightarrow> rpc res" where
  "schemaCreateCmd fl = Inr (CreateSchemaRequest \<lparr>cr_Schema = Some (flagKey fl), cr_File = fl_schemaFiles fl,
     cr_Directory = fl_schemaDirs fl, cr_Exclude = fl_schemaExcludes fl\<rparr>)"

definition schemaReloadCmd :: "flags \<Rightarrow> rpc res" where
  "schemaReloadCmd fl = Inr (ReloadSchemaRequest (Some (flagKey fl)))"

definition deleteCmd :: "flags \<Rightarrow> rpc res" where
  "deleteCmd fl = Inr (DeleteSchemaRequest (Some (flagKey fl)))"

text \<open>A command that cannot build its request fails before it calls the server.\<close>

definition runCmd :: "'s store_iface \<Rightarrow> 's \<Rightarrow> rpc res \<Rightarrow> 's \<times> reply run" where
  "runCmd I s req = (case req of Inl err \<Rightarrow> (s, Some (Inl err)) | Inr q \<Rightarrow> serve I s q)"

section \<open>All elements of a path\<close>

text \<open>\<open>get --all\<close> receives until the stream ends. The end of a stream without error is the error \<open>EOF\<close>, which is
  recognised by its text. \<open>None\<close> is a loop that still waits.\<close>

datatype recv = RecvMsg "schema_elem option" | RecvErr gerr

abbreviation EOF :: gerr where "EOF \<equiv> Errorf ''EOF'' []"

primrec handleGetSchemaElems :: "recv list \<Rightarrow> schema_elem option list \<Rightarrow> schema_elem option list \<times> unit run" where
  "handleGetSchemaElems [] out = (out, None)"
| "handleGetSchemaElems (r # rs) out =
     (case r of
        RecvErr err \<Rightarrow> (out, Some (if err = EOF then Inr () else Inl err))
      | RecvMsg rsp \<Rightarrow> handleGetSchemaElems rs (out @ [rsp]))"

text \<open>What a client receives of what a handler sent and returned.\<close>

definition clientStream :: "schema_elem option list \<times> unit run \<Rightarrow> recv list" where
  "clientStream h = map RecvMsg (fst h) @
     (case snd h of None \<Rightarrow> [] | Some (Inl err) \<Rightarrow> [RecvErr err] | Some (Inr _) \<Rightarrow> [RecvErr EOF])"

definition schemaGetAllCmd :: "'s store_iface \<Rightarrow> 's \<Rightarrow> turn list \<Rightarrow> flags \<Rightarrow> 's \<times> schema_elem option list \<times> unit run" where
  "schemaGetAllCmd I s ts fl =
     (case ParsePath (fl_xpath fl) of
        Inl err \<Rightarrow> (s, [], Some (Inl err))
      | Inr p \<Rightarrow>
          (let (s', h) = srv_GetSchemaElements I s ts
             \<lparr>gr_Schema = Some (flagKey fl), gr_Path = Some p, gr_WithDescription = fl_withDesc fl\<rparr> in
           (s', handleGetSchemaElems (clientStream h) [])))"

lemma handleGetSchemaElems_msgs: "handleGetSchemaElems (map RecvMsg xs @ rs) out = handleGetSchemaElems rs (out @ xs)"
  by (induction xs arbitrary: out) simp_all

lemma schemaGetAllCmd_complete:
  assumes "ParsePath (fl_xpath fl) = Inr p"
    and "i_GetSchemaElements I s \<lparr>gr_Schema = Some (flagKey fl), gr_Path = Some p, gr_WithDescription = fl_withDesc fl\<rparr> = (s', Some (Inr ch))"
    and "length ch < m"
  shows "schemaGetAllCmd I s (replicate m (Receive None)) fl = (s', ch, Some (Inr ()))"
  using assms streamElems_complete [OF assms(3), of "[]"]
  by (simp add: schemaGetAllCmd_def srv_GetSchemaElements_def clientStream_def handleGetSchemaElems_msgs)

section \<open>The table of schemas\<close>

type_synonym row = "string \<times> string \<times> string"

definition tableLess :: "row \<Rightarrow> row \<Rightarrow> bool" where
  "tableLess a b =
     (if fst a = fst b
      then (if fst (snd a) = fst (snd b) then snd (snd a) < snd (snd b) else fst (snd a) < fst (snd b))
      else fst a < fst b)"

datatype list_output = Table "string list list" | Proto "schema_key list" | Json "schema_key list" | NoOutput

definition schemaListCmd :: "flags \<Rightarrow> schema_key list \<Rightarrow> list_output" where
  "schemaListCmd fl schemaList =
     (if fl_format fl = ''table'' \<or> fl_format fl = [] then
        (let tableData = map (\<lambda>k. (sk_Name k, sk_Vendor k, sk_Version k)) schemaList;
             tableData = sort_by tableLess tableData in
         Table ([''Name'', ''Vendor'', ''Version''] # [''Node1'', ''Ready''] # map (\<lambda>(n, v, r). [n, v, r]) tableData))
      else if fl_format fl = ''proto'' then Proto schemaList
      else if fl_format fl = ''json'' then Json schemaList
      else NoOutput)"

interpretation table_order: strict_linear tableLess
  by unfold_locales (auto simp: tableLess_def split: if_splits prod.splits)

section \<open>Bench\<close>

definition getAt :: "(get_req \<Rightarrow> schema_elem res) \<Rightarrow> schema_key \<Rightarrow> Path \<Rightarrow> schema_elem res" where
  "getAt get sck p = get \<lparr>gr_Schema = Some sck, gr_Path = Some p, gr_WithDescription = False\<rparr>"

text \<open>One query per name, as for the keys and the fields of a container.\<close>

definition queryNames :: "(get_req \<Rightarrow> schema_elem res) \<Rightarrow> schema_key \<Rightarrow> Path \<Rightarrow> nat \<Rightarrow> string list \<Rightarrow> nat res" where
  "queryNames get sck p = rfold (\<lambda>count nm. rbind (getAt get sck (childPath p nm)) (\<lambda>_. Inr (Suc count)))"

text \<open>The recursion over the children; its depth is that of the schema, so it has fuel. The type
  assertion on the answer for a child panics if it is no container.\<close>

primrec querySchemaContainer :: "nat \<Rightarrow> (get_req \<Rightarrow> schema_elem res) \<Rightarrow> schema_key \<Rightarrow> Path \<Rightarrow> container_schema \<Rightarrow> nat run" where
  "querySchemaContainer 0 get sck p c = None"
| "querySchemaContainer (Suc n) get sck p c =
     obind (lift (queryNames get sck p 0 (map l_Name (c_Keys c)))) (\<lambda>count.
     obind (lift (queryNames get sck p count (map l_Name (c_Fields c)))) (\<lambda>count.
     ofold (\<lambda>count child.
         obind (lift (getAt get sck (childPath p child))) (\<lambda>rsp.
           case rsp of
             Container c' \<Rightarrow> obind (querySchemaContainer n get sck (childPath p child) c') (\<lambda>i. Some (Inr (Suc count + i)))
           | _ \<Rightarrow> Some (Inl (GoPanic ''interface conversion''))))
       count (c_Children c)))"

definition schemaBenchCmd :: "nat \<Rightarrow> flags \<Rightarrow> (get_req \<Rightarrow> schema_elem res) \<Rightarrow> nat run" where
  "schemaBenchCmd n fl get =
     obind (lift (ParsePath (fl_xpath fl))) (\<lambda>p.
     obind (lift (getAt get (flagKey fl) p)) (\<lambda>rsp.
       case rsp of
         Container c \<Rightarrow> querySchemaContainer n get (flagKey fl) p c
       | Field f \<Rightarrow> Some (Inr 1)
       | Leaflist l \<Rightarrow> Some (Inr 1)))"

section \<open>Properties of the table\<close>

lemma rows_inj: "inj_on (\<lambda>x. x) A"
  by (simp add: inj_on_def)

text \<open>The table of \<open>list\<close> shows every schema of the server once, ordered by name, vendor and
  version whatever order the server answers in, and one row that is no schema: the row
  \<open>Node1 Ready\<close> comes first, also when the server has no schema at all.\<close>

theorem list_table:
  assumes "fl_format fl = [] \<or> fl_format fl = ''table''"
  shows "\<exists>rows. schemaListCmd fl ls = Table ([''Name'', ''Vendor'', ''Version''] # [''Node1'', ''Ready''] # rows) \<and>
    mset rows = image_mset (\<lambda>k. [sk_Name k, sk_Vendor k, sk_Version k]) (mset ls) \<and>
    (\<exists>ts. rows = map (\<lambda>(n, v, r). [n, v, r]) ts \<and> sorted_wrt (\<lambda>a b. \<not> tableLess b a) ts) \<and>
    (mset ls = mset ls' \<longrightarrow> schemaListCmd fl ls' = schemaListCmd fl ls)"
proof -
  let ?t = "\<lambda>xs. map (\<lambda>k. (sk_Name k, sk_Vendor k, sk_Version k)) xs"
  have out: "schemaListCmd fl xs = Table ([''Name'', ''Vendor'', ''Version''] # [''Node1'', ''Ready''] #
      map (\<lambda>(n, v, r). [n, v, r]) (sort_by tableLess (?t xs)))" for xs
    using assms by (auto simp: schemaListCmd_def Let_def)
  have "sorted_wrt (\<lambda>a b. \<not> tableLess b a) (sort_by tableLess (?t ls))" by (rule table_order.sorted_sort_by)
  moreover have "sort_by tableLess (?t ls') = sort_by tableLess (?t ls)" if "mset ls = mset ls'"
    by (rule table_order.sort_by_perm [OF _ rows_inj]) (simp add: that)
  moreover have "mset (map (\<lambda>(n, v, r). [n, v, r]) (sort_by tableLess (?t ls))) =
      image_mset (\<lambda>k. [sk_Name k, sk_Vendor k, sk_Version k]) (mset ls)"
    by (simp add: multiset.map_comp comp_def)
  ultimately show ?thesis unfolding out
    by (intro exI [of _ "map (\<lambda>(n, v, r). [n, v, r]) (sort_by tableLess (?t ls))"] conjI exI [of _ "sort_by tableLess (?t ls)"]) simp_all
qed

definition fxFlags :: flags where
  "fxFlags = \<lparr>fl_schemaName = ''lrc'', fl_schemaVendor = ''test'', fl_schemaVersion = ''0.0.0'', fl_xpath = ''/host'', fl_withDesc = False,
     fl_asXpath = False, fl_configOnly = False, fl_stateOnly = False, fl_pathItems = [], fl_schemaFiles = [''/y''],
     fl_schemaDirs = [], fl_schemaExcludes = [], fl_format = []\<rparr>"

theorem list_table_witness:
  "schemaListCmd fxFlags [] = Table [[''Name'', ''Vendor'', ''Version''], [''Node1'', ''Ready'']] \<and>
   schemaListCmd fxFlags [fxVersion ''2'', fxVersion ''1''] = schemaListCmd fxFlags [fxVersion ''1'', fxVersion ''2'']"
proof -
  have f: "fl_format fxFlags = [] \<or> fl_format fxFlags = ''table''" by (simp add: fxFlags_def)
  from list_table [OF f, of "[]" "[]"] have "schemaListCmd fxFlags [] = Table [[''Name'', ''Vendor'', ''Version''], [''Node1'', ''Ready'']]"
    by auto
  moreover from list_table [OF f, of "[fxVersion ''1'', fxVersion ''2'']" "[fxVersion ''2'', fxVersion ''1'']"]
  have "schemaListCmd fxFlags [fxVersion ''2'', fxVersion ''1''] = schemaListCmd fxFlags [fxVersion ''1'', fxVersion ''2'']"
    by (auto simp: add_mset_commute)
  ultimately show ?thesis by simp
qed

section \<open>What bench counts\<close>

text \<open>Below a node: one query for each leaf, one for each container or list and those below it. Leaf-lists
  are not queried.\<close>

function benchCount :: "yang_api \<Rightarrow> eptr \<Rightarrow> nat" where
  "benchCount Y e = sum_list (map (\<lambda>d. if IsDir Y d then Suc (benchCount Y d) else if IsLeaf Y d then 1 else 0) (getChildren Y e))"
  by pat_completeness auto
termination
  by (relation "measure (\<lambda>(Y, e). size (ent e))") (auto dest!: getChildren_sound getChildren_size)

declare benchCount.simps [simp del]

lemma queryNames_ok:
  "(\<And>nm. nm \<in> set nms \<Longrightarrow> \<exists>se. getAt get sck (childPath p nm) = Inr se) \<Longrightarrow> queryNames get sck p m nms = Inr (m + length nms)"
proof (induction nms arbitrary: m)
  case (Cons nm nms)
  then obtain se where "getAt get sck (childPath p nm) = Inr se" by auto
  with Cons show ?case by (simp add: queryNames_def)
qed (simp add: queryNames_def)

lemma ofold_count:
  "(\<And>nm m. nm \<in> set nms \<Longrightarrow> f m nm = Some (Inr (m + h nm))) \<Longrightarrow> ofold f m nms = Some (Inr (m + sum_list (map h nms)))"
  by (induction nms arbitrary: m) (simp_all add: add.assoc)

lemma sum_list_split:
  "sum_list (map (\<lambda>d. if P d then g d else if Q d then 1 else 0) ds) =
   length (filter (\<lambda>d. (\<not> P d \<and> Q d) \<and> R d) ds) + length (filter (\<lambda>d. (\<not> P d \<and> Q d) \<and> \<not> R d) ds) + sum_list (map g (filter P ds))"
  for g :: "'a \<Rightarrow> nat"
  by (induction ds) auto

lemma sum_list_sort: "sum_list (map h (sort xs)) = sum_list (map h xs)" for h :: "'a::linorder \<Rightarrow> nat"
  by (metis mset_map mset_sort sum_mset_sum_list)

lemma bench_container:
  assumes h: "holds B s n Y sc r" "schemaOk Y r" "sc_root sc = Some r"
    and "storeOk Y e" "unique_names Y e" "treeOk Y e" "size (ent e) < k"
    and "map pe_Name (p_Elem p) = p0 # ps" "p0 \<noteq> []" "plainNames (p0 # ps)"
    and "map_of (e_Dir (Ptr r [])) p0 = None" "GetEntry Y sc (p0 # ps) = Inr e"
    and "containerFromYEntry n Y sc e True = Some (Inr c)"
  shows "querySchemaContainer k (\<lambda>q. snd (ps_GetSchema B s q)) (Key sc) p c = Some (Inr (benchCount Y e))"
  using assms(4-)
proof (induction k arbitrary: e p ps c)
  case (Suc k)
  note prems = Suc.prems
  let ?get = "\<lambda>q. snd (ps_GetSchema B s q)"
  let ?ch = "getChildren Y e" and ?ks = "set (str_fields (e_Key e))"
  have below: "GetEntry Y sc (p0 # ps @ [e_Name d]) = Inr d \<and> map pe_Name (p_Elem (childPath p (e_Name d))) = p0 # ps @ [e_Name d] \<and>
      plainNames (p0 # ps @ [e_Name d]) \<and>
      (\<exists>se. getAt ?get (Key sc) (childPath p (e_Name d)) = Inr se \<and> SchemaElemFromYEntry n Y sc d True = Some (Inr se))"
    if "data_child Y e d" for d
  proof -
    have nm: "colon \<notin> set (e_Name d)" "slash \<notin> set (e_Name d)" using treeOk_name [OF data_child_treeOk [OF that prems(3)]] by blast+
    have "colon \<notin> set p0" using prems(7) by simp
    from GetEntry_snoc [OF h(2,3) this prems(8,9) that nm(1)] have g: "GetEntry Y sc (p0 # ps @ [e_Name d]) = Inr d" .
    have m: "map pe_Name (p_Elem (childPath p (e_Name d))) = p0 # ps @ [e_Name d]" using prems(5) by (simp add: childPath_def)
    have pl: "plainNames (p0 # ps @ [e_Name d])" using prems(7) nm by simp
    from holds_get [OF h(1) m prems(6) pl prems(8) g, of False] g m pl show ?thesis by (auto simp: getAt_def)
  qed
  have ask: "\<exists>se. getAt ?get (Key sc) (childPath p nm) = Inr se" if "nm \<in> e_Name ` set ?ch" for nm
    using that below getChildren_sound by blast
  have l: "c_Children c = sort (map e_Name (filter (IsDir Y) ?ch))"
    "map l_Name (c_Fields c) = map e_Name (filter (\<lambda>x. isField Y x \<and> e_Name x \<notin> ?ks) ?ch)"
    "map l_Name (c_Keys c) = sort_key (slicesIndex (str_fields (e_Key e))) (map e_Name (filter (\<lambda>x. isField Y x \<and> e_Name x \<in> ?ks) ?ch))"
    using container_lists [OF prems(10)] by (simp_all add: lists_def)
  have keys: "queryNames ?get (Key sc) p 0 (map l_Name (c_Keys c)) = Inr (length (filter (\<lambda>x. isField Y x \<and> e_Name x \<in> ?ks) ?ch))"
    unfolding l(3) by (subst queryNames_ok) (use ask in auto)
  have fields: "queryNames ?get (Key sc) p m (map l_Name (c_Fields c)) =
      Inr (m + length (filter (\<lambda>x. isField Y x \<and> e_Name x \<notin> ?ks) ?ch))" for m
    unfolding l(2) by (subst queryNames_ok) (use ask in auto)
  define g where "g nm = Suc (benchCount Y (the (find (\<lambda>d. e_Name d = nm) ?ch)))" for nm
  have g: "g (e_Name d) = Suc (benchCount Y d)" if "d \<in> set ?ch" for d
    using find_distinct [OF unique_names_distinct [OF prems(2)] that] by (simp add: g_def)
  have step: "obind (lift (getAt ?get (Key sc) (childPath p nm))) (\<lambda>rsp. case rsp of
        Container c' \<Rightarrow> obind (querySchemaContainer k ?get (Key sc) (childPath p nm) c') (\<lambda>i. Some (Inr (Suc m + i)))
      | _ \<Rightarrow> Some (Inl (GoPanic ''interface conversion''))) = Some (Inr (m + g nm))"
    if "nm \<in> set (c_Children c)" for nm m
  proof -
    from that obtain d where d: "d \<in> set ?ch" "IsDir Y d" "nm = e_Name d" unfolding l(1) by auto
    then have dc: "data_child Y e d" using getChildren_sound by blast
    note b = below [OF dc] and so = storeOk_child [OF prems(1) dc]
    have "\<not> IsLeaf Y d" "\<not> IsLeafList Y d" using storeOk_kinds(2,3) [OF so] d(2) by blast+
    with b obtain c' where c': "getAt ?get (Key sc) (childPath p nm) = Inr (Container c')" "containerFromYEntry n Y sc d True = Some (Inr c')"
      unfolding d(3) by (auto simp: SchemaElemFromYEntry_def)
    have sz: "size (ent d) < k" using getChildren_size [OF dc] prems(4) by linarith
    have "querySchemaContainer k ?get (Key sc) (childPath p nm) c' = Some (Inr (benchCount Y d))"
      unfolding d(3) by (rule Suc.IH [OF so unique_names_child [OF prems(2) dc] data_child_treeOk [OF dc prems(3)] sz
            b [THEN conjunct2, THEN conjunct1] prems(6) b [THEN conjunct2, THEN conjunct2, THEN conjunct1] prems(8) b [THEN conjunct1] c'(2)])
    with c'(1) show ?thesis using g [OF d(1)] d(3) by (simp add: lift_def)
  qed
  have "sum_list (map g (c_Children c)) = sum_list (map (\<lambda>d. Suc (benchCount Y d)) (filter (IsDir Y) ?ch))"
    unfolding l(1) sum_list_sort using g by (auto intro!: arg_cong [where f = sum_list] map_cong)
  then have "benchCount Y e = length (filter (\<lambda>x. isField Y x \<and> e_Name x \<in> ?ks) ?ch) +
      length (filter (\<lambda>x. isField Y x \<and> e_Name x \<notin> ?ks) ?ch) + sum_list (map g (c_Children c))"
    by (subst benchCount.simps, subst sum_list_split [where R = "\<lambda>x. e_Name x \<in> ?ks"]) (simp add: isField_def)
  then show ?case using keys fields
    by (simp only: querySchemaContainer.simps lift_def obind.simps ofold_count [where h = g, OF step [unfolded lift_def]] add_0)
qed simp

text \<open>C29: \<open>bench\<close> ends and counts the nodes. Against a persistent store that holds the schema, with a
  recursion depth above the size of the addressed subtree, it gets an answer to every query and
  reports the number of leafs, containers and lists below the node, once each, or 1 for a leaf or
  leaf-list itself. The leaf-lists below are not among the queries.\<close>

theorem bench_counts:
  assumes "backend_ok B" "schemaOk Y r" "sc_root sc = Some r"
    and "ps_AddSchema n Y B s sc = Some (Inr (s', sc'))" "ps_cache s = None"
    and "\<forall>p ps. kv_get B (ps_db s) (buildEntryKey (Key sc) p ps) = None"
    and "ParsePath (fl_xpath fl) = Inr p" "flagKey fl = Key sc" "map pe_Name (p_Elem p) = p0 # ps" "p0 \<noteq> []" "plainNames (p0 # ps)"
    and "map_of (e_Dir (Ptr r [])) p0 = None" "GetEntry Y sc (p0 # ps) = Inr e" "storeOk Y e" "size (ent e) < k"
  shows "schemaBenchCmd k fl (\<lambda>q. snd (ps_GetSchema B s' q)) = Some (Inr (if IsDir Y e then benchCount Y e else 1))"
proof -
  have c: "colon \<notin> set p0" using assms(11) by simp
  note h = AddSchema_holds [OF assms(1-6)]
  from holds_get [OF h assms(9-13), of False] obtain se where
    g: "snd (ps_GetSchema B s' \<lparr>gr_Schema = Some (Key sc), gr_Path = Some p, gr_WithDescription = False\<rparr>) = Inr se"
    and se: "SchemaElemFromYEntry n Y sc e True = Some (Inr se)" by auto
  show ?thesis
  proof (cases "IsDir Y e")
    case True
    have "\<not> IsLeaf Y e" "\<not> IsLeafList Y e" using storeOk_kinds(2,3) [OF assms(14)] True by blast+
    with se obtain c' where c': "se = Container c'" "containerFromYEntry n Y sc e True = Some (Inr c')"
      by (auto simp: SchemaElemFromYEntry_def)
    from bench_container [OF h assms(2,3,14) GetEntry_below [OF assms(2,3) c assms(12,13)] assms(15,9-13) c'(2)]
    show ?thesis using assms(7,8) g c'(1) True by (simp add: schemaBenchCmd_def getAt_def lift_def)
  next
    case False
    from stored_leaf [OF se assms(14) False] show ?thesis
      using assms(7,8) g False by (auto simp: schemaBenchCmd_def getAt_def lift_def)
  qed
qed

theorem bench_counts_witness:
  "\<exists>s' sc'. ps_AddSchema 2 kindApi fxBackend fxStore fxSchema = Some (Inr (s', sc')) \<and>
     schemaBenchCmd 100 fxFlags (\<lambda>q. snd (ps_GetSchema fxBackend s' q)) = Some (Inr 5)"
proof -
  let ?e = "Ptr fxHost [fxModule, fxRoot]"
  obtain s' sc' where a: "ps_AddSchema 2 kindApi fxBackend fxStore fxSchema = Some (Inr (s', sc'))"
    using fxStore_add by blast
  have e: "GetEntry kindApi fxSchema (''host'' # []) = Inr ?e" "storeOk kindApi ?e" "size (ent ?e) < 100" "IsDir kindApi ?e"
    "benchCount kindApi ?e = 5" by code_simp+
  have p: "ParsePath (fl_xpath fxFlags) = Inr \<lparr>p_Origin = [], p_Target = [], p_Elem = [\<lparr>pe_Name = ''host'', pe_Key = []\<rparr>]\<rparr>" by code_simp
  have k: "flagKey fxFlags = Key fxSchema" by (simp add: flagKey_def fxFlags_def Key_def fxSchema_def)
  have "schemaBenchCmd 100 fxFlags (\<lambda>q. snd (ps_GetSchema fxBackend s' q)) =
      Some (Inr (if IsDir kindApi ?e then benchCount kindApi ?e else 1))"
    by (rule bench_counts [OF fxBackend_ok fxSchema_ok a _ _ p k _ _ _ _ e(1-3)])
       (simp_all add: fxStore_def fxBackend_def char_defs fx_defs e_Dir_def dirl_def)
  with a e(4,5) show ?thesis by auto
qed

section \<open>A session of the client\<close>

text \<open>Create, get and delete against the in-memory store, as requests of one set of flags.\<close>

lemma client_session:
  assumes "mem_abs ms (flagKey fl) = None" "fl_schemaVendor fl \<noteq> []" "fl_schemaVersion fl \<noteq> []"
    and "NewSchema F L Y \<lparr>cfg_Name = fl_schemaName fl, cfg_Vendor = fl_schemaVendor fl, cfg_Version = fl_schemaVersion fl,
      cfg_Files = fl_schemaFiles fl, cfg_Directories = fl_schemaDirs fl, cfg_Excludes = fl_schemaExcludes fl\<rparr> = Inr sc"
    and "fl_xpath fl = slash # renderPath p" "list_all elemOk (p_Elem p)" "p_Origin p = []" "p_Target p = []"
  shows "\<exists>s1 s2 err err'. runCmd (memIface n F L Y) ms (schemaCreateCmd fl) = (s1, Some (Inr DoneResponse)) \<and>
    runCmd (memIface n F L Y) s1 (schemaCreateCmd fl) = (s1, Some (Inl err)) \<and>
    runCmd (memIface n F L Y) s1 (schemaGetCmd fl) =
      (s1, map_option (map_sum id GetSchemaResponse) (case GetEntry Y sc (map pe_Name (p_Elem p)) of
         Inl err \<Rightarrow> Some (Inl err) | Inr e \<Rightarrow> SchemaElemFromYEntry n Y sc e (fl_withDesc fl))) \<and>
    runCmd (memIface n F L Y) s1 (deleteCmd fl) = (s2, Some (Inr DoneResponse)) \<and>
    runCmd (memIface n F L Y) s2 (schemaGetCmd fl) = (s2, Some (Inl err')) \<and> mem_abs s2 = mem_abs ms"
proof -
  let ?I = "memIface n F L Y" and ?k = "flagKey fl" and ?s1 = "mem_store sc ms"
  let ?s2 = "mem_delete ?k ?s1"
  have key: "Key sc = ?k" using NewSchema_Key [OF assms(4)] by (simp add: flagKey_def)
  have ck: "checkKey ?k = Inr ()" using assms(2,3) by (simp add: checkKey_def flagKey_def)
  have abs: "mem_abs ?s1 ?k = Some sc" "mem_abs ?s2 = mem_abs ms" using key assms(1) by (auto simp: mem_store_abs mem_delete_abs)
  have new: "NewSchema F L Y (reqConfig ?k \<lparr>cr_Schema = Some ?k, cr_File = fl_schemaFiles fl,
     cr_Directory = fl_schemaDirs fl, cr_Exclude = fl_schemaExcludes fl\<rparr>) = Inr sc"
    using assms(4) by (simp add: reqConfig_def flagKey_def)
  have get: "schemaGetCmd fl = Inr (GetSchemaRequest \<lparr>gr_Schema = Some ?k, gr_Path = Some p, gr_WithDescription = fl_withDesc fl\<rparr>)"
    using ParsePath_render [OF assms(6-8)] assms(5) by (simp add: schemaGetCmd_def)
  note defs = runCmd_def memIface_def lift_def mem_abs_def mem_find_def
  have "runCmd ?I ms (schemaCreateCmd fl) = (?s1, Some (Inr DoneResponse))"
    using assms(1) ck new by (simp add: defs schemaCreateCmd_def mem_CreateSchema_def mem_CreateCheck_def)
  moreover have "\<exists>err. runCmd ?I ?s1 (schemaCreateCmd fl) = (?s1, Some (Inl err))"
    using abs(1) by (simp add: defs schemaCreateCmd_def mem_CreateSchema_def mem_CreateCheck_def)
  moreover have "runCmd ?I ?s1 (schemaGetCmd fl) = (?s1, map_option (map_sum id GetSchemaResponse)
      (case GetEntry Y sc (map pe_Name (p_Elem p)) of
         Inl err \<Rightarrow> Some (Inl err) | Inr e \<Rightarrow> SchemaElemFromYEntry n Y sc e (fl_withDesc fl)))"
    unfolding get using abs(1) by (simp add: defs mem_GetSchema_def names_ToStrings split: sum.split)
  moreover have "runCmd ?I ?s1 (deleteCmd fl) = (?s2, Some (Inr DoneResponse))"
    using abs(1) ck by (simp add: defs deleteCmd_def mem_DeleteSchema_def mem_DeleteCheck_def)
  moreover have "\<exists>err. runCmd ?I ?s2 (schemaGetCmd fl) = (?s2, Some (Inl err))"
    unfolding get using abs(2) assms(1) by (simp add: defs mem_GetSchema_def)
  ultimately show ?thesis using abs(2) by blast
qed

section \<open>All elements of a path, with either store\<close>

lemma getEntryCh_length: "length (fst (getEntryCh Y e ps)) \<le> Suc (length ps)"
  by (induction ps arbitrary: e) (auto simp: case_prod_beta split: option.split)



end
