(* ===== verification/Server.thy ===== *)
theory Server
  imports MemStore "HOL-Library.Multiset"
begin

text \<open>
  \<open>pkg/server/server.go\<close>: start-up.

  The server uses the store through \<open>ListSchema\<close>, \<open>HasSchema\<close> and \<open>AddSchema\<close>, so
  these operations are arguments. Start-up runs one goroutine per configured schema: the relation
  \<open>load_step\<close> has every interleaving of them, and what it promises is proved once in the locale
  \<open>total_store\<close> and stated for the in-memory store.
\<close>

section \<open>Start-up\<close>

definition cfgKey :: "schema_config \<Rightarrow> schema_key" where
  "cfgKey c = \<lparr>sk_Name = cfg_Name c, sk_Vendor = cfg_Vendor c, sk_Version = cfg_Version c\<rparr>"

text \<open>The work of one start-up goroutine. A schema that does not parse or cannot be added is logged
  and left out. \<open>NewServer\<close> runs them in the order of the configuration; the relation
  \<open>load_step\<close> below has every interleaving of them.\<close>

definition loadOne :: "('s \<Rightarrow> schema_key \<Rightarrow> bool) \<Rightarrow> ('s \<Rightarrow> schema \<Rightarrow> 's res) \<Rightarrow> (schema_config \<Rightarrow> schema res) \<Rightarrow>
    schema_config \<Rightarrow> 's \<Rightarrow> 's" where
  "loadOne has add new sCfg s =
     (if has s (cfgKey sCfg) then s
      else
        (case new sCfg of
           Inl _ \<Rightarrow> s
         | Inr sc \<Rightarrow> (case add s sc of Inl _ \<Rightarrow> s | Inr s' \<Rightarrow> s')))"

definition NewServer :: "(store_config \<Rightarrow> 's res) \<Rightarrow> 's \<Rightarrow> ('s \<Rightarrow> schema_key list res) \<Rightarrow> ('s \<Rightarrow> schema_key \<Rightarrow> bool) \<Rightarrow> ('s \<Rightarrow> schema \<Rightarrow> 's res) \<Rightarrow>
    (schema_config \<Rightarrow> schema res) \<Rightarrow> (tls_config \<Rightarrow> unit res) \<Rightarrow> config \<Rightarrow> 's res" where
  "NewServer openPersist memNew listSchema has add new tlsNew c =
     (case c_SchemaStore c of
        None \<Rightarrow> Inl nilDeref
      | Some st \<Rightarrow>
          rbind (if sto_Type st = StoreTypePersistent then openPersist st
                 else if sto_Type st = StoreTypeMemory then Inr memNew
                 else Inl (Errorf ''unknown schema store type %q'' [sto_Type st])) (\<lambda>s.
            rbind (listSchema s) (\<lambda>_.
            case c_GRPCServer c of
              None \<Rightarrow> Inl nilDeref
            | Some g \<Rightarrow>
                rbind (case g_TLS g of None \<Rightarrow> Inr () | Some t \<Rightarrow> tlsNew t) (\<lambda>_.
                  Inr (fold (loadOne has add new) (sto_Schemas st) s)))))"

text \<open>The options of the gRPC server. The deadline of the requests is an interceptor that is installed together
  with the metrics.\<close>

datatype server_option = MaxRecvMsgSize int | StreamMetrics | UnaryTimeout int | UnaryMetrics | Creds tls_config

definition serverOptions :: "config \<Rightarrow> grpc_server \<Rightarrow> server_option list" where
  "serverOptions c g =
     [MaxRecvMsgSize (g_MaxRecvMsgSize g)] @
     (case c_Prometheus c of None \<Rightarrow> [] | Some _ \<Rightarrow> [StreamMetrics, UnaryTimeout (g_RPCTimeout g), UnaryMetrics]) @
     (case g_TLS g of None \<Rightarrow> [] | Some t \<Rightarrow> [Creds t])"

lemma rpc_timeout_needs_metrics:
  assumes "validateSetDefaults c = Inr c'" "c_GRPCServer c' = Some g"
  shows "(\<exists>t. UnaryTimeout t \<in> set (serverOptions c' g)) \<longleftrightarrow> c_Prometheus c \<noteq> None" "g_RPCTimeout g > 0"
proof -
  have g: "g = grpcDefaults (case c_GRPCServer c of None \<Rightarrow> zeroGrpc | Some g \<Rightarrow> g)" "c_Prometheus c' = c_Prometheus c"
    using assms by (auto simp: validateSetDefaults_def Let_def split: option.splits)
  then show "(\<exists>t. UnaryTimeout t \<in> set (serverOptions c' g)) \<longleftrightarrow> c_Prometheus c \<noteq> None"
    by (cases "c_Prometheus c"; cases "g_TLS g") (auto simp: serverOptions_def)
  show "g_RPCTimeout g > 0" unfolding g(1) by (auto simp: grpcDefaults_def Let_def defaultRPCTimeout_def)
qed

section \<open>Start-up under every schedule\<close>

text \<open>Start-up runs one goroutine per configured schema. A state is the store, the configurations whose
  goroutine has not checked the store yet, and the parsed schemas that wait to be added.\<close>

inductive load_step :: "('s \<Rightarrow> schema_key \<Rightarrow> bool) \<Rightarrow> ('s \<Rightarrow> schema \<Rightarrow> 's res) \<Rightarrow> (schema_config \<Rightarrow> schema res) \<Rightarrow>
    's \<times> schema_config multiset \<times> schema multiset \<Rightarrow> 's \<times> schema_config multiset \<times> schema multiset \<Rightarrow> bool"
  for has add new where
  exists: "has s (cfgKey c) \<Longrightarrow> load_step has add new (s, add_mset c W, Q) (s, W, Q)"
| failed: "\<not> has s (cfgKey c) \<Longrightarrow> new c = Inl err \<Longrightarrow> load_step has add new (s, add_mset c W, Q) (s, W, Q)"
| parsed: "\<not> has s (cfgKey c) \<Longrightarrow> new c = Inr sc \<Longrightarrow>
    load_step has add new (s, add_mset c W, Q) (s, W, add_mset sc Q)"
| added: "add s sc = Inr s' \<Longrightarrow> load_step has add new (s, W, add_mset sc Q) (s', W, Q)"
| refused: "add s sc = Inl err \<Longrightarrow> load_step has add new (s, W, add_mset sc Q) (s, W, Q)"

text \<open>The keys a state has or is going to have.\<close>

definition loadable :: "(schema_config \<Rightarrow> schema res) \<Rightarrow> schema_config \<Rightarrow> bool" where
  "loadable new c = (case new c of Inl _ \<Rightarrow> False | Inr _ \<Rightarrow> True)"

definition known :: "('s \<Rightarrow> schema_key \<Rightarrow> bool) \<Rightarrow> (schema_config \<Rightarrow> schema res) \<Rightarrow>
    's \<times> schema_config multiset \<times> schema multiset \<Rightarrow> schema_key \<Rightarrow> bool" where
  "known has new x k \<longleftrightarrow> (case x of (s, W, Q) \<Rightarrow>
     has s k \<or> k \<in> cfgKey ` {c. c \<in># W \<and> loadable new c} \<or> k \<in> Key ` set_mset Q)"

definition keyedLoad :: "(schema_config \<Rightarrow> schema res) \<Rightarrow> bool" where
  "keyedLoad new \<longleftrightarrow> (\<forall>c sc. new c = Inr sc \<longrightarrow> Key sc = cfgKey c)"

lemma keyedLoad_NewSchema: "keyedLoad (NewSchema F L Y)"
  by (auto simp: keyedLoad_def cfgKey_def dest: NewSchema_Key)

lemma load_step_size:
  "load_step has add new x y \<Longrightarrow> 2 * size (fst (snd x)) + size (snd (snd x)) > 2 * size (fst (snd y)) + size (snd (snd y))"
  by (induction rule: load_step.induct) auto

lemma load_run_size:
  "(load_step has add new ^^ n) x y \<Longrightarrow>
   n + (2 * size (fst (snd y)) + size (snd (snd y))) \<le> 2 * size (fst (snd x)) + size (snd (snd x))"
proof (induction n arbitrary: y)
  case (Suc n)
  then obtain z where "(load_step has add new ^^ n) x z" "load_step has add new z y" by auto
  with Suc.IH [of z] load_step_size [of has add new z y] show ?case by linarith
qed simp

lemma load_progress:
  assumes "W \<noteq> {#} \<or> Q \<noteq> {#}"
  shows "\<exists>y. load_step has add new (s, W, Q) y"
  using assms
proof
  assume "W \<noteq> {#}"
  then obtain c V where "W = add_mset c V" using multiset_cases by blast
  then show ?thesis by (cases "has s (cfgKey c)"; cases "new c") (blast intro: load_step.intros)+
next
  assume "Q \<noteq> {#}"
  then obtain sc V where "Q = add_mset sc V" using multiset_cases by blast
  then show ?thesis by (cases "add s sc") (blast intro: load_step.intros)+
qed

text \<open>The goroutines one after the other are one of the schedules.\<close>

lemma loadOne_run:
  "(load_step has add new)\<^sup>*\<^sup>* (s, mset (c # cs), {#}) (loadOne has add new c s, mset cs, {#})"
proof -
  consider "has s (cfgKey c)" | err where "\<not> has s (cfgKey c)" "new c = Inl err"
    | sc err where "\<not> has s (cfgKey c)" "new c = Inr sc" "add s sc = Inl err"
    | sc s' where "\<not> has s (cfgKey c)" "new c = Inr sc" "add s sc = Inr s'"
    by (cases "new c"; cases "add s (projr (new c))") auto
  then show ?thesis
  proof cases
    case 3
    then have "load_step has add new (s, mset (c # cs), {#}) (s, mset cs, {#sc#})"
      "load_step has add new (s, mset cs, {#sc#}) (s, mset cs, {#})"
      by (auto intro: load_step.intros)
    with 3 show ?thesis by (auto simp: loadOne_def)
  next
    case 4
    then have "load_step has add new (s, mset (c # cs), {#}) (s, mset cs, {#sc#})"
      "load_step has add new (s, mset cs, {#sc#}) (s', mset cs, {#})"
      by (auto intro: load_step.intros)
    with 4 show ?thesis by (auto simp: loadOne_def)
  qed (auto simp: loadOne_def intro: load_step.intros)
qed

lemma fold_loadOne_run:
  "(load_step has add new)\<^sup>*\<^sup>* (s, mset cs, {#}) (fold (loadOne has add new) cs s, {#}, {#})"
proof (induction cs arbitrary: s)
  case (Cons c cs)
  then show ?case using loadOne_run [of has add new s c cs] by (simp add: rtranclp_trans)
qed simp

context total_store
begin

lemma step_known:
  assumes "load_step has add new x y" "keyedLoad new"
  shows "known has new x k \<longleftrightarrow> known has new y k"
  using assms
proof (cases rule: load_step.cases)
  case (failed s c err W Q)
  then show ?thesis by (auto simp: known_def loadable_def)
next
  case (parsed s c sc W Q)
  then show ?thesis using assms(2) by (auto simp: known_def loadable_def keyedLoad_def)
next
  case (added s sc s' W Q)
  then show ?thesis using has_add [OF added(3)] by (auto simp: known_def)
next
  case (refused s sc err W Q)
  then show ?thesis using add_total [of s sc] by auto
qed (auto simp: known_def)

lemma run_known:
  "(load_step has add new)\<^sup>*\<^sup>* x y \<Longrightarrow> keyedLoad new \<Longrightarrow> known has new x k \<longleftrightarrow> known has new y k"
  by (induction rule: rtranclp_induct) (auto simp: step_known)

lemma run_has:
  assumes "(load_step has add new)\<^sup>*\<^sup>* (s, mset cs, {#}) (s', {#}, {#})" "keyedLoad new"
  shows "has s' k \<longleftrightarrow> has s k \<or> (\<exists>c\<in>set cs. cfgKey c = k \<and> loadable new c)"
  using run_known [OF assms, of k] by (auto simp: known_def)

end


definition fxConfig :: schema_config where
  "fxConfig = \<lparr>cfg_Name = ''lrc'', cfg_Vendor = ''v'', cfg_Version = ''1'', cfg_Files = [''/y''],
     cfg_Directories = [], cfg_Excludes = []\<rparr>"


end
