(* ===== verification/Upload.thy ===== *)
theory Upload
  imports Server
begin

text \<open>
  \<open>pkg/server/rpcs.go\<close>: the streaming handler \<open>UploadSchema\<close>. The other handlers of the file
  pass the request on to the store.

  A stream is the list of its messages: receiving past the end is the error of \<open>stream.Recv\<close>. The
  store is used through \<open>HasSchema\<close> and \<open>AddSchema\<close> only, which are arguments.
\<close>

section \<open>Upload messages\<close>

datatype file_type = MODULE | DEPENDENCY | OtherType

datatype hash_method = Hash_UNSPECIFIED | Hash_MD5 | Hash_SHA256 | Hash_SHA512 | Hash_other

record file_msg =
  uf_FileName :: string
  uf_FileType :: file_type
  uf_Contents :: string
  uf_Hash :: "(hash_method \<times> string) option"

datatype upload_msg = MCreate schema_key "string list" | MFile file_msg | MFinalize | MOther

text \<open>Files are a map from paths to contents. The errors of the operating system are an argument:
  for each call and the files at that time, the error it returns, if any; a call that fails leaves the
  files as they are. \<open>io_hash\<close> is the digest of the standard library.\<close>

type_synonym files = "(string \<times> string) list"

record io_env =
  io_removeErr :: "files \<Rightarrow> string \<Rightarrow> gerr option"
  io_mkdirErr :: "files \<Rightarrow> string \<Rightarrow> gerr option"
  io_createErr :: "files \<Rightarrow> string \<Rightarrow> gerr option"
  io_writeErr :: "files \<Rightarrow> string \<Rightarrow> string \<Rightarrow> gerr option"
  io_readErr :: "files \<Rightarrow> string \<Rightarrow> gerr option"
  io_hash :: "hash_method \<Rightarrow> string \<Rightarrow> string"

text \<open>\<open>os.RemoveAll\<close>: the path and everything below it.\<close>

definition removeTree :: "string \<Rightarrow> files \<Rightarrow> files" where
  "removeTree d fs = filter (\<lambda>(f, _). f \<noteq> d \<and> \<not> hasPrefix f (d @ [slash])) fs"

text \<open>The state of one upload: the configuration collected, the files that are open
  (\<open>handledFiles\<close>) and the file system.\<close>

record upload =
  up_cfg :: schema_config
  up_handled :: "string list"
  up_files :: files

section \<open>UploadSchema\<close>

definition dirname :: "schema_config \<Rightarrow> string" where
  "dirname c = cfg_Name c @ ''_'' @ cfg_Vendor c @ ''_'' @ cfg_Version c"

definition schemaDir :: "string \<Rightarrow> schema_config \<Rightarrow> string" where
  "schemaDir base c = pathJoin [base, dirname c]"

definition uploadPath :: "string \<Rightarrow> schema_config \<Rightarrow> string \<Rightarrow> string" where
  "uploadPath base c name = pathJoin [base, dirname c, name]"

definition cleanSchemaDir :: "io_env \<Rightarrow> string \<Rightarrow> upload \<Rightarrow> upload" where
  "cleanSchemaDir E base u =
     (case io_removeErr E (up_files u) (schemaDir base (up_cfg u)) of
        Some _ \<Rightarrow> u
      | None \<Rightarrow> u\<lparr>up_files := removeTree (schemaDir base (up_cfg u)) (up_files u)\<rparr>)"

definition fileContents :: "upload \<Rightarrow> string \<Rightarrow> string" where
  "fileContents u f = (case map_of (up_files u) f of None \<Rightarrow> [] | Some c \<Rightarrow> c)"

text \<open>\<open>createFileWithDir\<close>: the files after \<open>os.MkdirAll\<close> and \<open>os.Create\<close>, which truncates a file that
  is there. Directories hold no contents and are not in the map.\<close>

definition createFileWithDir :: "io_env \<Rightarrow> files \<Rightarrow> string \<Rightarrow> files res" where
  "createFileWithDir E fs f =
     (case io_mkdirErr E fs (filepathDir f) of
        Some err \<Rightarrow> Inl err
      | None \<Rightarrow> (case io_createErr E fs f of Some err \<Rightarrow> Inl err | None \<Rightarrow> Inr (AList.update f [] fs)))"

text \<open>Opening: a file that is not open yet is created.\<close>

definition openFile :: "io_env \<Rightarrow> string \<Rightarrow> upload \<Rightarrow> upload res" where
  "openFile E f u =
     (if f \<in> set (up_handled u) then Inr u
      else rbind (createFileWithDir E (up_files u) f) (\<lambda>fs. Inr (u\<lparr>up_handled := up_handled u @ [f], up_files := fs\<rparr>)))"

definition writeFile :: "string \<Rightarrow> string \<Rightarrow> upload \<Rightarrow> upload" where
  "writeFile f c u = u\<lparr>up_files := AList.update f (fileContents u f @ c) (up_files u)\<rparr>"

text \<open>The file is complete: it goes into the configuration and is no longer open.\<close>

definition acceptFile :: "string \<Rightarrow> file_type \<Rightarrow> upload \<Rightarrow> upload" where
  "acceptFile f ft u =
     (let c = up_cfg u;
          c' = (case ft of
             MODULE \<Rightarrow> c\<lparr>cfg_Files := cfg_Files c @ [f]\<rparr>
           | DEPENDENCY \<Rightarrow> c\<lparr>cfg_Directories := cfg_Directories c @ [f]\<rparr>
           | OtherType \<Rightarrow> c) in
      u\<lparr>up_cfg := c', up_handled := filter (\<lambda>g. g \<noteq> f) (up_handled u)\<rparr>)"

text \<open>The hash part of a file message. A method outside the enumeration leaves the hash nil.\<close>

definition checkHash :: "io_env \<Rightarrow> string \<Rightarrow> string \<Rightarrow> file_msg \<Rightarrow> hash_method \<times> string \<Rightarrow> upload \<Rightarrow> upload \<times> gerr option" where
  "checkHash E base f m mh u =
     (case fst mh of
        Hash_UNSPECIFIED \<Rightarrow>
          (cleanSchemaDir E base (u\<lparr>up_files := AList.update f [] (up_files u)\<rparr>),
           Some (StatusErr InvalidArgument ''hash method unspecified'' []))
      | _ \<Rightarrow>
          (case io_readErr E (up_files u) f of
             Some err \<Rightarrow> (cleanSchemaDir E base u, Some err)
           | None \<Rightarrow>
               if fst mh = Hash_other then (u, Some nilDeref)
               else if io_hash E (fst mh) (fileContents u f) \<noteq> snd mh
               then (cleanSchemaDir E base u, Some (StatusErr FailedPrecondition ''file %s has wrong hash'' [uf_FileName m]))
               else (acceptFile f (uf_FileType m) u, None)))"

definition uploadFile :: "io_env \<Rightarrow> string \<Rightarrow> file_msg \<Rightarrow> upload \<Rightarrow> upload \<times> gerr option" where
  "uploadFile E base m u =
     (if uf_FileName m = [] then (u, Some (StatusErr InvalidArgument ''missing file name'' []))
      else
        (let f = uploadPath base (up_cfg u) (uf_FileName m) in
         case openFile E f u of
           Inl err \<Rightarrow> (u, Some err)
         | Inr u1 \<Rightarrow>
             (case (if uf_Contents m = [] then None else io_writeErr E (up_files u1) f (uf_Contents m)) of
                Some err \<Rightarrow> (cleanSchemaDir E base u1, Some err)
              | None \<Rightarrow>
                  (let u2 = (if uf_Contents m = [] then u1 else writeFile f (uf_Contents m) u1) in
                   case uf_Hash m of
                     None \<Rightarrow> (u2, None)
                   | Some mh \<Rightarrow> checkHash E base f m mh u2))))"

text \<open>The receive loop, up to the finalize message.\<close>

primrec uploadLoop :: "io_env \<Rightarrow> string \<Rightarrow> upload_msg list \<Rightarrow> upload \<Rightarrow> upload \<times> gerr option" where
  "uploadLoop E base [] u = (u, Some (Errorf ''EOF'' []))"
| "uploadLoop E base (msg # msgs) u =
     (case msg of
        MFile m \<Rightarrow>
          (case uploadFile E base m u of
             (u', Some err) \<Rightarrow> (u', Some err)
           | (u', None) \<Rightarrow> uploadLoop E base msgs u')
      | MFinalize \<Rightarrow>
          if up_handled u \<noteq> []
          then (cleanSchemaDir E base u, Some (StatusErr FailedPrecondition ''not all files are fully uploaded'' []))
          else (u, None)
      | _ \<Rightarrow> (cleanSchemaDir E base u, Some (StatusErr InvalidArgument ''unexpected message type'' [])))"

text \<open>The first message. \<open>base\<close> is \<open>SchemasDirectory\<close>, \<open>None\<close> where the configuration has
  no \<open>schema-server\<close> section.\<close>

definition uploadStart :: "io_env \<Rightarrow> ('s \<Rightarrow> schema_key \<Rightarrow> bool) \<Rightarrow> string option \<Rightarrow> 's \<Rightarrow> files \<Rightarrow> upload_msg list \<Rightarrow>
    (string \<times> upload) res" where
  "uploadStart E has base s fs msgs =
     (case msgs of
        [] \<Rightarrow> Inl (Errorf ''EOF'' [])
      | MCreate k excludes # _ \<Rightarrow>
          rbind (checkKey k) (\<lambda>_.
            if has s k then Inl (StatusErr InvalidArgument ''schema %s@%s@%s already exists'' [sk_Name k, sk_Vendor k, sk_Version k])
            else
              (case base of
                 None \<Rightarrow> Inl nilDeref
               | Some b \<Rightarrow>
                   (let c = \<lparr>cfg_Name = sk_Name k, cfg_Vendor = sk_Vendor k, cfg_Version = sk_Version k,
                             cfg_Files = [], cfg_Directories = [], cfg_Excludes = excludes\<rparr> in
                    case io_removeErr E fs (schemaDir b c) of
                      Some err \<Rightarrow> Inl (Wrap ''Internal: failed to clean directory %s: %v'' [dirname c] err)
                    | None \<Rightarrow> Inr (b, \<lparr>up_cfg = c, up_handled = [], up_files = removeTree (schemaDir b c) fs\<rparr>))))
      | _ \<Rightarrow> Inl (StatusErr InvalidArgument ''unexpected msg type: expecting UploadSchemaRequest_CreateSchema'' []))"

text \<open>After the loop: the files are parsed and the schema is added. \<open>new fs\<close> is \<open>NewSchema\<close> on the
  file system \<open>fs\<close>. Only a failure of the parser cleans up.\<close>

definition uploadFinish :: "io_env \<Rightarrow> ('s \<Rightarrow> schema \<Rightarrow> 's res) \<Rightarrow> (files \<Rightarrow> schema_config \<Rightarrow> schema res) \<Rightarrow> string \<Rightarrow> 's \<Rightarrow>
    upload \<Rightarrow> ('s \<times> files) \<times> gerr option" where
  "uploadFinish E add new b s u =
     (case new (up_files u) (up_cfg u) of
        Inl err \<Rightarrow> ((s, up_files (cleanSchemaDir E b u)), Some err)
      | Inr sc \<Rightarrow>
          (case add s sc of
             Inl err \<Rightarrow> ((s, up_files u), Some err)
           | Inr s' \<Rightarrow> ((s', up_files u), None)))"

text \<open>The handler, with the store and the files it leaves.\<close>

definition UploadSchema :: "io_env \<Rightarrow> ('s \<Rightarrow> schema_key \<Rightarrow> bool) \<Rightarrow> ('s \<Rightarrow> schema \<Rightarrow> 's res) \<Rightarrow> (files \<Rightarrow> schema_config \<Rightarrow> schema res) \<Rightarrow>
    string option \<Rightarrow> 's \<Rightarrow> files \<Rightarrow> upload_msg list \<Rightarrow> ('s \<times> files) \<times> gerr option" where
  "UploadSchema E has add new base s fs msgs =
     (case uploadStart E has base s fs msgs of
        Inl err \<Rightarrow> ((s, fs), Some err)
      | Inr (b, u0) \<Rightarrow>
          (case uploadLoop E b (tl msgs) u0 of
             (u, Some err) \<Rightarrow> ((s, up_files u), Some err)
           | (u, None) \<Rightarrow> uploadFinish E add new b s u))"

section \<open>What an accepted stream leaves behind\<close>

text \<open>The reference: each file on its own. A file is open while its hash is missing; the first chunk
  of a file that is not open replaces what was there, the next ones are appended.\<close>

definition assemble1 :: "file_msg \<Rightarrow> (bool \<times> string) option \<Rightarrow> (bool \<times> string) option" where
  "assemble1 m st = Some (uf_Hash m = None, (case st of Some (True, c) \<Rightarrow> c | _ \<Rightarrow> []) @ uf_Contents m)"

definition assemble :: "(file_msg \<Rightarrow> bool) \<Rightarrow> file_msg list \<Rightarrow> (bool \<times> string) option \<Rightarrow> (bool \<times> string) option" where
  "assemble P ms st = fold (\<lambda>m st. if P m then assemble1 m st else st) ms st"

definition addToConfig :: "string \<Rightarrow> file_msg \<Rightarrow> schema_config \<Rightarrow> schema_config" where
  "addToConfig base m c =
     (if uf_Hash m = None then c
      else (case uf_FileType m of
          MODULE \<Rightarrow> c\<lparr>cfg_Files := cfg_Files c @ [uploadPath base c (uf_FileName m)]\<rparr>
        | DEPENDENCY \<Rightarrow> c\<lparr>cfg_Directories := cfg_Directories c @ [uploadPath base c (uf_FileName m)]\<rparr>
        | OtherType \<Rightarrow> c))"

definition fileState :: "upload \<Rightarrow> string \<Rightarrow> (bool \<times> string) option" where
  "fileState u f = map_option (Pair (f \<in> set (up_handled u))) (map_of (up_files u) f)"

definition openOk :: "upload \<Rightarrow> bool" where
  "openOk u \<longleftrightarrow> set (up_handled u) \<subseteq> dom (map_of (up_files u))"

definition hashOk :: "io_env \<Rightarrow> file_msg \<Rightarrow> string \<Rightarrow> bool" where
  "hashOk E m c = (case uf_Hash m of None \<Rightarrow> False | Some mh \<Rightarrow> io_hash E (fst mh) c = snd mh)"

lemma path_addToConfig [simp]: "uploadPath base (addToConfig base' m c) = uploadPath base c"
  by (auto simp: addToConfig_def uploadPath_def dirname_def fun_eq_iff split: file_type.splits)

lemma path_fold_addToConfig [simp]: "uploadPath base (fold (addToConfig base') ms c) = uploadPath base c"
  by (induction ms arbitrary: c) simp_all

lemma cfgKey_addToConfig [simp]:
  "cfgKey (addToConfig base m c) = cfgKey c" "cfg_Excludes (addToConfig base m c) = cfg_Excludes c"
  by (auto simp: addToConfig_def cfgKey_def split: file_type.splits)

lemma fileState_open: "openOk u \<Longrightarrow> openFile E f u = Inr u1 \<Longrightarrow>
    openOk u1 \<and> f \<in> set (up_handled u1) \<and> up_cfg u1 = up_cfg u \<and>
    (\<forall>g. fileState u1 g = (if g = f then Some (True, case fileState u f of Some (True, c) \<Rightarrow> c | _ \<Rightarrow> []) else fileState u g))"
  by (auto simp: openFile_def createFileWithDir_def fileState_def openOk_def update_conv' split: if_splits option.splits)

lemma fileState_write:
  "openOk u \<Longrightarrow> fileState u f = Some (True, c) \<Longrightarrow>
   openOk (writeFile f d u) \<and> up_cfg (writeFile f d u) = up_cfg u \<and>
   (\<forall>g. fileState (writeFile f d u) g = (if g = f then Some (True, c @ d) else fileState u g))"
  by (auto simp: writeFile_def fileState_def openOk_def update_conv' fileContents_def)

lemma fileState_accept:
  "openOk u \<Longrightarrow> fileState u f = Some (True, c) \<Longrightarrow>
   openOk (acceptFile f ft u) \<and>
   (\<forall>g. fileState (acceptFile f ft u) g = (if g = f then Some (False, c) else fileState u g))"
  by (auto simp: acceptFile_def fileState_def openOk_def Let_def)

lemma checkHash_ok:
  assumes "checkHash E base f m mh u = (u', None)" "fileState u f = Some (True, c)"
  shows "u' = acceptFile f (uf_FileType m) u \<and> io_hash E (fst mh) c = snd mh"
proof -
  have "fileContents u f = c" using assms(2) by (auto simp: fileState_def fileContents_def)
  with assms(1) show ?thesis
    by (auto simp: checkHash_def split: hash_method.splits option.splits if_splits)
qed

text \<open>One file message, and the loop.\<close>

lemma uploadFile_ok:
  assumes "uploadFile E base m u = (u', None)" "openOk u"
  defines "f \<equiv> uploadPath base (up_cfg u) (uf_FileName m)"
  shows "openOk u' \<and> up_cfg u' = addToConfig base m (up_cfg u) \<and>
    (\<forall>g. fileState u' g = (if g = f then assemble1 m (fileState u f) else fileState u g)) \<and>
    (uf_Hash m = None \<or> (\<exists>c. fileState u' f = Some (False, c) \<and> hashOk E m c))"
proof -
  obtain u1 where u1: "openFile E f u = Inr u1"
    using assms(1) by (auto simp: uploadFile_def f_def Let_def split: if_splits sum.splits)
  note o = fileState_open [OF assms(2) u1]
  define c where "c = (case fileState u f of Some (True, c) \<Rightarrow> c | _ \<Rightarrow> []) @ uf_Contents m"
  define u2 where "u2 = (if uf_Contents m = [] then u1 else writeFile f (uf_Contents m) u1)"
  have u2: "openOk u2" "up_cfg u2 = up_cfg u" "fileState u2 f = Some (True, c)"
    "g \<noteq> f \<Longrightarrow> fileState u2 g = fileState u g" for g
    using o fileState_write [of u1 f _ "uf_Contents m"] by (auto simp: u2_def c_def)
  have r: "case uf_Hash m of None \<Rightarrow> u' = u2 | Some mh \<Rightarrow> checkHash E base f m mh u2 = (u', None)"
    using assms(1) u1
    by (auto simp: uploadFile_def f_def [symmetric] u2_def Let_def split: if_splits option.splits)
  show ?thesis
  proof (cases "uf_Hash m")
    case None
    with r u2 show ?thesis by (auto simp: assemble1_def addToConfig_def c_def)
  next
    case (Some mh)
    then have h: "u' = acceptFile f (uf_FileType m) u2" "io_hash E (fst mh) c = snd mh"
      using r checkHash_ok [OF _ u2(3)] by auto
    with fileState_accept [OF u2(1,3)] u2 Some show ?thesis
      by (auto simp: assemble1_def c_def hashOk_def addToConfig_def acceptFile_def f_def Let_def split: file_type.splits)
  qed
qed

definition verified :: "io_env \<Rightarrow> string \<Rightarrow> file_msg set \<Rightarrow> upload \<Rightarrow> bool" where
  "verified E base M u \<longleftrightarrow> (\<forall>f\<in>set (cfg_Files (up_cfg u)) \<union> set (cfg_Directories (up_cfg u)).
     \<exists>b c. fileState u f = Some (b, c) \<and>
       (b \<or> (\<exists>m\<in>M. uploadPath base (up_cfg u) (uf_FileName m) = f \<and> hashOk E m c)))"

lemma verified_step:
  assumes "uploadFile E base m u = (u', None)" "openOk u" "verified E base M u"
  shows "verified E base (insert m M) u'"
proof -
  define f where "f = uploadPath base (up_cfg u) (uf_FileName m)"
  note k = uploadFile_ok [OF assms(1,2), folded f_def]
  have p: "uploadPath base (up_cfg u') = uploadPath base (up_cfg u)" using k by simp
  have "\<exists>b c. fileState u' g = Some (b, c) \<and>
       (b \<or> (\<exists>m\<in>insert m M. uploadPath base (up_cfg u') (uf_FileName m) = g \<and> hashOk E m c))"
    if g: "g \<in> set (cfg_Files (up_cfg u')) \<union> set (cfg_Directories (up_cfg u'))" for g
  proof (cases "g = f")
    case True
    with k p f_def show ?thesis by (cases "uf_Hash m") (auto simp: assemble1_def)
  next
    case False
    then have "g \<in> set (cfg_Files (up_cfg u)) \<union> set (cfg_Directories (up_cfg u))"
      using g k by (auto simp: addToConfig_def f_def split: if_splits file_type.splits)
    then show ?thesis using assms(3) k p False by (fastforce simp: verified_def)
  qed
  then show ?thesis by (simp add: verified_def)
qed

lemma uploadLoop_ok:
  assumes "uploadLoop E base msgs u = (u', None)" "openOk u" "verified E base M u"
  shows "\<exists>ms rest. msgs = map MFile ms @ MFinalize # rest \<and> up_handled u' = [] \<and>
    up_cfg u' = fold (addToConfig base) ms (up_cfg u) \<and>
    (\<forall>f. fileState u' f = assemble (\<lambda>m. uploadPath base (up_cfg u) (uf_FileName m) = f) ms (fileState u f)) \<and>
    verified E base (M \<union> set ms) u'"
  using assms
proof (induction msgs arbitrary: u M)
  case (Cons msg msgs)
  show ?case
  proof (cases msg)
    case (MFile m)
    with Cons.prems(1) obtain u1 where u1: "uploadFile E base m u = (u1, None)" "uploadLoop E base msgs u1 = (u', None)"
      by (auto split: prod.splits option.splits)
    note k = uploadFile_ok [OF u1(1) Cons.prems(2)]
    note v = verified_step [OF u1(1) Cons.prems(2,3)]
    from Cons.IH [OF u1(2) conjunct1 [OF k] v] obtain ms rest where
      "msgs = map MFile ms @ MFinalize # rest" "up_handled u' = []"
      "up_cfg u' = fold (addToConfig base) ms (up_cfg u1)"
      "\<forall>f. fileState u' f = assemble (\<lambda>m. uploadPath base (up_cfg u1) (uf_FileName m) = f) ms (fileState u1 f)"
      "verified E base (insert m M \<union> set ms) u'" by blast
    with MFile k show ?thesis by (intro exI [of _ "m # ms"] exI [of _ rest]) (auto simp: assemble_def)
  next
    case MFinalize
    with Cons.prems show ?thesis by (intro exI [of _ "[]"] exI [of _ msgs]) (auto simp: assemble_def split: if_splits)
  qed (use Cons.prems in auto)
qed simp

definition acceptedPaths :: "string \<Rightarrow> schema_config \<Rightarrow> file_type \<Rightarrow> file_msg list \<Rightarrow> string list" where
  "acceptedPaths base c ft ms =
     map (\<lambda>m. uploadPath base c (uf_FileName m)) (filter (\<lambda>m. uf_Hash m \<noteq> None \<and> uf_FileType m = ft) ms)"

lemma acceptedPaths_addToConfig [simp]: "acceptedPaths base (addToConfig base' m c) = acceptedPaths base c"
  by (simp add: acceptedPaths_def fun_eq_iff)

lemma config_addToConfig:
  "cfg_Files (addToConfig base m c) = cfg_Files c @ acceptedPaths base c MODULE [m]"
  "cfg_Directories (addToConfig base m c) = cfg_Directories c @ acceptedPaths base c DEPENDENCY [m]"
  by (auto simp: addToConfig_def acceptedPaths_def split: file_type.splits)

lemma acceptedPaths_Cons: "acceptedPaths base c ft (m # ms) = acceptedPaths base c ft [m] @ acceptedPaths base c ft ms"
  by (simp add: acceptedPaths_def)

lemma fold_addToConfig:
  "cfgKey (fold (addToConfig base) ms c) = cfgKey c \<and> cfg_Excludes (fold (addToConfig base) ms c) = cfg_Excludes c \<and>
   cfg_Files (fold (addToConfig base) ms c) = cfg_Files c @ acceptedPaths base c MODULE ms \<and>
   cfg_Directories (fold (addToConfig base) ms c) = cfg_Directories c @ acceptedPaths base c DEPENDENCY ms"
proof (induction ms arbitrary: c)
  case (Cons m ms)
  show ?case using Cons [of "addToConfig base m c"]
    by (simp add: config_addToConfig acceptedPaths_Cons [of _ _ _ m ms])
qed (simp add: acceptedPaths_def)

lemma key_eta [simp]: "\<lparr>sk_Name = sk_Name k, sk_Vendor = sk_Vendor k, sk_Version = sk_Version k\<rparr> = k"
  by (cases k) simp

lemma uploadStart_ok:
  "uploadStart E has base s fs msgs = Inr (b, u) \<Longrightarrow>
   \<exists>k ex rest. msgs = MCreate k ex # rest \<and> base = Some b \<and> sk_Vendor k \<noteq> [] \<and> sk_Version k \<noteq> [] \<and> \<not> has s k \<and>
     cfgKey (up_cfg u) = k \<and> cfg_Excludes (up_cfg u) = ex \<and> cfg_Files (up_cfg u) = [] \<and> cfg_Directories (up_cfg u) = [] \<and>
     up_handled u = [] \<and> up_files u = removeTree (schemaDir b (up_cfg u)) fs"
  by (auto simp: uploadStart_def checkKey_ok Let_def cfgKey_def
      split: list.splits upload_msg.splits if_splits option.splits)

text \<open>\<open>uploadedAs E b k ex fs ms fs' c\<close>: on files \<open>fs\<close>, the file messages \<open>ms\<close> for the schema
  \<open>k\<close> leave the files \<open>fs'\<close> and the configuration \<open>c\<close>.\<close>

definition uploadedAs :: "io_env \<Rightarrow> string \<Rightarrow> schema_key \<Rightarrow> string list \<Rightarrow> files \<Rightarrow> file_msg list \<Rightarrow> files \<Rightarrow> schema_config \<Rightarrow> bool" where
  "uploadedAs E b k ex fs ms fs' c \<longleftrightarrow>
     cfgKey c = k \<and> cfg_Excludes c = ex \<and>
     cfg_Files c = acceptedPaths b c MODULE ms \<and> cfg_Directories c = acceptedPaths b c DEPENDENCY ms \<and>
     (\<forall>f. map_option (Pair False) (map_of fs' f) =
       assemble (\<lambda>m. uploadPath b c (uf_FileName m) = f) ms
         (map_option (Pair False) (map_of (removeTree (schemaDir b c) fs) f))) \<and>
     (\<forall>f\<in>set (cfg_Files c) \<union> set (cfg_Directories c).
       \<exists>m\<in>set ms. uploadPath b c (uf_FileName m) = f \<and> (\<exists>d. map_of fs' f = Some d \<and> hashOk E m d))"

lemma loop_uploadedAs:
  assumes u: "uploadStart E has base s fs msgs = Inr (b, u)" and l: "uploadLoop E b (tl msgs) u = (u', None)"
  shows "\<exists>k ex ms rest. base = Some b \<and> msgs = MCreate k ex # map MFile ms @ MFinalize # rest \<and>
    sk_Vendor k \<noteq> [] \<and> sk_Version k \<noteq> [] \<and> \<not> has s k \<and> uploadedAs E b k ex fs ms (up_files u') (up_cfg u')"
proof -
  from uploadStart_ok [OF u] obtain k ex r where k: "msgs = MCreate k ex # r" "base = Some b"
    "sk_Vendor k \<noteq> []" "sk_Version k \<noteq> []" "\<not> has s k" "cfgKey (up_cfg u) = k" "cfg_Excludes (up_cfg u) = ex"
    "cfg_Files (up_cfg u) = []" "cfg_Directories (up_cfg u) = []" "up_handled u = []"
    "up_files u = removeTree (schemaDir b (up_cfg u)) fs" by blast
  have "openOk u" "verified E b {} u" using k by (simp_all add: openOk_def verified_def)
  from uploadLoop_ok [OF l this] obtain ms rest where ms: "tl msgs = map MFile ms @ MFinalize # rest" "up_handled u' = []"
    "up_cfg u' = fold (addToConfig b) ms (up_cfg u)"
    "\<And>f. fileState u' f = assemble (\<lambda>m. uploadPath b (up_cfg u) (uf_FileName m) = f) ms (fileState u f)"
    "verified E b (set ms) u'" by auto
  have p: "uploadPath b (up_cfg u') = uploadPath b (up_cfg u)" "schemaDir b (up_cfg u') = schemaDir b (up_cfg u)"
    using ms(3) fold_addToConfig [of b ms "up_cfg u"] by (simp_all add: schemaDir_def dirname_def cfgKey_def)
  have "map_option (Pair False) (map_of (up_files u') f) =
      assemble (\<lambda>m. uploadPath b (up_cfg u') (uf_FileName m) = f) ms
      (map_option (Pair False) (map_of (removeTree (schemaDir b (up_cfg u')) fs) f))" for f
    using ms(4) [of f] ms(2) k p by (simp add: fileState_def)
  moreover have "\<forall>f\<in>set (cfg_Files (up_cfg u')) \<union> set (cfg_Directories (up_cfg u')).
      \<exists>m\<in>set ms. uploadPath b (up_cfg u') (uf_FileName m) = f \<and> (\<exists>d. map_of (up_files u') f = Some d \<and> hashOk E m d)"
    using ms(2,5) by (fastforce simp: verified_def fileState_def)
  ultimately have "uploadedAs E b k ex fs ms (up_files u') (up_cfg u')"
    using ms(3) k fold_addToConfig [of b ms "up_cfg u"] p
    by (simp add: uploadedAs_def acceptedPaths_def)
  with k ms(1) show ?thesis by auto
qed

lemma upload_facts:
  assumes "UploadSchema E has add new base s fs msgs = ((s', fs'), None)"
  shows "\<exists>b k ex ms rest c sc. base = Some b \<and> msgs = MCreate k ex # map MFile ms @ MFinalize # rest \<and>
    sk_Vendor k \<noteq> [] \<and> sk_Version k \<noteq> [] \<and> \<not> has s k \<and>
    uploadedAs E b k ex fs ms fs' c \<and> new fs' c = Inr sc \<and> add s sc = Inr s'"
proof -
  obtain b u where u: "uploadStart E has base s fs msgs = Inr (b, u)"
    using assms by (auto simp: UploadSchema_def uploadFinish_def split: sum.splits)
  then obtain u' where l: "uploadLoop E b (tl msgs) u = (u', None)"
    using assms by (auto simp: UploadSchema_def uploadFinish_def split: prod.splits option.splits)
  with u assms obtain sc where "new (up_files u') (up_cfg u') = Inr sc" "add s sc = Inr s'" "fs' = up_files u'"
    by (auto simp: UploadSchema_def uploadFinish_def split: sum.splits)
  with loop_uploadedAs [OF u l] show ?thesis by blast
qed

section \<open>Which streams are accepted\<close>

definition io_ok :: "io_env \<Rightarrow> bool" where
  "io_ok E \<longleftrightarrow> (\<forall>fs f d. io_removeErr E fs f = None \<and> io_mkdirErr E fs f = None \<and> io_createErr E fs f = None \<and> io_writeErr E fs f d = None \<and>
     io_readErr E fs f = None)"

definition supported :: "hash_method \<Rightarrow> bool" where
  "supported h \<longleftrightarrow> h = Hash_MD5 \<or> h = Hash_SHA256 \<or> h = Hash_SHA512"

primrec streamOk :: "io_env \<Rightarrow> (string \<Rightarrow> string) \<Rightarrow> file_msg list \<Rightarrow> (string \<Rightarrow> (bool \<times> string) option) \<Rightarrow> bool" where
  "streamOk E path [] st = (\<forall>f c. st f \<noteq> Some (True, c))"
| "streamOk E path (m # ms) st =
     (let f = path (uf_FileName m); s' = assemble1 m (st f) in
      uf_FileName m \<noteq> [] \<and>
      (case uf_Hash m of None \<Rightarrow> True | Some mh \<Rightarrow> supported (fst mh) \<and> hashOk E m (snd (the s'))) \<and>
      streamOk E path ms (st(f := s')))"

lemma uploadFile_iff:
  fixes base :: string and m :: file_msg
  assumes "io_ok E" "openOk u"
  defines "f \<equiv> uploadPath base (up_cfg u) (uf_FileName m)"
  shows "(\<exists>u'. uploadFile E base m u = (u', None)) \<longleftrightarrow>
    uf_FileName m \<noteq> [] \<and>
    (case uf_Hash m of None \<Rightarrow> True | Some mh \<Rightarrow> supported (fst mh) \<and> hashOk E m (snd (the (assemble1 m (fileState u f)))))"
proof -
  obtain u1 where u1: "openFile E f u = Inr u1"
    using assms(1) by (cases "openFile E f u") (auto simp: openFile_def createFileWithDir_def io_ok_def split: if_splits)
  note o = fileState_open [OF assms(2) u1]
  define c where "c = snd (the (assemble1 m (fileState u f)))"
  define u2 where "u2 = (if uf_Contents m = [] then u1 else writeFile f (uf_Contents m) u1)"
  have "fileState u2 f = Some (True, c)"
    using o fileState_write [of u1 f _ "uf_Contents m"] by (auto simp: u2_def c_def assemble1_def)
  then have fc: "fileContents u2 f = c" by (auto simp: fileState_def fileContents_def)
  have r: "uploadFile E base m u =
     (if uf_FileName m = [] then (u, Some (StatusErr InvalidArgument ''missing file name'' []))
      else case uf_Hash m of None \<Rightarrow> (u2, None) | Some mh \<Rightarrow> checkHash E base f m mh u2)"
    using u1 assms(1) by (cases "uf_Hash m") (simp_all add: uploadFile_def f_def [symmetric] u2_def Let_def io_ok_def)
  have "(\<exists>u'. checkHash E base f m mh u2 = (u', None)) \<longleftrightarrow> supported (fst mh) \<and> io_hash E (fst mh) c = snd mh" for mh
    using assms(1) fc by (cases "fst mh") (auto simp: checkHash_def supported_def io_ok_def)
  then show ?thesis unfolding r c_def [symmetric] by (auto simp: hashOk_def split: option.splits)
qed

lemma openOk_none_open: "openOk u \<Longrightarrow> (\<forall>f c. fileState u f \<noteq> Some (True, c)) \<longleftrightarrow> up_handled u = []"
  by (cases "up_handled u") (fastforce simp: openOk_def fileState_def)+

lemma uploadLoop_iff:
  assumes "io_ok E" "openOk u"
  shows "(\<exists>u'. uploadLoop E base (map MFile ms @ MFinalize # rest) u = (u', None)) \<longleftrightarrow>
    streamOk E (uploadPath base (up_cfg u)) ms (fileState u)"
  using assms(2)
proof (induction ms arbitrary: u)
  case Nil
  then show ?case by (simp add: openOk_none_open)
next
  case (Cons m ms)
  let ?f = "uploadPath base (up_cfg u) (uf_FileName m)"
  show ?case
  proof (cases "\<exists>u'. uploadFile E base m u = (u', None)")
    case True
    then obtain u' where u': "uploadFile E base m u = (u', None)" by blast
    note k = uploadFile_ok [OF u' Cons.prems]
    then have "fileState u' = (fileState u)(?f := assemble1 m (fileState u ?f))" by auto
    with Cons.IH [of u'] k u' True show ?thesis
      unfolding uploadFile_iff [OF assms(1) Cons.prems] by (cases "uf_Hash m") (simp_all add: Let_def fun_upd_def)
  next
    case False
    then have "\<exists>u' err. uploadFile E base m u = (u', Some err)" by (metis not_Some_eq surj_pair)
    with False show ?thesis
      unfolding uploadFile_iff [OF assms(1) Cons.prems] by (auto simp: Let_def)
  qed
qed

text \<open>A stream in which every digest is right is accepted, up to the parser and the store.\<close>

definition startConfig :: "schema_key \<Rightarrow> string list \<Rightarrow> schema_config" where
  "startConfig k ex = \<lparr>cfg_Name = sk_Name k, cfg_Vendor = sk_Vendor k, cfg_Version = sk_Version k,
     cfg_Files = [], cfg_Directories = [], cfg_Excludes = ex\<rparr>"

lemma uploadPath_key: "cfgKey c = cfgKey c' \<Longrightarrow> uploadPath b c = uploadPath b c'"
  by (simp add: uploadPath_def dirname_def cfgKey_def fun_eq_iff)

lemma stream_unique: "map MFile ms @ [MFinalize] = map MFile ms' @ MFinalize # rest \<Longrightarrow> ms' = ms"
proof (induction ms arbitrary: ms')
  case Nil
  then show ?case by (cases ms') auto
next
  case (Cons m ms)
  then show ?case by (cases ms') auto
qed

lemma upload_start:
  fixes b :: string and ex :: "string list" and fs :: files
  assumes "io_ok E" "sk_Vendor k \<noteq> []" "sk_Version k \<noteq> []" "\<not> has s k"
  defines "u \<equiv> \<lparr>up_cfg = startConfig k ex, up_handled = [], up_files = removeTree (schemaDir b (startConfig k ex)) fs\<rparr>"
  shows "uploadStart E has (Some b) s fs (MCreate k ex # msgs) = Inr (b, u) \<and> openOk u \<and>
    fileState u = (\<lambda>f. map_option (Pair False) (map_of (removeTree (schemaDir b (startConfig k ex)) fs) f))"
  using assms(1-4)
  by (simp add: uploadStart_def checkKey_def io_ok_def u_def startConfig_def Let_def openOk_def fileState_def fun_eq_iff)

lemma upload_complete:
  assumes "io_ok E" "sk_Vendor k \<noteq> []" "sk_Version k \<noteq> []" "\<not> has s k"
    "streamOk E (uploadPath b (startConfig k ex)) ms
       (\<lambda>f. map_option (Pair False) (map_of (removeTree (schemaDir b (startConfig k ex)) fs) f))"
  shows "\<exists>fs' c. uploadedAs E b k ex fs ms fs' c \<and>
    UploadSchema E has add new (Some b) s fs (MCreate k ex # map MFile ms @ [MFinalize]) =
      (case new fs' c of
         Inl err \<Rightarrow> ((s, removeTree (schemaDir b c) fs'), Some err)
       | Inr sc \<Rightarrow> (case add s sc of Inl err \<Rightarrow> ((s, fs'), Some err) | Inr s' \<Rightarrow> ((s', fs'), None)))"
proof -
  let ?msgs = "MCreate k ex # map MFile ms @ [MFinalize]"
  define u where "u = \<lparr>up_cfg = startConfig k ex, up_handled = [], up_files = removeTree (schemaDir b (startConfig k ex)) fs\<rparr>"
  have u: "uploadStart E has (Some b) s fs ?msgs = Inr (b, u)" "openOk u"
    "fileState u = (\<lambda>f. map_option (Pair False) (map_of (removeTree (schemaDir b (startConfig k ex)) fs) f))"
    using upload_start [OF assms(1-3), where has = has and s = s, OF assms(4)] by (simp_all add: u_def)
  then obtain u' where l: "uploadLoop E b (tl ?msgs) u = (u', None)"
    using uploadLoop_iff [OF assms(1) u(2), of b ms "[]"] assms(5) by (auto simp: u_def)
  have "uploadedAs E b k ex fs ms (up_files u') (up_cfg u')"
    using loop_uploadedAs [OF u(1) l] by (auto dest: stream_unique)
  with u(1) l assms(1) show ?thesis
    by (intro exI [of _ "up_files u'"] exI [of _ "up_cfg u'"])
      (simp add: UploadSchema_def uploadFinish_def cleanSchemaDir_def io_ok_def split: sum.splits)
qed

lemma upload_rejected:
  assumes "io_ok E" "sk_Vendor k \<noteq> []" "sk_Version k \<noteq> []" "\<not> has s k"
    "\<not> streamOk E (uploadPath b (startConfig k ex)) ms
       (\<lambda>f. map_option (Pair False) (map_of (removeTree (schemaDir b (startConfig k ex)) fs) f))"
  shows "\<exists>fs' err. UploadSchema E has add new (Some b) s fs (MCreate k ex # map MFile ms @ [MFinalize]) = ((s, fs'), Some err)"
proof -
  let ?msgs = "MCreate k ex # map MFile ms @ [MFinalize]"
  define u where "u = \<lparr>up_cfg = startConfig k ex, up_handled = [], up_files = removeTree (schemaDir b (startConfig k ex)) fs\<rparr>"
  have u: "uploadStart E has (Some b) s fs ?msgs = Inr (b, u)" "openOk u"
    "fileState u = (\<lambda>f. map_option (Pair False) (map_of (removeTree (schemaDir b (startConfig k ex)) fs) f))"
    using upload_start [OF assms(1-3), where has = has and s = s, OF assms(4)] by (simp_all add: u_def)
  have "\<nexists>u'. uploadLoop E b (tl ?msgs) u = (u', None)"
    using uploadLoop_iff [OF assms(1) u(2), of b ms "[]"] u(3) assms(5) by (simp add: u_def)
  then obtain u' err where "uploadLoop E b (tl ?msgs) u = (u', Some err)" by (metis not_Some_eq surj_pair)
  with u(1) show ?thesis by (simp add: UploadSchema_def uploadFinish_def)
qed

section \<open>Properties\<close>

text \<open>C4: an accepted upload is complete and verified. If \<open>UploadSchema\<close> reports success, the
  stream is a create message for a schema the store does not have, file messages and a finalize
  message; every file on disk is what its messages assemble to, chunk by chunk and independently of
  how the messages of other files are mixed in, and files the stream does not name are as they were;
  the configuration lists exactly the files whose hash was sent, in order, and the contents of each
  match a digest sent for it; and the schema parsed from these files is the one added.\<close>

theorem upload_integrity:
  assumes "UploadSchema E has add new base s fs msgs = ((s', fs'), None)"
  shows "\<exists>b k ex ms rest c sc. base = Some b \<and> msgs = MCreate k ex # map MFile ms @ MFinalize # rest \<and>
    sk_Vendor k \<noteq> [] \<and> sk_Version k \<noteq> [] \<and> \<not> has s k \<and>
    uploadedAs E b k ex fs ms fs' c \<and> new fs' c = Inr sc \<and> add s sc = Inr s'"
  by (rule upload_facts [OF assms])

text \<open>C21: an upload adds one schema or nothing. A failed upload leaves the in-memory store as it was;
  a successful one makes exactly the announced key known, which was not known before.\<close>

theorem upload_adds_one:
  assumes "UploadSchema E mem_HasSchema mem_AddSchema (\<lambda>fs. NewSchema (F fs) (L fs) Y) base s fs msgs = ((s', fs'), r)"
  shows "case r of
      Some err \<Rightarrow> s' = s
    | None \<Rightarrow> \<exists>k ex rest. msgs = MCreate k ex # rest \<and> \<not> mem_HasSchema s k \<and>
        (\<forall>k'. mem_HasSchema s' k' \<longleftrightarrow> k' = k \<or> mem_HasSchema s k')"
proof (cases r)
  case None
  from upload_facts [OF assms [unfolded None]] obtain b k ex ms rest c sc where
    u: "msgs = MCreate k ex # map MFile ms @ MFinalize # rest" "\<not> mem_HasSchema s k" "uploadedAs E b k ex fs ms fs' c"
      "NewSchema (F fs') (L fs') Y c = Inr sc" "mem_AddSchema s sc = Inr s'" by blast
  have "Key sc = k" using NewSchema_Key [OF u(4)] u(3) by (simp add: uploadedAs_def cfgKey_def)
  with mem.has_add [OF u(5)] u(1,2) None show ?thesis by auto
next
  case (Some err)
  with assms show ?thesis
    by (auto simp: UploadSchema_def uploadFinish_def split: sum.splits prod.splits option.splits)
qed

text \<open>A server without errors of the operating system, on which every file of the map is a module.\<close>

definition fxIo :: io_env where
  "fxIo = \<lparr>io_removeErr = (\<lambda>_ _. None), io_mkdirErr = (\<lambda>_ _. None), io_createErr = (\<lambda>_ _. None), io_writeErr = (\<lambda>_ _ _. None),
     io_readErr = (\<lambda>_ _. None), io_hash = (\<lambda>h c. case h of Hash_MD5 \<Rightarrow> ''m'' @ c | _ \<Rightarrow> ''s'' @ c)\<rparr>"

definition fxFs :: "files \<Rightarrow> os_env" where
  "fxFs fs = \<lparr>os_stat = (\<lambda>p. if map_of fs p = None then Inl (Errorf ''no such file'' [p]) else Inr ModeRegular),
     os_walk = (\<lambda>p. []), os_glob = (\<lambda>p. Inr []), os_homedir = Inr, os_getwd = Inr ''/''\<rparr>"

definition fxUpload :: "string \<Rightarrow> upload_msg list \<Rightarrow> (memStore \<times> files) \<times> gerr option" where
  "fxUpload b msgs = UploadSchema fxIo mem_HasSchema mem_AddSchema (\<lambda>fs. NewSchema (fxFs fs) fxLoader kindApi) (Some b)
     mem_New [] (MCreate \<lparr>sk_Name = ''lrc'', sk_Vendor = ''v'', sk_Version = ''1''\<rparr> [] # msgs)"

definition fxChunk :: "string \<Rightarrow> string \<Rightarrow> (hash_method \<times> string) option \<Rightarrow> upload_msg" where
  "fxChunk name c h = MFile \<lparr>uf_FileName = name, uf_FileType = MODULE, uf_Contents = c, uf_Hash = h\<rparr>"

definition fxMsgs :: "upload_msg list" where
  "fxMsgs = [fxChunk ''a.yang'' ''mo'' None, fxChunk ''b.yang'' ''x'' None, fxChunk ''a.yang'' ''dule'' None,
     fxChunk ''b.yang'' [] (Some (Hash_SHA256, ''sx'')), fxChunk ''a.yang'' [] (Some (Hash_MD5, ''mmodule'')), MFinalize]"

lemma fxUpload_ok:
  obtains s' where "fxUpload ''/schemas'' fxMsgs =
    ((s', [(''/schemas/lrc_v_1/a.yang'', ''module''), (''/schemas/lrc_v_1/b.yang'', ''x'')]), None)"
proof -
  have "map_prod snd id (fxUpload ''/schemas'' fxMsgs) =
    ([(''/schemas/lrc_v_1/a.yang'', ''module''), (''/schemas/lrc_v_1/b.yang'', ''x'')], None)" by code_simp
  then show ?thesis by (cases "fxUpload ''/schemas'' fxMsgs") (auto intro: that)
qed

theorem upload_integrity_witness:
  "\<exists>s' k c ms rest. fxUpload ''/schemas'' fxMsgs =
      ((s', [(''/schemas/lrc_v_1/a.yang'', ''module''), (''/schemas/lrc_v_1/b.yang'', ''x'')]), None) \<and>
    fxMsgs = map MFile ms @ MFinalize # rest \<and>
    uploadedAs fxIo ''/schemas'' k [] [] ms [(''/schemas/lrc_v_1/a.yang'', ''module''), (''/schemas/lrc_v_1/b.yang'', ''x'')] c"
proof (rule fxUpload_ok)
  fix s'
  assume r: "fxUpload ''/schemas'' fxMsgs =
    ((s', [(''/schemas/lrc_v_1/a.yang'', ''module''), (''/schemas/lrc_v_1/b.yang'', ''x'')]), None)"
  from upload_integrity [OF r [unfolded fxUpload_def]] r show ?thesis by (simp only: list.inject upload_msg.inject option.inject) blast
qed

theorem upload_adds_one_witness:
  "\<exists>s' fs'. fxUpload ''/schemas'' fxMsgs = ((s', fs'), None) \<and>
    (\<forall>k'. mem_HasSchema s' k' \<longleftrightarrow> k' = \<lparr>sk_Name = ''lrc'', sk_Vendor = ''v'', sk_Version = ''1''\<rparr>)"
proof (rule fxUpload_ok)
  fix s'
  assume r: "fxUpload ''/schemas'' fxMsgs =
    ((s', [(''/schemas/lrc_v_1/a.yang'', ''module''), (''/schemas/lrc_v_1/b.yang'', ''x'')]), None)"
  have "\<not> mem_HasSchema mem_New k" for k by (simp add: mem_HasSchema_def mem_New_def)
  with upload_adds_one [OF r [unfolded fxUpload_def]] r show ?thesis by auto
qed


end
