(* ===== verification/Client.thy ===== *)
theory Client
  imports Upload
begin

text \<open>
  \<open>client/cmd/schema_upload.go\<close>: the upload command, from the walk over the local files to the
  messages it sends, and what the server's handler makes of them.

  The flags are a record. The local file system and the digests of the standard library are an
  argument. A send reaches the server: errors of the connection are not modelled.
\<close>

section \<open>The command\<close>

record client =
  cl_Key :: schema_key
  cl_Files :: "string list"
  cl_Dirs :: "string list"
  cl_Excludes :: "string list"
  cl_Size :: int
  cl_Hash :: string

record client_env =
  ce_walk :: "string \<Rightarrow> (string \<times> gerr option) list"
  ce_isDir :: "string \<Rightarrow> bool"
  ce_readFile :: "string \<Rightarrow> string res"
  ce_hash :: "hash_method \<Rightarrow> string \<Rightarrow> string"

definition calcHash :: "client_env \<Rightarrow> string \<Rightarrow> string \<Rightarrow> string res" where
  "calcHash G hm b =
     (if hm = ''md5'' then Inr (ce_hash G Hash_MD5 b)
      else if hm = ''sha256'' then Inr (ce_hash G Hash_SHA256 b)
      else if hm = ''sha512'' then Inr (ce_hash G Hash_SHA512 b)
      else Inl nilDeref)"

text \<open>The chunks of a file. With a chunk size of zero the loop does not end, so it has fuel; a
  negative size makes the slice expression panic. Indices are far below the range of a Go
  \<open>int\<close>: \<open>start + uploadSize\<close> is at most twice the length of the file, or the size itself.\<close>

primrec chunkLoop :: "nat \<Rightarrow> int \<Rightarrow> string \<Rightarrow> int \<Rightarrow> string list run" where
  "chunkLoop 0 sz b start = None"
| "chunkLoop (Suc n) sz b start =
     (if start < int (length b) then
        (let stop = (if start + sz > int (length b) then int (length b) else start + sz) in
         if start < 0 \<or> stop < start then Some (Inl (GoPanic ''slice bounds out of range''))
         else obind (chunkLoop n sz b (start + sz)) (\<lambda>cs.
           Some (Inr (take (nat (stop - start)) (drop (nat start) b) # cs))))
      else Some (Inr []))"

definition chunkMsg :: "string \<Rightarrow> file_type \<Rightarrow> string \<Rightarrow> file_msg" where
  "chunkMsg path ft c = \<lparr>uf_FileName = path, uf_FileType = ft, uf_Contents = c, uf_Hash = None\<rparr>"

definition hashMsg :: "string \<Rightarrow> file_type \<Rightarrow> string \<Rightarrow> file_msg" where
  "hashMsg path ft h = \<lparr>uf_FileName = path, uf_FileType = ft, uf_Contents = [], uf_Hash = Some (Hash_MD5, h)\<rparr>"

text \<open>The function called for each path of a walk: the messages it sends and the error it returns.\<close>

definition uploadFileFn :: "nat \<Rightarrow> client_env \<Rightarrow> client \<Rightarrow> file_type \<Rightarrow> string \<Rightarrow> gerr option \<Rightarrow>
    (file_msg list \<times> gerr option) run" where
  "uploadFileFn n G C ft path werr =
     (case werr of
        Some err \<Rightarrow> Some (Inr ([], Some err))
      | None \<Rightarrow>
          if ce_isDir G path \<or> filepathExt path \<noteq> ''.yang'' then Some (Inr ([], None))
          else
            (case ce_readFile G path of
               Inl err \<Rightarrow> Some (Inr ([], Some err))
             | Inr b \<Rightarrow>
                 (case calcHash G (cl_Hash C) b of
                    Inl err \<Rightarrow> Some (Inl err)
                  | Inr h \<Rightarrow>
                      obind (chunkLoop n (cl_Size C) b 0) (\<lambda>cs.
                        Some (Inr (map (chunkMsg path ft) cs @ [hashMsg path ft h], None))))))"

text \<open>\<open>filepath.Walk\<close>: it stops at the first error.\<close>

primrec uploadWalk :: "nat \<Rightarrow> client_env \<Rightarrow> client \<Rightarrow> file_type \<Rightarrow> (string \<times> gerr option) list \<Rightarrow>
    (file_msg list \<times> gerr option) run" where
  "uploadWalk n G C ft [] = Some (Inr ([], None))"
| "uploadWalk n G C ft (p # ps) =
     obind (uploadFileFn n G C ft (fst p) (snd p)) (\<lambda>r.
       case snd r of
         Some err \<Rightarrow> Some (Inr (fst r, Some err))
       | None \<Rightarrow> obind (uploadWalk n G C ft ps) (\<lambda>r'. Some (Inr (fst r @ fst r', snd r'))))"

text \<open>The sender goes on after an error. The error channel holds one error and is read once, so the
  third error blocks the sender; \<open>k\<close> is the number of errors it can still report.\<close>

fun sendRoots :: "nat \<Rightarrow> (file_msg list \<times> gerr option) list \<Rightarrow> file_msg list \<times> bool" where
  "sendRoots k [] = ([], True)"
| "sendRoots k ((ms, None) # rs) = (let (ms', fin) = sendRoots k rs in (ms @ ms', fin))"
| "sendRoots 0 ((ms, Some err) # rs) = (ms, False)"
| "sendRoots (Suc k) ((ms, Some err) # rs) = (let (ms', fin) = sendRoots k rs in (ms @ ms', fin))"

definition schemaUpload :: "nat \<Rightarrow> client_env \<Rightarrow> client \<Rightarrow> upload_msg list run" where
  "schemaUpload n G C =
     (if cl_Hash C \<notin> {''md5'', ''sha256'', ''sha512''}
      then Some (Inl (Errorf ''unknown hash method %q'' [cl_Hash C]))
      else
        obind (otraverse (\<lambda>f. uploadWalk n G C MODULE (ce_walk G f)) (cl_Files C)) (\<lambda>rf.
        obind (otraverse (\<lambda>f. uploadWalk n G C DEPENDENCY (ce_walk G f)) (cl_Dirs C)) (\<lambda>rd.
          let (ms, fin) = sendRoots 2 (rf @ rd) in
          Some (Inr (MCreate (cl_Key C) (cl_Excludes C) # map MFile ms @ (if fin then [MFinalize] else []))))))"

text \<open>What the command waits for: its context, or the sender, whose error channel yields the first error, or
  nil when it is closed. An error of the sender is logged; the result is that of the receiver. \<open>Execute\<close> turns
  the result of a command into the exit status.\<close>

datatype wait = CtxCancelled gerr | FromSender "gerr option"

definition uploadWait :: "wait \<Rightarrow> gerr option \<Rightarrow> unit res" where
  "uploadWait first rcvr =
     (case first of
        CtxCancelled err \<Rightarrow> Inl err
      | FromSender _ \<Rightarrow> (case rcvr of Some err \<Rightarrow> Inl err | None \<Rightarrow> Inr ()))"

definition Execute :: "unit res \<Rightarrow> int" where
  "Execute r = (case r of Inl _ \<Rightarrow> 1 | Inr _ \<Rightarrow> 0)"

section \<open>What is sent\<close>

lemma chunkLoop_total:
  assumes "0 < sz" "0 \<le> start" "max 0 (int (length b) - start) < int n"
  shows "\<exists>cs. chunkLoop n sz b start = Some (Inr cs) \<and> concat cs = drop (nat start) b"
  using assms
proof (induction n arbitrary: start)
  case (Suc n)
  show ?case
  proof (cases "start < int (length b)")
    case True
    with Suc.IH [of "start + sz"] Suc.prems obtain cs where
      cs: "chunkLoop n sz b (start + sz) = Some (Inr cs)" "concat cs = drop (nat (start + sz)) b" by auto
    define stop where "stop = (if start + sz > int (length b) then int (length b) else start + sz)"
    have "drop (nat (start + sz)) b = drop (nat (stop - start)) (drop (nat start) b)"
      using Suc.prems True by (auto simp: stop_def nat_add_distrib nat_diff_distrib add.commute)
    moreover have "chunkLoop (Suc n) sz b start = Some (Inr (take (nat (stop - start)) (drop (nat start) b) # cs))"
      using True Suc.prems(1,2) cs(1) by (simp add: stop_def Let_def)
    ultimately show ?thesis using cs(2) by (metis append_take_drop_id concat.simps(2))
  qed simp
qed simp

lemma chunkLoop_zero: "b \<noteq> [] \<Longrightarrow> chunkLoop n 0 b 0 = None"
  by (induction n) simp_all

lemma chunkLoop_negative: "b \<noteq> [] \<Longrightarrow> sz < 0 \<Longrightarrow> chunkLoop (Suc n) sz b 0 = Some (Inl (GoPanic ''slice bounds out of range''))"
  by (simp add: Let_def)

text \<open>The files of a walk that are sent, and the messages for one of them.\<close>

definition yangFiles :: "client_env \<Rightarrow> (string \<times> gerr option) list \<Rightarrow> string list" where
  "yangFiles G ps = filter (\<lambda>p. \<not> ce_isDir G p \<and> filepathExt p = ''.yang'') (map fst ps)"

definition walkOk :: "nat \<Rightarrow> client_env \<Rightarrow> (string \<times> gerr option) list \<Rightarrow> bool" where
  "walkOk n G ps \<longleftrightarrow> (\<forall>p\<in>set ps. snd p = None) \<and>
     (\<forall>p\<in>set (yangFiles G ps). \<exists>b. ce_readFile G p = Inr b \<and> length b < n)"

definition contents :: "client_env \<Rightarrow> string \<Rightarrow> string" where
  "contents G p = (case ce_readFile G p of Inl _ \<Rightarrow> [] | Inr b \<Rightarrow> b)"

definition msgsFor :: "client_env \<Rightarrow> string \<Rightarrow> file_type \<times> string \<Rightarrow> file_msg list \<Rightarrow> bool" where
  "msgsFor G hm fp ms \<longleftrightarrow> (\<exists>cs h. concat cs = contents G (snd fp) \<and> calcHash G hm (contents G (snd fp)) = Inr h \<and>
     ms = map (chunkMsg (snd fp) (fst fp)) cs @ [hashMsg (snd fp) (fst fp) h])"

definition knownHash :: "client \<Rightarrow> bool" where
  "knownHash C \<longleftrightarrow> cl_Hash C \<in> {''md5'', ''sha256'', ''sha512''}"

lemma calcHash_knownHash: "knownHash C \<Longrightarrow> \<exists>h. calcHash G (cl_Hash C) b = Inr h"
  by (auto simp: knownHash_def calcHash_def)

lemma uploadWalk_ok:
  assumes "walkOk n G ps" "cl_Size C > 0" "knownHash C"
  shows "\<exists>mss. uploadWalk n G C ft ps = Some (Inr (concat mss, None)) \<and>
    list_all2 (msgsFor G (cl_Hash C)) (map (Pair ft) (yangFiles G ps)) mss"
  using assms(1)
proof (induction ps)
  case Nil
  then show ?case by (auto simp: yangFiles_def)
next
  case (Cons p ps)
  then obtain mss where mss: "uploadWalk n G C ft ps = Some (Inr (concat mss, None))"
    "list_all2 (msgsFor G (cl_Hash C)) (map (Pair ft) (yangFiles G ps)) mss"
    by (auto simp: walkOk_def yangFiles_def)
  have w: "snd p = None" using Cons.prems by (simp add: walkOk_def)
  show ?case
  proof (cases "\<not> ce_isDir G (fst p) \<and> filepathExt (fst p) = ''.yang''")
    case True
    with Cons.prems obtain b where b: "ce_readFile G (fst p) = Inr b" "length b < n" by (auto simp: walkOk_def yangFiles_def)
    with chunkLoop_total [of "cl_Size C" 0 b n] assms(2) obtain cs where
      cs: "chunkLoop n (cl_Size C) b 0 = Some (Inr cs)" "concat cs = b" by auto
    obtain h where h: "calcHash G (cl_Hash C) b = Inr h" using calcHash_knownHash [OF assms(3)] by blast
    let ?ms = "map (chunkMsg (fst p) ft) cs @ [hashMsg (fst p) ft h]"
    have "msgsFor G (cl_Hash C) (ft, fst p) ?ms" using b cs h by (auto simp: msgsFor_def contents_def)
    with True w b cs h mss show ?thesis
      by (intro exI [of _ "?ms # mss"]) (auto simp: uploadFileFn_def yangFiles_def)
  next
    case False
    with w mss show ?thesis by (intro exI [of _ mss]) (auto simp: uploadFileFn_def yangFiles_def)
  qed
qed

section \<open>What the server makes of it\<close>

definition notOpen :: "(bool \<times> string) option \<Rightarrow> bool" where
  "notOpen st = (case st of Some (True, _) \<Rightarrow> False | _ \<Rightarrow> True)"

definition soFar :: "(bool \<times> string) option \<Rightarrow> string" where
  "soFar st = (case st of Some (True, c) \<Rightarrow> c | _ \<Rightarrow> [])"

lemma soFar_simps [simp]: "notOpen st \<Longrightarrow> soFar st = []" "soFar (Some (True, c)) = c"
  by (auto simp: notOpen_def soFar_def split: option.splits bool.splits)

lemma assemble1_soFar: "assemble1 m st = Some (uf_Hash m = None, soFar st @ uf_Contents m)"
  by (simp add: assemble1_def soFar_def)

lemma msg_simps [simp]:
  "uf_FileName (chunkMsg p ft c) = p" "uf_FileType (chunkMsg p ft c) = ft" "uf_Contents (chunkMsg p ft c) = c"
  "uf_Hash (chunkMsg p ft c) = None" "uf_FileName (hashMsg p ft h) = p" "uf_FileType (hashMsg p ft h) = ft"
  "uf_Contents (hashMsg p ft h) = []" "uf_Hash (hashMsg p ft h) = Some (Hash_MD5, h)"
  by (simp_all add: chunkMsg_def hashMsg_def)

lemma msgsFor_names: "msgsFor G hm fp ms \<Longrightarrow> m \<in> set ms \<Longrightarrow> uf_FileName m = snd fp \<and> uf_FileType m = fst fp"
  by (auto simp: msgsFor_def)

lemma msgsFor_all_names:
  "list_all2 (msgsFor G hm) fps mss \<Longrightarrow> m \<in> set (concat mss) \<Longrightarrow> \<exists>fp\<in>set fps. uf_FileName m = snd fp"
  by (induction rule: list_all2_induct) (auto dest: msgsFor_names)

lemma assemble_append: "assemble P (xs @ ys) st = assemble P ys (assemble P xs st)"
  by (simp add: assemble_def)

lemma assemble_none: "(\<And>m. m \<in> set ms \<Longrightarrow> \<not> P m) \<Longrightarrow> assemble P ms st = st"
  by (induction ms arbitrary: st) (auto simp: assemble_def)

lemma assemble_chunks:
  "path p = f \<Longrightarrow> assemble (\<lambda>m. path (uf_FileName m) = f) (map (chunkMsg p ft) cs) st =
     (if cs = [] then st else Some (True, soFar st @ concat cs))"
proof (induction cs arbitrary: st)
  case (Cons c cs)
  from Cons.IH [OF Cons.prems, of "Some (True, soFar st @ c)"] Cons.prems show ?case
    by (auto simp: assemble_def assemble1_soFar)
qed (simp add: assemble_def)

lemma assemble_file:
  assumes "msgsFor G hm (ft, p) ms" "notOpen st" "path p = f"
  shows "assemble (\<lambda>m. path (uf_FileName m) = f) ms st = Some (False, contents G p)"
proof -
  obtain cs h where ms: "ms = map (chunkMsg p ft) cs @ [hashMsg p ft h]" "concat cs = contents G p"
    using assms(1) by (auto simp: msgsFor_def)
  have "assemble (\<lambda>m. path (uf_FileName m) = f) [hashMsg p ft h] st' = Some (False, soFar st')" for st'
    using assms(3) by (simp add: assemble_def assemble1_soFar)
  then show ?thesis using ms assms(2) by (auto simp: assemble_append assemble_chunks [of path, OF assms(3)])
qed

lemma assemble_files:
  assumes "list_all2 (msgsFor G hm) fps mss" "distinct (map (path \<circ> snd) fps)" "fp \<in> set fps" "notOpen st"
  shows "assemble (\<lambda>m. path (uf_FileName m) = path (snd fp)) (concat mss) st = Some (False, contents G (snd fp))"
  using assms
proof (induction fps mss arbitrary: st rule: list_all2_induct)
  case (Cons x fps ms mss)
  have notin: "assemble (\<lambda>m. path (uf_FileName m) = path (snd x)) (concat mss) st' = st'" for st'
  proof (rule assemble_none)
    fix m assume "m \<in> set (concat mss)"
    with msgsFor_all_names [OF Cons.hyps(2)] obtain y where "y \<in> set fps" "uf_FileName m = snd y" by blast
    then show "path (uf_FileName m) \<noteq> path (snd x)" using Cons.prems(1)
      by (simp add: image_iff) metis
  qed
  show ?case
  proof (cases "fp = x")
    case True
    then show ?thesis using assemble_file [of G hm "fst x" "snd x" ms st path] Cons.hyps(1) Cons.prems(3) notin
      by (simp add: assemble_append)
  next
    case False
    then have fp: "fp \<in> set fps" "path (snd x) \<noteq> path (snd fp)" using Cons.prems(1,2) by force+
    then have "assemble (\<lambda>m. path (uf_FileName m) = path (snd fp)) ms st = st"
      using msgsFor_names [OF Cons.hyps(1)] by (intro assemble_none) simp
    with Cons.IH [OF _ fp(1)] Cons.prems show ?thesis by (simp add: assemble_append)
  qed
qed simp

lemma streamOk_Cons:
  "streamOk E path (m # ms) st \<longleftrightarrow> uf_FileName m \<noteq> [] \<and>
     (case uf_Hash m of None \<Rightarrow> True
      | Some mh \<Rightarrow> supported (fst mh) \<and> hashOk E m (soFar (st (path (uf_FileName m))) @ uf_Contents m)) \<and>
     streamOk E path ms (st(path (uf_FileName m) :=
       Some (uf_Hash m = None, soFar (st (path (uf_FileName m))) @ uf_Contents m)))"
  by (simp add: Let_def assemble1_soFar split: option.splits)

declare streamOk.simps(2) [simp del]

lemma streamOk_chunks:
  assumes "p \<noteq> []"
  shows "streamOk E path (map (chunkMsg p ft) cs @ ms) st =
    streamOk E path ms (if cs = [] then st else st(path p := Some (True, soFar (st (path p)) @ concat cs)))"
proof (induction cs arbitrary: st)
  case (Cons c cs)
  define st1 where "st1 = st(path p := Some (True, soFar (st (path p)) @ c))"
  have "streamOk E path (map (chunkMsg p ft) (c # cs) @ ms) st = streamOk E path (map (chunkMsg p ft) cs @ ms) st1"
    using assms by (simp add: streamOk_Cons st1_def)
  moreover have "(if cs = [] then st1 else st1(path p := Some (True, soFar (st1 (path p)) @ concat cs))) =
      st(path p := Some (True, soFar (st (path p)) @ concat (c # cs)))"
    by (auto simp: st1_def)
  ultimately show ?case using Cons.IH [of st1] by (simp only: list.distinct if_False)
qed simp

text \<open>The client announces md5 for every digest, so a file is accepted only if its digest is the md5
  one.\<close>

lemma streamOk_file:
  assumes "msgsFor G hm (ft, p) ms1" "p \<noteq> []" "notOpen (st (path p))" "io_hash E = ce_hash G"
  shows "streamOk E path (ms1 @ ms) st \<longleftrightarrow>
    calcHash G hm (contents G p) = Inr (ce_hash G Hash_MD5 (contents G p)) \<and>
    streamOk E path ms (st(path p := Some (False, contents G p)))"
proof -
  obtain cs h where ms1: "ms1 = map (chunkMsg p ft) cs @ [hashMsg p ft h]" "concat cs = contents G p"
    "calcHash G hm (contents G p) = Inr h" using assms(1) by (auto simp: msgsFor_def)
  let ?st = "if cs = [] then st else st(path p := Some (True, contents G p))"
  have "soFar (?st (path p)) = contents G p" using ms1(2) assms(3) by auto
  moreover have "?st(path p := v) = st(path p := v)" for v by simp
  ultimately have "streamOk E path (hashMsg p ft h # ms) ?st \<longleftrightarrow>
      ce_hash G Hash_MD5 (contents G p) = h \<and> streamOk E path ms (st(path p := Some (False, contents G p)))"
    using assms(2,4) by (simp only: streamOk_Cons msg_simps) (simp add: hashOk_def supported_def)
  then show ?thesis using ms1 assms(3) by (cases "cs = []") (auto simp: streamOk_chunks [OF assms(2)])
qed

lemma notOpen_iff: "notOpen st \<longleftrightarrow> (\<forall>c. st \<noteq> Some (True, c))"
  by (auto simp: notOpen_def split: option.splits bool.splits)

lemma streamOk_files:
  assumes "list_all2 (msgsFor G hm) fps mss" "\<And>fp. fp \<in> set fps \<Longrightarrow> snd fp \<noteq> []" "\<And>f. notOpen (st f)"
    "io_hash E = ce_hash G"
  shows "streamOk E path (concat mss) st \<longleftrightarrow>
    (\<forall>fp\<in>set fps. calcHash G hm (contents G (snd fp)) = Inr (ce_hash G Hash_MD5 (contents G (snd fp))))"
  using assms(1-3)
proof (induction fps mss arbitrary: st rule: list_all2_induct)
  case Nil
  then show ?case by (simp add: notOpen_iff)
next
  case (Cons x fps ms mss)
  have "streamOk E path (concat mss) (st(path (snd x) := Some (False, contents G (snd x)))) \<longleftrightarrow>
    (\<forall>fp\<in>set fps. calcHash G hm (contents G (snd fp)) = Inr (ce_hash G Hash_MD5 (contents G (snd fp))))"
    using Cons.prems by (intro Cons.IH) (auto simp: notOpen_iff)
  with streamOk_file [of G hm "fst x" "snd x" ms st path E "concat mss"] Cons.hyps(1) Cons.prems assms(4) show ?case by simp
qed

section \<open>Client and server together\<close>

definition clientItems :: "client_env \<Rightarrow> file_type \<Rightarrow> string list \<Rightarrow> (file_type \<times> string) list" where
  "clientItems G ft roots = concat (map (\<lambda>r. map (Pair ft) (yangFiles G (ce_walk G r))) roots)"

definition allItems :: "client_env \<Rightarrow> client \<Rightarrow> (file_type \<times> string) list" where
  "allItems G C = clientItems G MODULE (cl_Files C) @ clientItems G DEPENDENCY (cl_Dirs C)"

definition clientOk :: "nat \<Rightarrow> client_env \<Rightarrow> client \<Rightarrow> bool" where
  "clientOk n G C \<longleftrightarrow> cl_Size C > 0 \<and> knownHash C \<and> (\<forall>r\<in>set (cl_Files C) \<union> set (cl_Dirs C). walkOk n G (ce_walk G r))"

lemma roots_ok:
  assumes "\<And>r. r \<in> set roots \<Longrightarrow> walkOk n G (ce_walk G r)" "cl_Size C > 0" "knownHash C"
  shows "\<exists>msss. otraverse (\<lambda>f. uploadWalk n G C ft (ce_walk G f)) roots = Some (Inr (map (\<lambda>mss. (concat mss, None)) msss)) \<and>
    list_all2 (msgsFor G (cl_Hash C)) (clientItems G ft roots) (concat msss)"
  using assms(1)
proof (induction roots)
  case Nil
  show ?case by (intro exI [of _ "[]"]) (simp add: clientItems_def)
next
  case (Cons r roots)
  obtain msss where msss: "otraverse (\<lambda>f. uploadWalk n G C ft (ce_walk G f)) roots = Some (Inr (map (\<lambda>mss. (concat mss, None)) msss))"
    "list_all2 (msgsFor G (cl_Hash C)) (clientItems G ft roots) (concat msss)" using Cons by auto
  have "walkOk n G (ce_walk G r)" using Cons.prems by simp
  from uploadWalk_ok [OF this assms(2,3), of ft] obtain mss where
    "uploadWalk n G C ft (ce_walk G r) = Some (Inr (concat mss, None))"
    "list_all2 (msgsFor G (cl_Hash C)) (map (Pair ft) (yangFiles G (ce_walk G r))) mss" by blast
  with msss show ?case
    by (intro exI [of _ "mss # msss"]) (simp add: clientItems_def list_all2_appendI)
qed

lemma sendRoots_ok: "sendRoots k (map (\<lambda>mss. (concat mss, None)) msss) = (concat (concat msss), True)"
  by (induction msss) simp_all

lemma schemaUpload_ok:
  assumes "clientOk n G C"
  shows "\<exists>mss. schemaUpload n G C = Some (Inr (MCreate (cl_Key C) (cl_Excludes C) # map MFile (concat mss) @ [MFinalize])) \<and>
    list_all2 (msgsFor G (cl_Hash C)) (allItems G C) mss"
proof -
  have C: "cl_Size C > 0" "knownHash C" using assms by (simp_all add: clientOk_def)
  obtain ma where a: "otraverse (\<lambda>f. uploadWalk n G C MODULE (ce_walk G f)) (cl_Files C) = Some (Inr (map (\<lambda>mss. (concat mss, None)) ma))"
    "list_all2 (msgsFor G (cl_Hash C)) (clientItems G MODULE (cl_Files C)) (concat ma)"
    using roots_ok [OF _ C, of "cl_Files C" n G MODULE] assms by (auto simp: clientOk_def)
  obtain mb where b: "otraverse (\<lambda>f. uploadWalk n G C DEPENDENCY (ce_walk G f)) (cl_Dirs C) = Some (Inr (map (\<lambda>mss. (concat mss, None)) mb))"
    "list_all2 (msgsFor G (cl_Hash C)) (clientItems G DEPENDENCY (cl_Dirs C)) (concat mb)"
    using roots_ok [OF _ C, of "cl_Dirs C" n G DEPENDENCY] assms by (auto simp: clientOk_def)
  have "sendRoots 2 (map (\<lambda>mss. (concat mss, None)) ma @ map (\<lambda>mss. (concat mss, None)) mb) =
      (concat (concat ma @ concat mb), True)"
    using sendRoots_ok [of 2 "ma @ mb"] by simp
  with a b C(2) show ?thesis
    by (intro exI [of _ "concat ma @ concat mb"])
      (simp add: schemaUpload_def knownHash_def allItems_def list_all2_appendI)
qed

lemma allItems_name: "fp \<in> set (allItems G C) \<Longrightarrow> snd fp \<noteq> []"
  by (auto simp: allItems_def clientItems_def yangFiles_def filepathExt_def)

lemma acceptedPaths_append: "acceptedPaths b c ft (xs @ ys) = acceptedPaths b c ft xs @ acceptedPaths b c ft ys"
  by (simp add: acceptedPaths_def)

lemma acceptedPaths_file:
  "msgsFor G hm fp ms \<Longrightarrow> acceptedPaths b c ft ms = (if fst fp = ft then [uploadPath b c (snd fp)] else [])"
  by (auto simp: msgsFor_def acceptedPaths_def filter_map comp_def filter_empty_conv)

lemma acceptedPaths_files:
  "list_all2 (msgsFor G hm) fps mss \<Longrightarrow>
   acceptedPaths b c ft (concat mss) = map (\<lambda>fp. uploadPath b c (snd fp)) (filter (\<lambda>fp. fst fp = ft) fps)"
  by (induction rule: list_all2_induct) (auto simp: acceptedPaths_append acceptedPaths_file, simp add: acceptedPaths_def)

lemma client_upload_facts:
  assumes "clientOk n G C" "cl_Hash C = ''md5''" "io_ok E" "io_hash E = ce_hash G"
    "sk_Vendor (cl_Key C) \<noteq> []" "sk_Version (cl_Key C) \<noteq> []" "\<not> has s (cl_Key C)"
    "distinct (map (\<lambda>fp. uploadPath b (startConfig (cl_Key C) (cl_Excludes C)) (snd fp)) (allItems G C))"
  shows "\<exists>msgs fs' c. schemaUpload n G C = Some (Inr msgs) \<and>
    cfgKey c = cl_Key C \<and> cfg_Excludes c = cl_Excludes C \<and>
    cfg_Files c = map (\<lambda>fp. uploadPath b c (snd fp)) (filter (\<lambda>fp. fst fp = MODULE) (allItems G C)) \<and>
    cfg_Directories c = map (\<lambda>fp. uploadPath b c (snd fp)) (filter (\<lambda>fp. fst fp = DEPENDENCY) (allItems G C)) \<and>
    (\<forall>fp\<in>set (allItems G C). map_of fs' (uploadPath b c (snd fp)) = Some (contents G (snd fp))) \<and>
    UploadSchema E has add new (Some b) s fs msgs =
      (case new fs' c of
         Inl err \<Rightarrow> ((s, removeTree (schemaDir b c) fs'), Some err)
       | Inr sc \<Rightarrow> (case add s sc of Inl err \<Rightarrow> ((s, fs'), Some err) | Inr s' \<Rightarrow> ((s', fs'), None)))"
proof -
  let ?k = "cl_Key C" let ?ex = "cl_Excludes C" let ?c = "startConfig ?k ?ex"
  from schemaUpload_ok [OF assms(1)] assms(2) obtain mss where
    mss: "schemaUpload n G C = Some (Inr (MCreate ?k ?ex # map MFile (concat mss) @ [MFinalize]))"
    "list_all2 (msgsFor G ''md5'') (allItems G C) mss" by auto
  have "streamOk E (uploadPath b ?c) (concat mss)
      (\<lambda>f. map_option (Pair False) (map_of (removeTree (schemaDir b ?c) fs) f))"
    using streamOk_files [OF mss(2) allItems_name _ assms(4)] by (simp add: notOpen_iff calcHash_def)
  from upload_complete [OF assms(3,5,6), where has = has and s = s, OF assms(7) this, where add = add and new = new]
  obtain fs' c where u: "uploadedAs E b ?k ?ex fs (concat mss) fs' c"
    "UploadSchema E has add new (Some b) s fs (MCreate ?k ?ex # map MFile (concat mss) @ [MFinalize]) =
      (case new fs' c of
         Inl err \<Rightarrow> ((s, removeTree (schemaDir b c) fs'), Some err)
       | Inr sc \<Rightarrow> (case add s sc of Inl err \<Rightarrow> ((s, fs'), Some err) | Inr s' \<Rightarrow> ((s', fs'), None)))" by blast
  have "cfgKey c = cfgKey ?c" using u(1) by (simp add: uploadedAs_def startConfig_def cfgKey_def)
  then have d: "distinct (map (uploadPath b c \<circ> snd) (allItems G C))"
    using assms(8) uploadPath_key [of c ?c b] by (simp add: comp_def)
  have "map_of fs' (uploadPath b c (snd fp)) = Some (contents G (snd fp))" if fp: "fp \<in> set (allItems G C)" for fp
  proof -
    have "map_option (Pair False) (map_of fs' (uploadPath b c (snd fp))) = Some (False, contents G (snd fp))"
      using u(1) assemble_files [OF mss(2) d fp] by (simp add: uploadedAs_def notOpen_def split: option.splits)
    then show ?thesis by auto
  qed
  with mss(1) u acceptedPaths_files [OF mss(2)] show ?thesis
    by (intro exI [of _ "MCreate ?k ?ex # map MFile (concat mss) @ [MFinalize]"] exI [of _ fs'] exI [of _ c])
      (simp add: uploadedAs_def)
qed

text \<open>C13: an upload with the client arrives. If the chunk size is positive, the files can be read,
  their names stay apart on the server, the digest is md5 and the server's disk does not fail, then
  for enough fuel the command sends a stream that \<open>UploadSchema\<close> accepts up to the parser and the
  store: the schema is built from a configuration that lists the modules and the dependencies in the
  order of the walk, and each file holds exactly the client's contents, whatever the chunk size.\<close>

theorem client_upload:
  assumes "clientOk n G C" "cl_Hash C = ''md5''" "io_ok E" "io_hash E = ce_hash G"
    "sk_Vendor (cl_Key C) \<noteq> []" "sk_Version (cl_Key C) \<noteq> []" "\<not> has s (cl_Key C)"
    "distinct (map (\<lambda>fp. uploadPath b (startConfig (cl_Key C) (cl_Excludes C)) (snd fp)) (allItems G C))"
  shows "\<exists>msgs fs' c. schemaUpload n G C = Some (Inr msgs) \<and>
    cfgKey c = cl_Key C \<and> cfg_Excludes c = cl_Excludes C \<and>
    cfg_Files c = map (\<lambda>fp. uploadPath b c (snd fp)) (filter (\<lambda>fp. fst fp = MODULE) (allItems G C)) \<and>
    cfg_Directories c = map (\<lambda>fp. uploadPath b c (snd fp)) (filter (\<lambda>fp. fst fp = DEPENDENCY) (allItems G C)) \<and>
    (\<forall>fp\<in>set (allItems G C). map_of fs' (uploadPath b c (snd fp)) = Some (contents G (snd fp))) \<and>
    UploadSchema E has add new (Some b) s fs msgs =
      (case new fs' c of
         Inl err \<Rightarrow> ((s, removeTree (schemaDir b c) fs'), Some err)
       | Inr sc \<Rightarrow> (case add s sc of Inl err \<Rightarrow> ((s, fs'), Some err) | Inr s' \<Rightarrow> ((s', fs'), None)))"
  by (rule client_upload_facts [where has = has and s = s, OF assms])

text \<open>The digest flag of the client is not transmitted. Whatever \<open>--hash\<close> selects, the
  message says md5; so as soon as the selected digest of one file is not its md5 digest, the server
  rejects the upload and the store does not change.\<close>

theorem client_hash_flag:
  assumes "clientOk n G C" "io_ok E" "io_hash E = ce_hash G"
    "sk_Vendor (cl_Key C) \<noteq> []" "sk_Version (cl_Key C) \<noteq> []" "\<not> has s (cl_Key C)"
    "fp \<in> set (allItems G C)" "calcHash G (cl_Hash C) (contents G (snd fp)) \<noteq> calcHash G ''md5'' (contents G (snd fp))"
  shows "\<exists>msgs fs' err. schemaUpload n G C = Some (Inr msgs) \<and>
    UploadSchema E has add new (Some b) s fs msgs = ((s, fs'), Some err)"
proof -
  let ?k = "cl_Key C" let ?ex = "cl_Excludes C" let ?c = "startConfig ?k ?ex"
  from schemaUpload_ok [OF assms(1)] obtain mss where
    mss: "schemaUpload n G C = Some (Inr (MCreate ?k ?ex # map MFile (concat mss) @ [MFinalize]))"
    "list_all2 (msgsFor G (cl_Hash C)) (allItems G C) mss" by auto
  have "\<not> streamOk E (uploadPath b ?c) (concat mss)
      (\<lambda>f. map_option (Pair False) (map_of (removeTree (schemaDir b ?c) fs) f))"
    using streamOk_files [OF mss(2) allItems_name _ assms(3)] assms(7,8) by (auto simp: notOpen_iff calcHash_def)
  from upload_rejected [OF assms(2,4,5), where has = has and s = s, OF assms(6) this] mss(1) show ?thesis by blast
qed

text \<open>A file that cannot be read is left out and nothing but the log says so.\<close>

lemma obind_return: "obind m (\<lambda>x. Some (Inr x)) = m"
proof (cases m)
  case (Some a)
  then show ?thesis by (cases a) simp_all
qed simp

lemma obind_assoc: "obind (obind m g) h = obind m (\<lambda>y. obind (g y) h)"
  by (cases "(m, g)" rule: obind.cases) auto

lemma otraverse_append:
  "otraverse f (xs @ ys) = obind (otraverse f xs) (\<lambda>as. obind (otraverse f ys) (\<lambda>bs. Some (Inr (as @ bs))))"
  by (induction xs) (simp_all add: obind_return obind_assoc)

lemma sendRoots_error:
  "sendRoots (Suc k) (map (\<lambda>mss. (concat mss, None)) as @ ([], Some err) # map (\<lambda>mss. (concat mss, None)) bs) =
   (concat (concat (as @ bs)), True)"
  by (induction as) (simp_all add: sendRoots_ok)

lemma schemaUpload_skips:
  assumes "clientOk n G (C\<lparr>cl_Files := fs1 @ fs2\<rparr>)" "uploadWalk n G C MODULE (ce_walk G f) = Some (Inr ([], Some err))"
  shows "schemaUpload n G (C\<lparr>cl_Files := fs1 @ f # fs2\<rparr>) = schemaUpload n G (C\<lparr>cl_Files := fs1 @ fs2\<rparr>)"
proof -
  have C: "cl_Size C > 0" "knownHash C" using assms(1) by (simp_all add: clientOk_def knownHash_def)
  have "uploadFileFn n G (C\<lparr>cl_Files := xs\<rparr>) = uploadFileFn n G C" for xs
    by (auto simp: uploadFileFn_def fun_eq_iff split: option.splits sum.splits)
  then have w: "uploadWalk n G (C\<lparr>cl_Files := xs\<rparr>) ft ps = uploadWalk n G C ft ps" for xs ft ps
    by (induction ps) (simp_all cong: option.case_cong)
  have ok: "\<forall>r\<in>set fs1 \<union> set fs2 \<union> set (cl_Dirs C). walkOk n G (ce_walk G r)" using assms(1) by (auto simp: clientOk_def)
  obtain ma where a: "otraverse (\<lambda>f. uploadWalk n G C MODULE (ce_walk G f)) fs1 = Some (Inr (map (\<lambda>mss. (concat mss, None)) ma))"
    using roots_ok [OF _ C, of fs1 n G MODULE] ok by auto
  obtain mb where b: "otraverse (\<lambda>f. uploadWalk n G C MODULE (ce_walk G f)) fs2 = Some (Inr (map (\<lambda>mss. (concat mss, None)) mb))"
    using roots_ok [OF _ C, of fs2 n G MODULE] ok by auto
  obtain md where d: "otraverse (\<lambda>f. uploadWalk n G C DEPENDENCY (ce_walk G f)) (cl_Dirs C) = Some (Inr (map (\<lambda>mss. (concat mss, None)) md))"
    using roots_ok [OF _ C, of "cl_Dirs C" n G DEPENDENCY] ok by auto
  have "sendRoots 2 ((map (\<lambda>mss. (concat mss, None)) ma @ ([], Some err) # map (\<lambda>mss. (concat mss, None)) mb) @ map (\<lambda>mss. (concat mss, None)) md) =
      sendRoots 2 (map (\<lambda>mss. (concat mss, None)) (ma @ mb @ md))"
    using sendRoots_error [of 1 ma err "mb @ md"] unfolding sendRoots_ok by (simp add: numeral_2_eq_2)
  then show ?thesis
    using a b d assms(2) by (simp add: schemaUpload_def w otraverse_append)
qed

text \<open>C39: the upload command reports success although it left out a file. When one of the given module files
  cannot be read and everything else of the upload is in order, the stream is the one without that file;
  the server parses a configuration that lists the other modules only, and when it can add the result,
  the command ends with exit status 0: the error of the sender is logged and dropped.\<close>

theorem client_upload_partial:
  assumes "clientOk n G (C\<lparr>cl_Files := fs1 @ fs2\<rparr>)" "uploadWalk n G C MODULE (ce_walk G f) = Some (Inr ([], Some err))"
    "cl_Hash C = ''md5''" "io_ok E" "io_hash E = ce_hash G"
    "sk_Vendor (cl_Key C) \<noteq> []" "sk_Version (cl_Key C) \<noteq> []" "\<not> has s (cl_Key C)"
    "distinct (map (\<lambda>fp. uploadPath b (startConfig (cl_Key C) (cl_Excludes C)) (snd fp)) (allItems G (C\<lparr>cl_Files := fs1 @ fs2\<rparr>)))"
  shows "\<exists>msgs fs' c. schemaUpload n G (C\<lparr>cl_Files := fs1 @ f # fs2\<rparr>) = Some (Inr msgs) \<and> cfgKey c = cl_Key C \<and>
    cfg_Files c = map (\<lambda>fp. uploadPath b c (snd fp)) (clientItems G MODULE fs1 @ clientItems G MODULE fs2) \<and>
    (\<forall>sc s'. new fs' c = Inr sc \<longrightarrow> add s sc = Inr s' \<longrightarrow>
      UploadSchema E has add new (Some b) s fs msgs = ((s', fs'), None) \<and>
      Execute (uploadWait (FromSender (Some err)) (snd (UploadSchema E has add new (Some b) s fs msgs))) = 0)"
proof -
  let ?C = "C\<lparr>cl_Files := fs1 @ fs2\<rparr>"
  have k: "cl_Hash ?C = ''md5''" "cl_Key ?C = cl_Key C" "cl_Excludes ?C = cl_Excludes C" using assms(3) by simp_all
  from client_upload_facts [OF assms(1) k(1) assms(4,5), unfolded k(2,3), OF assms(6,7), where has = has and s = s and b = b and add = add and new = new,
      OF assms(8,9), of fs]
  obtain msgs fs' c where m: "schemaUpload n G ?C = Some (Inr msgs)" "cfgKey c = cl_Key C"
    "cfg_Files c = map (\<lambda>fp. uploadPath b c (snd fp)) (filter (\<lambda>fp. fst fp = MODULE) (allItems G ?C))"
    "UploadSchema E has add new (Some b) s fs msgs =
      (case new fs' c of
         Inl err \<Rightarrow> ((s, removeTree (schemaDir b c) fs'), Some err)
       | Inr sc \<Rightarrow> (case add s sc of Inl err \<Rightarrow> ((s, fs'), Some err) | Inr s' \<Rightarrow> ((s', fs'), None)))" by blast
  have "filter (\<lambda>fp. fst fp = MODULE) (allItems G ?C) = clientItems G MODULE fs1 @ clientItems G MODULE fs2"
    by (simp add: allItems_def clientItems_def filter_concat comp_def)
  then show ?thesis
    using m schemaUpload_skips [OF assms(1,2)]
    by (intro exI [of _ msgs] exI [of _ fs'] exI [of _ c]) (simp add: Execute_def uploadWait_def)
qed

text \<open>A client with one module, sent in chunks of three bytes.\<close>

definition fxEnv :: client_env where
  "fxEnv = \<lparr>ce_walk = (\<lambda>r. [(r, None)]), ce_isDir = (\<lambda>p. False), ce_readFile = (\<lambda>p. Inr ''module''), ce_hash = io_hash fxIo\<rparr>"

definition fxClient :: "string \<Rightarrow> client" where
  "fxClient hm = \<lparr>cl_Key = \<lparr>sk_Name = ''lrc'', sk_Vendor = ''v'', sk_Version = ''1''\<rparr>, cl_Files = [''m.yang''], cl_Dirs = [],
     cl_Excludes = [], cl_Size = 3, cl_Hash = hm\<rparr>"

lemma fxIo_ok: "io_ok fxIo" "io_hash fxIo = ce_hash fxEnv"
  by (simp_all add: io_ok_def fxIo_def fxEnv_def)

lemma fxItems: "allItems fxEnv (fxClient hm) = [(MODULE, ''m.yang'')]"
  by (simp add: allItems_def clientItems_def fxClient_def fxEnv_def yangFiles_def, code_simp)

lemma fxClient_ok: "hm \<in> {''md5'', ''sha256''} \<Longrightarrow> clientOk 10 fxEnv (fxClient hm)"
  by (auto simp: clientOk_def fxClient_def knownHash_def walkOk_def yangFiles_def fxEnv_def)

lemma mem_New_empty: "\<not> mem_HasSchema mem_New k"
  by (simp add: mem_HasSchema_def mem_New_def)

theorem client_upload_witness:
  "\<exists>msgs fs' c s'. schemaUpload 10 fxEnv (fxClient ''md5'') = Some (Inr msgs) \<and>
    cfg_Files c = [uploadPath ''/schemas'' c ''m.yang''] \<and> map_of fs' (uploadPath ''/schemas'' c ''m.yang'') = Some ''module'' \<and>
    UploadSchema fxIo mem_HasSchema mem_AddSchema (\<lambda>fs c. Inr (fxSchema\<lparr>sc_config := c\<rparr>)) (Some ''/schemas'') mem_New [] msgs =
      ((s', fs'), None)"
proof -
  have c: "contents fxEnv ''m.yang'' = ''module''" by (simp add: contents_def fxEnv_def)
  have k: "cl_Hash (fxClient ''md5'') = ''md5''" "sk_Vendor (cl_Key (fxClient ''md5'')) \<noteq> []" "sk_Version (cl_Key (fxClient ''md5'')) \<noteq> []"
    by (simp_all add: fxClient_def)
  show ?thesis
    using client_upload [of 10 fxEnv "fxClient ''md5''" fxIo mem_HasSchema mem_New "''/schemas''" mem_AddSchema
        "\<lambda>fs c. Inr (fxSchema\<lparr>sc_config := c\<rparr>)" "[]", OF fxClient_ok k(1) fxIo_ok k(2,3) mem_New_empty]
    by (auto simp: fxItems c mem_AddSchema_def)
qed

theorem client_hash_flag_witness:
  "\<exists>msgs fs' err. schemaUpload 10 fxEnv (fxClient ''sha256'') = Some (Inr msgs) \<and>
    UploadSchema fxIo mem_HasSchema mem_AddSchema (\<lambda>fs. NewSchema (fxFs fs) fxLoader kindApi) (Some ''/schemas'') mem_New [] msgs =
      ((mem_New, fs'), Some err)"
proof -
  have i: "(MODULE, ''m.yang'') \<in> set (allItems fxEnv (fxClient ''sha256''))" by (simp add: fxItems)
  have k: "sk_Vendor (cl_Key (fxClient ''sha256'')) \<noteq> []" "sk_Version (cl_Key (fxClient ''sha256'')) \<noteq> []"
    "calcHash fxEnv (cl_Hash (fxClient ''sha256'')) (contents fxEnv (snd (MODULE, ''m.yang''))) \<noteq>
     calcHash fxEnv ''md5'' (contents fxEnv (snd (MODULE, ''m.yang'')))"
    by (simp_all add: fxClient_def calcHash_def fxEnv_def fxIo_def contents_def)
  show ?thesis
    by (rule client_hash_flag [of 10 fxEnv "fxClient ''sha256''" fxIo mem_HasSchema mem_New,
        OF fxClient_ok fxIo_ok k(1,2) mem_New_empty i k(3)]) simp
qed

definition fxUnreadable :: client_env where
  "fxUnreadable = fxEnv\<lparr>ce_walk := (\<lambda>r. [(r, if r = ''x.yang'' then Some (Errorf ''permission denied'' []) else None)])\<rparr>"

theorem client_upload_partial_witness:
  "\<exists>msgs fs' c s'. schemaUpload 10 fxUnreadable ((fxClient ''md5'')\<lparr>cl_Files := [''m.yang'', ''x.yang'']\<rparr>) = Some (Inr msgs) \<and>
    cfg_Files c = [uploadPath ''/schemas'' c ''m.yang''] \<and>
    UploadSchema fxIo mem_HasSchema mem_AddSchema (\<lambda>fs c. Inr (fxSchema\<lparr>sc_config := c\<rparr>)) (Some ''/schemas'') mem_New [] msgs =
      ((s', fs'), None)"
proof -
  let ?C = "fxClient ''md5''"
  have ok: "clientOk 10 fxUnreadable (?C\<lparr>cl_Files := [''m.yang''] @ []\<rparr>)"
    by (auto simp: clientOk_def fxClient_def knownHash_def walkOk_def yangFiles_def fxEnv_def fxUnreadable_def)
  have w: "uploadWalk 10 fxUnreadable ?C MODULE (ce_walk fxUnreadable ''x.yang'') = Some (Inr ([], Some (Errorf ''permission denied'' [])))"
    by (simp add: fxUnreadable_def uploadFileFn_def)
  have i: "clientItems fxUnreadable MODULE [''m.yang''] = [(MODULE, ''m.yang'')]" "clientItems fxUnreadable ft [] = []" for ft
    by (simp add: clientItems_def fxUnreadable_def fxEnv_def yangFiles_def, code_simp) (simp add: clientItems_def)
  then have a: "allItems fxUnreadable (?C\<lparr>cl_Files := [''m.yang''] @ []\<rparr>) = [(MODULE, ''m.yang'')]"
    by (simp add: allItems_def fxClient_def)
  have k: "cl_Hash ?C = ''md5''" "sk_Vendor (cl_Key ?C) \<noteq> []" "sk_Version (cl_Key ?C) \<noteq> []" "io_hash fxIo = ce_hash fxUnreadable"
    by (simp_all add: fxClient_def fxUnreadable_def fxEnv_def)
  show ?thesis
    using client_upload_partial [where has = mem_HasSchema and s = mem_New and b = "''/schemas''" and add = mem_AddSchema
        and new = "\<lambda>fs c. Inr (fxSchema\<lparr>sc_config := c\<rparr>)" and fs = "[]", OF ok w k(1) fxIo_ok(1) k(4,2,3) mem_New_empty, unfolded a]
    by (auto simp: i mem_AddSchema_def)
qed

end
