(* ===== verification/Cli.thy ===== *)
theory Cli
  imports Commands Client
begin

text \<open>
  The client program as a whole, \<open>client/main.go\<close> and \<open>client/cmd\<close>: the variables behind the flags and the
  \<open>init\<close> functions that register them, the connection, and one invocation \<open>schemac schema <command>\<close> from
  its arguments to its exit status.

  Reading the arguments (cobra and pflag), the dial of gRPC and the handler at the other end are arguments
  of the model. Every command ends with what it printed and its result; \<open>None\<close> is a command that does not end.
\<close>

section \<open>Flags\<close>

text \<open>The package variables by name. Durations are in nanoseconds.\<close>

datatype flag_val = FStr string | FInt int | FBool bool | FStrs "string list"

type_synonym vars = "(string \<times> flag_val) list"

record registration =
  rg_command :: string
  rg_flag :: string
  rg_short :: string
  rg_var :: string
  rg_default :: flag_val

definition reg :: "string \<Rightarrow> string \<Rightarrow> string \<Rightarrow> string \<Rightarrow> flag_val \<Rightarrow> registration" where
  "reg c f sh v d = \<lparr>rg_command = c, rg_flag = f, rg_short = sh, rg_var = v, rg_default = d\<rparr>"

definition init_root :: "registration list" where
  "init_root =
     [reg ''schemac'' ''address'' ''a'' ''addr'' (FStr ''localhost:55000''),
      reg ''schemac'' ''name'' [] ''schemaName'' (FStr []),
      reg ''schemac'' ''vendor'' [] ''schemaVendor'' (FStr []),
      reg ''schemac'' ''version'' [] ''schemaVersion'' (FStr []),
      reg ''schemac'' ''format'' [] ''format'' (FStr []),
      reg ''schemac'' ''max-rcv-msg'' [] ''maxRcvMsg'' (FInt 25165824),
      reg ''schemac'' ''timeout'' [] ''timeout'' (FInt (60 * 1000000000))]"

definition init_bench :: "registration list" where
  "init_bench = [reg ''bench'' ''path'' [] ''xpath'' (FStr ''/'')]"

definition init_create :: "registration list" where
  "init_create =
     [reg ''create'' ''file'' [] ''schemaFiles'' (FStrs []),
      reg ''create'' ''dir'' [] ''schemaDirs'' (FStrs []),
      reg ''create'' ''exclude'' [] ''schemaExcludes'' (FStrs [])]"

definition init_expandPath :: "registration list" where
  "init_expandPath =
     [reg ''expand-path'' ''path'' [] ''xpath'' (FStr []),
      reg ''expand-path'' ''xpath'' [] ''asXpath'' (FBool False),
      reg ''expand-path'' ''config-only'' [] ''configOnly'' (FBool False),
      reg ''expand-path'' ''state-only'' [] ''stateOnly'' (FBool False)]"

definition init_get :: "registration list" where
  "init_get =
     [reg ''get'' ''path'' ''p'' ''xpath'' (FStr []),
      reg ''get'' ''all'' [] ''all'' (FBool False),
      reg ''get'' ''with-desc'' [] ''withDesc'' (FBool False)]"

definition init_toPath :: "registration list" where
  "init_toPath = [reg ''to-path'' ''cp'' [] ''pathItems'' (FStrs [])]"

definition init_upload :: "registration list" where
  "init_upload =
     [reg ''upload'' ''file'' [] ''schemaFiles'' (FStrs []),
      reg ''upload'' ''dir'' [] ''schemaDirs'' (FStrs []),
      reg ''upload'' ''exclude'' [] ''schemaExcludes'' (FStrs []),
      reg ''upload'' ''size'' [] ''uploadSize'' (FInt (1024 * 100)),
      reg ''upload'' ''hash'' [] ''hashMethod'' (FStr ''md5'')]"

text \<open>The \<open>init\<close> functions of a package run in the order of its files, by name. Registering a flag stores its
  default in the variable.\<close>

definition registrations :: "registration list" where
  "registrations = init_root @ init_bench @ init_create @ init_expandPath @ init_get @ init_toPath @ init_upload"

definition register :: "registration \<Rightarrow> vars \<Rightarrow> vars" where
  "register r = AList.update (rg_var r) (rg_default r)"

definition initVars :: vars where
  "initVars = fold register registrations []"

text \<open>The variables after the arguments have been read.\<close>

definition setVars :: "vars \<Rightarrow> vars" where
  "setVars given = fold (\<lambda>(v, x). AList.update v x) given initVars"

text \<open>A command sees its own flags and the persistent ones of \<open>schemac\<close>.\<close>

definition visible :: "string \<Rightarrow> registration list" where
  "visible c = filter (\<lambda>r. rg_command r = c \<or> rg_command r = ''schemac'') registrations"

definition str :: "vars \<Rightarrow> string \<Rightarrow> string" where
  "str vs v = (case map_of vs v of Some (FStr s) \<Rightarrow> s | _ \<Rightarrow> [])"

definition num :: "vars \<Rightarrow> string \<Rightarrow> int" where
  "num vs v = (case map_of vs v of Some (FInt i) \<Rightarrow> i | _ \<Rightarrow> 0)"

definition flag :: "vars \<Rightarrow> string \<Rightarrow> bool" where
  "flag vs v = (case map_of vs v of Some (FBool b) \<Rightarrow> b | _ \<Rightarrow> False)"

definition strs :: "vars \<Rightarrow> string \<Rightarrow> string list" where
  "strs vs v = (case map_of vs v of Some (FStrs l) \<Rightarrow> l | _ \<Rightarrow> [])"

definition flagsOf :: "vars \<Rightarrow> flags" where
  "flagsOf vs = \<lparr>fl_schemaName = str vs ''schemaName'', fl_schemaVendor = str vs ''schemaVendor'',
     fl_schemaVersion = str vs ''schemaVersion'', fl_xpath = str vs ''xpath'', fl_withDesc = flag vs ''withDesc'',
     fl_asXpath = flag vs ''asXpath'', fl_configOnly = flag vs ''configOnly'', fl_stateOnly = flag vs ''stateOnly'',
     fl_pathItems = strs vs ''pathItems'', fl_schemaFiles = strs vs ''schemaFiles'', fl_schemaDirs = strs vs ''schemaDirs'',
     fl_schemaExcludes = strs vs ''schemaExcludes'', fl_format = str vs ''format''\<rparr>"

definition cmdFlags :: "vars \<Rightarrow> flags" where
  "cmdFlags given = flagsOf (setVars given)"

definition clientOf :: "vars \<Rightarrow> client" where
  "clientOf vs = \<lparr>cl_Key = flagKey (flagsOf vs), cl_Files = strs vs ''schemaFiles'', cl_Dirs = strs vs ''schemaDirs'',
     cl_Excludes = strs vs ''schemaExcludes'', cl_Size = num vs ''uploadSize'', cl_Hash = str vs ''hashMethod''\<rparr>"

text \<open>Every command starts with the defaults its own flags announce, except \<open>bench\<close>: it shares its variable with
  \<open>get\<close>, whose \<open>init\<close> runs later, so the path it starts from is empty instead of \<open>/\<close>. Both are the path
  of the root. No command has two flags of one name or one letter.\<close>

theorem flag_defaults:
  "list_all (\<lambda>r. map_of initVars (rg_var r) = (if r \<in> set init_bench then Some (FStr []) else Some (rg_default r))) registrations \<and>
   ParsePath [] = ParsePath ''/'' \<and>
   list_all (\<lambda>c. distinct (map rg_flag (visible c)) \<and> distinct (filter (\<lambda>s. s \<noteq> []) (map rg_short (visible c))))
     (map rg_command registrations)"
proof (intro conjI)
  show "ParsePath [] = ParsePath ''/''" by code_simp
qed (code_simp+)

section \<open>One invocation\<close>

text \<open>What the program calls: the parser of the arguments, which yields the variables they set; the dial with
  address, time limit and size limit; the local files; and the stream of an upload, which the handler of the
  server turns into its result.\<close>

record 's cli_env =
  cli_parse :: "registration list \<Rightarrow> string list \<Rightarrow> vars res"
  cli_dial :: "string \<Rightarrow> int \<Rightarrow> int \<Rightarrow> unit res"
  cli_files :: client_env
  cli_upload :: "'s \<Rightarrow> upload_msg list \<Rightarrow> 's \<times> gerr option"
  cli_turns :: "turn list"

definition createSchemaClient :: "'s cli_env \<Rightarrow> vars \<Rightarrow> unit res" where
  "createSchemaClient D vs = cli_dial D (str vs ''addr'') (num vs ''timeout'') (num vs ''maxRcvMsg'')"

text \<open>What is printed: a message as text or as JSON, the elements of a path, a listing, the count of \<open>bench\<close>.\<close>

datatype printout = NoPrint | ProtoText reply | JsonText reply | Elements "schema_elem option list" | Listing list_output | Queried nat

type_synonym outcome = "printout \<times> unit run"

abbreviation failed :: "gerr \<Rightarrow> outcome" where
  "failed err \<equiv> (NoPrint, Some (Inl err))"

text \<open>A command with one request: it builds the request, connects and calls. Where building can fail it comes
  before the connection in the source as well.\<close>

definition unaryCmd :: "'s cli_env \<Rightarrow> 's store_iface \<Rightarrow> vars \<Rightarrow> 's \<Rightarrow> rpc res \<Rightarrow> (reply \<Rightarrow> printout) \<Rightarrow> 's \<times> outcome" where
  "unaryCmd D I vs s req print =
     (case rbind req (\<lambda>q. rbind (createSchemaClient D vs) (\<lambda>_. Inr q)) of
        Inl err \<Rightarrow> (s, failed err)
      | Inr q \<Rightarrow>
          (case serve I s q of
             (s', None) \<Rightarrow> (s', NoPrint, None)
           | (s', Some (Inl err)) \<Rightarrow> (s', failed err)
           | (s', Some (Inr rsp)) \<Rightarrow> (s', print rsp, Some (Inr ()))))"

definition getCmd :: "'s cli_env \<Rightarrow> 's store_iface \<Rightarrow> vars \<Rightarrow> 's \<Rightarrow> 's \<times> outcome" where
  "getCmd D I vs s =
     (if flag vs ''all''
      then (case rbind (ParsePath (str vs ''xpath'')) (\<lambda>_. createSchemaClient D vs) of
          Inl err \<Rightarrow> (s, failed err)
        | Inr _ \<Rightarrow> (let (s', out, r) = schemaGetAllCmd I s (cli_turns D) (flagsOf vs) in (s', Elements out, r)))
      else unaryCmd D I vs s (schemaGetCmd (flagsOf vs)) (if str vs ''format'' = ''json'' then JsonText else ProtoText))"

definition listCmd :: "'s cli_env \<Rightarrow> 's store_iface \<Rightarrow> vars \<Rightarrow> 's \<Rightarrow> 's \<times> outcome" where
  "listCmd D I vs s = unaryCmd D I vs s (Inr ListSchemaRequest)
     (\<lambda>rsp. case rsp of ListSchemaResponse ks \<Rightarrow> Listing (schemaListCmd (flagsOf vs) ks) | _ \<Rightarrow> NoPrint)"

text \<open>The queries of \<open>bench\<close>: the answers of the server in one state; what they put into a cache of the server is
  left out. An answer that does not come is the error of the time limit.\<close>

definition askGet :: "'s store_iface \<Rightarrow> 's \<Rightarrow> get_req \<Rightarrow> schema_elem res" where
  "askGet I s q = (case snd (i_GetSchema I s q) of None \<Rightarrow> Inl (Errorf ''context deadline exceeded'' []) | Some r \<Rightarrow> r)"

definition benchCmd :: "nat \<Rightarrow> 's cli_env \<Rightarrow> vars \<Rightarrow> (get_req \<Rightarrow> schema_elem res) \<Rightarrow> outcome" where
  "benchCmd n D vs get =
     (case rbind (ParsePath (str vs ''xpath'')) (\<lambda>_. createSchemaClient D vs) of
        Inl err \<Rightarrow> failed err
      | Inr _ \<Rightarrow>
          (case schemaBenchCmd n (flagsOf vs) get of
             None \<Rightarrow> (NoPrint, None)
           | Some (Inl err) \<Rightarrow> failed err
           | Some (Inr i) \<Rightarrow> (Queried i, Some (Inr ()))))"

text \<open>\<open>upload\<close>: the digest is tested before the connection. A sender that is blocked sends no finalize, and then
  neither side ends.\<close>

definition uploadCmd :: "nat \<Rightarrow> 's cli_env \<Rightarrow> vars \<Rightarrow> 's \<Rightarrow> 's \<times> outcome" where
  "uploadCmd n D vs s =
     (if \<not> knownHash (clientOf vs) then (s, failed (Errorf ''unknown hash method %q'' [str vs ''hashMethod'']))
      else
        (case createSchemaClient D vs of
           Inl err \<Rightarrow> (s, failed err)
         | Inr _ \<Rightarrow>
             (case schemaUpload n (cli_files D) (clientOf vs) of
                None \<Rightarrow> (s, NoPrint, None)
              | Some (Inl err) \<Rightarrow> (s, failed err)
              | Some (Inr msgs) \<Rightarrow>
                  if last msgs \<noteq> MFinalize then (s, NoPrint, None)
                  else (let (s', rcvr) = cli_upload D s msgs in (s', NoPrint, Some (uploadWait (FromSender None) rcvr))))))"

datatype command = CBench | CCreate | CDelete | CExpandPath | CGet | CList | CReload | CToPath | CUpload

definition use :: "command \<Rightarrow> string" where
  "use c = (case c of CBench \<Rightarrow> ''bench'' | CCreate \<Rightarrow> ''create'' | CDelete \<Rightarrow> ''delete'' | CExpandPath \<Rightarrow> ''expand-path'' | CGet \<Rightarrow> ''get''
     | CList \<Rightarrow> ''list'' | CReload \<Rightarrow> ''reload'' | CToPath \<Rightarrow> ''to-path'' | CUpload \<Rightarrow> ''upload'')"

definition RunE :: "nat \<Rightarrow> 's cli_env \<Rightarrow> 's store_iface \<Rightarrow> command \<Rightarrow> vars \<Rightarrow> 's \<Rightarrow> 's \<times> outcome" where
  "RunE n D I c vs s =
     (let fl = flagsOf vs in
      case c of
        CBench \<Rightarrow> (s, benchCmd n D vs (askGet I s))
      | CCreate \<Rightarrow> unaryCmd D I vs s (schemaCreateCmd fl) ProtoText
      | CDelete \<Rightarrow> unaryCmd D I vs s (deleteCmd fl) ProtoText
      | CExpandPath \<Rightarrow> unaryCmd D I vs s (schemaExpandPathCmd fl) ProtoText
      | CGet \<Rightarrow> getCmd D I vs s
      | CList \<Rightarrow> listCmd D I vs s
      | CReload \<Rightarrow> unaryCmd D I vs s (schemaReloadCmd fl) ProtoText
      | CToPath \<Rightarrow> unaryCmd D I vs s (schemaToPathCmd fl) ProtoText
      | CUpload \<Rightarrow> uploadCmd n D vs s)"

text \<open>The whole program: the \<open>init\<close> functions have run, cobra reads the arguments of the command and runs it, and
  \<open>Execute\<close> exits.\<close>

definition schemac :: "nat \<Rightarrow> 's cli_env \<Rightarrow> 's store_iface \<Rightarrow> command \<Rightarrow> string list \<Rightarrow> 's \<Rightarrow>
    's \<times> printout \<times> int option" where
  "schemac n D I c args s =
     (case cli_parse D (visible (use c)) args of
        Inl err \<Rightarrow> (s, NoPrint, Some (Execute (Inl err)))
      | Inr given \<Rightarrow>
          (let (s', out, r) = RunE n D I c (setVars given) s in
           (s', out, map_option Execute r)))"

section \<open>Sessions\<close>

text \<open>Without a server every command ends with status 1, prints nothing and changes nothing.\<close>

lemma schemac_offline:
  assumes "\<And>a t m. \<exists>err. cli_dial D a t m = Inl err"
  shows "schemac n D I c args s = (s, NoPrint, Some 1)"
proof -
  have "\<exists>err. createSchemaClient D vs = Inl err" for vs using assms by (simp add: createSchemaClient_def)
  then obtain e where e: "createSchemaClient D vs = Inl (e vs)" for vs by metis
  have u: "\<exists>err. unaryCmd D I vs s req p = (s, failed err)" for vs req p
    by (cases req) (simp_all add: unaryCmd_def e)
  have p: "\<exists>err. rbind (ParsePath x) (\<lambda>_. createSchemaClient D vs) = Inl err" for x vs
    by (cases "ParsePath x") (simp_all add: e)
  have "\<exists>err. RunE n D I c vs s = (s, failed err)" for vs
  proof (cases c)
    case CGet
    then show ?thesis using u p [of "str vs ''xpath''" vs] by (auto simp: RunE_def getCmd_def Let_def)
  next
    case CBench
    then show ?thesis using p [of "str vs ''xpath''" vs] by (auto simp: RunE_def benchCmd_def Let_def)
  next
    case CUpload
    then show ?thesis by (simp add: RunE_def uploadCmd_def Let_def e)
  qed (use u in \<open>simp_all add: RunE_def listCmd_def Let_def\<close>)
  then obtain r where r: "RunE n D I c vs s = (s, failed (r vs))" for vs by metis
  show ?thesis by (cases "cli_parse D (visible (use c)) args") (simp_all add: schemac_def Execute_def r)
qed

lemma schemac_unary:
  assumes "cli_parse D (visible (use c)) args = Inr given" "createSchemaClient D (setVars given) = Inr ()"
    and "RunE n D I c (setVars given) s = unaryCmd D I (setVars given) s req p" "runCmd I s req = (s', r)"
  shows "schemac n D I c args s =
    (case r of None \<Rightarrow> (s', NoPrint, None) | Some (Inl err) \<Rightarrow> (s', NoPrint, Some 1) | Some (Inr rsp) \<Rightarrow> (s', p rsp, Some 0))"
proof (cases req)
  case (Inl err)
  with assms(4) have "s' = s" "r = Some (Inl err)" by (simp_all add: runCmd_def)
  with assms(1,3) Inl show ?thesis by (simp add: schemac_def Execute_def unaryCmd_def)
next
  case (Inr q)
  with assms(4) have "serve I s q = (s', r)" by (simp add: runCmd_def)
  with assms(1-3) Inr show ?thesis
    by (cases r rule: run_cases) (simp_all add: schemac_def Execute_def unaryCmd_def)
qed

text \<open>C14: a session of the client, from the arguments of its commands to the store and back. \<open>create\<close>, \<open>get\<close> and
  \<open>delete\<close> are run with arguments that name one key and the server is reached. If the server does not know the
  key and the files load, then \<open>create\<close> ends with status 0 and a second one with status 1; \<open>get\<close> with the
  text of a path prints the message of exactly that node and ends with status 0, or ends with status 1 when
  there is none; after \<open>delete\<close> the same \<open>get\<close> fails and the store is as it was before.\<close>

theorem cli_session:
  assumes "cli_parse D (visible ''create'') ca = Inr cg" "cli_parse D (visible ''get'') ga = Inr gg"
      "cli_parse D (visible ''delete'') da = Inr dg"
    and "\<And>a t m. cli_dial D a t m = Inr ()"
    and "flagKey (cmdFlags gg) = flagKey (cmdFlags cg)" "flagKey (cmdFlags dg) = flagKey (cmdFlags cg)"
    and "mem_abs ms (flagKey (cmdFlags cg)) = None" "fl_schemaVendor (cmdFlags cg) \<noteq> []" "fl_schemaVersion (cmdFlags cg) \<noteq> []"
    and "NewSchema F L Y \<lparr>cfg_Name = fl_schemaName (cmdFlags cg), cfg_Vendor = fl_schemaVendor (cmdFlags cg), cfg_Version = fl_schemaVersion (cmdFlags cg),
      cfg_Files = fl_schemaFiles (cmdFlags cg), cfg_Directories = fl_schemaDirs (cmdFlags cg), cfg_Excludes = fl_schemaExcludes (cmdFlags cg)\<rparr> = Inr sc"
    and "\<not> flag (setVars gg) ''all''" "fl_format (cmdFlags gg) \<noteq> ''json''"
    and "fl_xpath (cmdFlags gg) = slash # renderPath p" "list_all elemOk (p_Elem p)" "p_Origin p = []" "p_Target p = []"
  shows "\<exists>s1 s2. schemac n D (memIface n F L Y) CCreate ca ms = (s1, ProtoText DoneResponse, Some 0) \<and>
    schemac n D (memIface n F L Y) CCreate ca s1 = (s1, NoPrint, Some 1) \<and>
    schemac n D (memIface n F L Y) CGet ga s1 =
      (case (case GetEntry Y sc (map pe_Name (p_Elem p)) of
               Inl err \<Rightarrow> Some (Inl err) | Inr e \<Rightarrow> SchemaElemFromYEntry n Y sc e (fl_withDesc (cmdFlags gg))) of
         None \<Rightarrow> (s1, NoPrint, None)
       | Some (Inl err) \<Rightarrow> (s1, NoPrint, Some 1)
       | Some (Inr se) \<Rightarrow> (s1, ProtoText (GetSchemaResponse se), Some 0)) \<and>
    schemac n D (memIface n F L Y) CDelete da s1 = (s2, ProtoText DoneResponse, Some 0) \<and>
    schemac n D (memIface n F L Y) CGet ga s2 = (s2, NoPrint, Some 1) \<and> mem_abs s2 = mem_abs ms"
proof -
  define I where "I = memIface n F L Y"
  define fl where "fl = (cmdFlags cg)\<lparr>fl_xpath := fl_xpath (cmdFlags gg), fl_withDesc := fl_withDesc (cmdFlags gg)\<rparr>"
  let ?look = "case GetEntry Y sc (map pe_Name (p_Elem p)) of
     Inl err \<Rightarrow> Some (Inl err) | Inr e \<Rightarrow> SchemaElemFromYEntry n Y sc e (fl_withDesc (cmdFlags gg))"
  have reqs: "schemaCreateCmd fl = schemaCreateCmd (cmdFlags cg)" "schemaGetCmd fl = schemaGetCmd (cmdFlags gg)"
      "deleteCmd fl = deleteCmd (cmdFlags dg)"
    using assms(5,6) by (simp_all add: schemaCreateCmd_def schemaGetCmd_def deleteCmd_def flagKey_def fl_def)
  have wd: "fl_withDesc fl = fl_withDesc (cmdFlags gg)" by (simp add: fl_def)
  have f: "mem_abs ms (flagKey fl) = None" "fl_schemaVendor fl \<noteq> []" "fl_schemaVersion fl \<noteq> []" "fl_xpath fl = slash # renderPath p"
    "NewSchema F L Y \<lparr>cfg_Name = fl_schemaName fl, cfg_Vendor = fl_schemaVendor fl, cfg_Version = fl_schemaVersion fl,
      cfg_Files = fl_schemaFiles fl, cfg_Directories = fl_schemaDirs fl, cfg_Excludes = fl_schemaExcludes fl\<rparr> = Inr sc"
    using assms(7-10,13) by (simp_all add: fl_def flagKey_def)
  note client_session [OF f(1-3,5,4) assms(14-16), of n, folded I_def, unfolded wd]
  then obtain s1 s2 err err' where r: "runCmd I ms (schemaCreateCmd (cmdFlags cg)) = (s1, Some (Inr DoneResponse))"
    "runCmd I s1 (schemaCreateCmd (cmdFlags cg)) = (s1, Some (Inl err))"
    "runCmd I s1 (schemaGetCmd (cmdFlags gg)) = (s1, map_option (map_sum id GetSchemaResponse) ?look)"
    "runCmd I s1 (deleteCmd (cmdFlags dg)) = (s2, Some (Inr DoneResponse))"
    "runCmd I s2 (schemaGetCmd (cmdFlags gg)) = (s2, Some (Inl err'))" "mem_abs s2 = mem_abs ms" unfolding reqs by blast
  have dial: "createSchemaClient D vs = Inr ()" for vs by (simp add: createSchemaClient_def assms(4))
  have run: "RunE n D I CCreate (setVars cg) s = unaryCmd D I (setVars cg) s (schemaCreateCmd (cmdFlags cg)) ProtoText"
    "RunE n D I CDelete (setVars dg) s = unaryCmd D I (setVars dg) s (deleteCmd (cmdFlags dg)) ProtoText"
    "RunE n D I CGet (setVars gg) s = unaryCmd D I (setVars gg) s (schemaGetCmd (cmdFlags gg)) ProtoText" for s
    using assms(11,12) by (simp_all add: RunE_def getCmd_def cmdFlags_def Let_def flagsOf_def)
  have u: "use CCreate = ''create''" "use CGet = ''get''" "use CDelete = ''delete''" by (simp_all add: use_def)
  note c = schemac_unary [where c = CCreate, unfolded u, OF assms(1) dial run(1)]
  note g = schemac_unary [where c = CGet, unfolded u, OF assms(2) dial run(3)]
  note d = schemac_unary [where c = CDelete, unfolded u, OF assms(3) dial run(2)]
  have "schemac n D I CGet ga s1 = (case ?look of None \<Rightarrow> (s1, NoPrint, None) | Some (Inl err) \<Rightarrow> (s1, NoPrint, Some 1)
       | Some (Inr se) \<Rightarrow> (s1, ProtoText (GetSchemaResponse se), Some 0))"
    unfolding g [OF r(3)] by (cases ?look rule: run_cases) simp_all
  with c [OF r(1)] c [OF r(2)] d [OF r(4)] g [OF r(5)] r(6) show ?thesis
    unfolding I_def [symmetric] by (intro exI [of _ s1] exI [of _ s2]) simp
qed

text \<open>A reader of arguments \<open>--flag value\<close>, and a server that is always reached.\<close>

fun fxParse :: "registration list \<Rightarrow> string list \<Rightarrow> vars res" where
  "fxParse regs (f # v # rest) =
     (case find (\<lambda>r. ''--'' @ rg_flag r = f) regs of
        None \<Rightarrow> Inl (Errorf ''unknown flag'' [f])
      | Some r \<Rightarrow> rbind (fxParse regs rest) (\<lambda>given. Inr ((rg_var r, (case rg_default r of FStrs _ \<Rightarrow> FStrs [v] | _ \<Rightarrow> FStr v)) # given)))"
| "fxParse regs _ = Inr []"

definition fxCli :: "memStore cli_env" where
  "fxCli = \<lparr>cli_parse = fxParse, cli_dial = (\<lambda>a t m. Inr ()), cli_files = fxEnv, cli_upload = (\<lambda>s ms. (s, None)), cli_turns = []\<rparr>"

definition fxKeyArgs :: "string list" where
  "fxKeyArgs = [''--name'', ''lrc'', ''--vendor'', ''test'', ''--version'', ''0.0.0'']"

abbreviation fxGiven :: "string \<Rightarrow> string list \<Rightarrow> vars" where
  "fxGiven c args \<equiv> (case fxParse (visible c) args of Inl _ \<Rightarrow> [] | Inr given \<Rightarrow> given)"

theorem cli_session_witness:
  "\<exists>s1 s2 se. schemac 2 fxCli (memIface 2 fxOs fxLoader kindApi) CCreate (fxKeyArgs @ [''--file'', ''/y'']) mem_New =
       (s1, ProtoText DoneResponse, Some 0) \<and>
     schemac 2 fxCli (memIface 2 fxOs fxLoader kindApi) CGet (fxKeyArgs @ [''--path'', ''/host'']) s1 =
       (s1, ProtoText (GetSchemaResponse se), Some 0) \<and>
     schemac 2 fxCli (memIface 2 fxOs fxLoader kindApi) CDelete fxKeyArgs s1 = (s2, ProtoText DoneResponse, Some 0) \<and>
     schemac 2 fxCli (memIface 2 fxOs fxLoader kindApi) CGet (fxKeyArgs @ [''--path'', ''/host'']) s2 = (s2, NoPrint, Some 1)"
proof -
  let ?ca = "fxKeyArgs @ [''--file'', ''/y'']" and ?ga = "fxKeyArgs @ [''--path'', ''/host'']"
  let ?cg = "fxGiven ''create'' ?ca" and ?gg = "fxGiven ''get'' ?ga" and ?dg = "fxGiven ''delete'' fxKeyArgs"
  let ?n = "NewSchema fxOs fxLoader kindApi \<lparr>cfg_Name = fl_schemaName (cmdFlags ?cg), cfg_Vendor = fl_schemaVendor (cmdFlags ?cg),
      cfg_Version = fl_schemaVersion (cmdFlags ?cg), cfg_Files = fl_schemaFiles (cmdFlags ?cg),
      cfg_Directories = fl_schemaDirs (cmdFlags ?cg), cfg_Excludes = fl_schemaExcludes (cmdFlags ?cg)\<rparr>"
  let ?p = "\<lparr>p_Origin = [], p_Target = [], p_Elem = [\<lparr>pe_Name = ''host'', pe_Key = []\<rparr>]\<rparr>"
  let ?get = "\<lambda>sc. case GetEntry kindApi sc [''host''] of Inl err \<Rightarrow> Some (Inl err) | Inr e \<Rightarrow> SchemaElemFromYEntry 2 kindApi sc e False"
  have parse: "fxParse (visible ''create'') ?ca = Inr ?cg" "fxParse (visible ''get'') ?ga = Inr ?gg"
    "fxParse (visible ''delete'') fxKeyArgs = Inr ?dg" by code_simp+
  have p: "cli_parse fxCli (visible ''create'') ?ca = Inr ?cg" "cli_parse fxCli (visible ''get'') ?ga = Inr ?gg"
    "cli_parse fxCli (visible ''delete'') fxKeyArgs = Inr ?dg" "\<And>a t m. cli_dial fxCli a t m = Inr ()"
    using parse by (simp_all add: fxCli_def)
  have k: "flagKey (cmdFlags ?gg) = flagKey (cmdFlags ?cg)" "flagKey (cmdFlags ?dg) = flagKey (cmdFlags ?cg)"
    "fl_schemaVendor (cmdFlags ?cg) \<noteq> []" "fl_schemaVersion (cmdFlags ?cg) \<noteq> []"
    by code_simp+
  have g: "\<not> flag (setVars ?gg) ''all''" "fl_format (cmdFlags ?gg) \<noteq> ''json''" "fl_xpath (cmdFlags ?gg) = slash # renderPath ?p"
    "list_all elemOk (p_Elem ?p)" "fl_withDesc (cmdFlags ?gg) = False" by code_simp+
  have "map_sum (\<lambda>_. ()) (\<lambda>sc. map_option (map_sum (\<lambda>_. ()) (\<lambda>_. ())) (?get sc)) ?n = Inr (Some (Inr ()))" by code_simp
  then obtain sc where sc: "?n = Inr sc" "map_option (map_sum (\<lambda>_. ()) (\<lambda>_. ())) (?get sc) = Some (Inr ())" by (cases ?n) auto
  from sc(2) obtain se where se: "?get sc = Some (Inr se)" by (cases "?get sc" rule: run_cases) auto
  have "mem_abs mem_New (flagKey (cmdFlags ?cg)) = None" by (simp add: mem_abs_def mem_New_def)
  from cli_session [where n = 2, OF p k(1,2) this k(3,4) sc(1) g(1-4), simplified, unfolded g(5) se]
  show ?thesis by auto
qed

end
