(* ===== verification/Process.thy ===== *)
theory Process
  imports Server Rpc
begin

text \<open>
  \<open>main.go\<close>, and \<open>Serve\<close>, \<open>ServeHTTP\<close> and \<open>Stop\<close> of \<open>pkg/server/server.go\<close>: the life of the process.

  The process reads its configuration, opens a server and serves. When \<open>Serve\<close> returns an error it
  stops the server and starts again. The state keeps what outlives one server: the databases that
  are open, the garbage collectors that run, the metrics servers, the installed signal handlers
  and the flag they set. A step is an event of the environment: the configuration file is read, the
  listener opens or not, a request comes in, \<open>Serve\<close> returns, a signal arrives.
\<close>

section \<open>The store behind the interface\<close>

text \<open>The field \<open>schemaStore\<close> holds one of the two implementations; a call goes to the one it holds.\<close>

definition dispatch :: "'a store_iface \<Rightarrow> 'b store_iface \<Rightarrow> ('a + 'b) store_iface" where
  "dispatch I J = \<lparr>
     i_IsReadOnly = case_sum (i_IsReadOnly I) (i_IsReadOnly J),
     i_HasSchema = case_sum (i_HasSchema I) (i_HasSchema J),
     i_ListSchema = case_sum (i_ListSchema I) (i_ListSchema J),
     i_GetSchemaDetails = case_sum (i_GetSchemaDetails I) (i_GetSchemaDetails J),
     i_CreateSchema = case_sum (\<lambda>s q. apfst Inl (i_CreateSchema I s q)) (\<lambda>s q. apfst Inr (i_CreateSchema J s q)),
     i_ReloadSchema = case_sum (\<lambda>s q. apfst Inl (i_ReloadSchema I s q)) (\<lambda>s q. apfst Inr (i_ReloadSchema J s q)),
     i_DeleteSchema = case_sum (\<lambda>s q. apfst Inl (i_DeleteSchema I s q)) (\<lambda>s q. apfst Inr (i_DeleteSchema J s q)),
     i_AddSchema = case_sum (\<lambda>s q. apfst Inl (i_AddSchema I s q)) (\<lambda>s q. apfst Inr (i_AddSchema J s q)),
     i_GetSchema = case_sum (\<lambda>s q. apfst Inl (i_GetSchema I s q)) (\<lambda>s q. apfst Inr (i_GetSchema J s q)),
     i_GetSchemaElements = case_sum (\<lambda>s q. apfst Inl (i_GetSchemaElements I s q)) (\<lambda>s q. apfst Inr (i_GetSchemaElements J s q)),
     i_ToPath = case_sum (\<lambda>s q. apfst Inl (i_ToPath I s q)) (\<lambda>s q. apfst Inr (i_ToPath J s q)),
     i_ExpandPath = case_sum (\<lambda>s q. apfst Inl (i_ExpandPath I s q)) (\<lambda>s q. apfst Inr (i_ExpandPath J s q))\<rparr>"

lemma serve_dispatch:
  "serve (dispatch I J) (Inl m) q = apfst Inl (serve I m q)"
  "serve (dispatch I J) (Inr p) q = apfst Inr (serve J p q)"
  by (cases q; auto simp: dispatch_def apfst_def apsnd_def map_prod_def split: prod.splits)+

text \<open>What the process uses of its environment: the yaml decoder and the JSON printer, \<open>badger.Open\<close>,
  which sees the databases the process has open, the cache, the certificates, and what the stores use.\<close>

record ('d, 'b, 'c) main_env =
  me_unmarshal :: "string \<Rightarrow> config res"
  me_marshal :: "config \<Rightarrow> unit res"
  me_badgerOpen :: "(string \<times> bool) list \<Rightarrow> string \<Rightarrow> bool \<Rightarrow> 'd res"
  me_ttlcacheNew :: "int \<Rightarrow> 64 word \<Rightarrow> 'c"
  me_readFile :: "string \<Rightarrow> string res"
  me_certwatcherNew :: "string \<Rightarrow> string \<Rightarrow> unit res"
  me_fuel :: nat
  me_os :: os_env
  me_loader :: loader
  me_yang :: yang_api
  me_backend :: "('d, 'b, 'c) backend"

type_synonym ('d, 'c) Store = "memStore + ('d, 'c) persistStore"

definition storeIface :: "('d, 'b, 'c) main_env \<Rightarrow> ('d, 'c) Store store_iface" where
  "storeIface E = dispatch (memIface (me_fuel E) (me_os E) (me_loader E) (me_yang E))
     (psIface (me_fuel E) (me_os E) (me_loader E) (me_yang E) (me_backend E))"

text \<open>A recursion that does not end overflows the stack, which no code recovers from.\<close>

definition store_AddSchema :: "('d, 'b, 'c) main_env \<Rightarrow> ('d, 'c) Store \<Rightarrow> schema \<Rightarrow> ('d, 'c) Store res" where
  "store_AddSchema E s sc =
     (case i_AddSchema (storeIface E) s sc of
        (s', None) \<Rightarrow> Inl (GoPanic ''stack overflow'')
      | (s', Some (Inl err)) \<Rightarrow> Inl err
      | (s', Some (Inr _)) \<Rightarrow> Inr s')"

definition isPanic :: "gerr \<Rightarrow> bool" where
  "isPanic err = (case err of GoPanic _ \<Rightarrow> True | _ \<Rightarrow> False)"

definition openPersist :: "('d, 'b, 'c) main_env \<Rightarrow> (string \<times> bool) list \<Rightarrow> store_config \<Rightarrow> ('d, 'c) Store res" where
  "openPersist E db st =
     rbind (ps_New (me_badgerOpen E db) (me_ttlcacheNew E) (sto_Path st) (sto_Cache st) (sto_ReadOnly st)) (\<lambda>s. Inr (Inr s))"

definition newServer :: "('d, 'b, 'c) main_env \<Rightarrow> (string \<times> bool) list \<Rightarrow> config \<Rightarrow> ('d, 'c) Store res" where
  "newServer E db c =
     NewServer (openPersist E db) (Inl mem_New) (i_ListSchema (storeIface E)) (i_HasSchema (storeIface E))
       (store_AddSchema E) (NewSchema (me_os E) (me_loader E) (me_yang E))
       (\<lambda>t. rbind (tls_NewConfig (me_readFile E) (me_certwatcherNew E) t) (\<lambda>_. Inr ())) c"

text \<open>A panic in a goroutine that loads a schema ends the process.\<close>

primrec loadPanics :: "('s \<Rightarrow> schema_key \<Rightarrow> bool) \<Rightarrow> ('s \<Rightarrow> schema \<Rightarrow> 's res) \<Rightarrow> (schema_config \<Rightarrow> schema res) \<Rightarrow>
    schema_config list \<Rightarrow> 's \<Rightarrow> bool" where
  "loadPanics has add new [] s = False"
| "loadPanics has add new (c # cs) s =
     (\<not> has s (cfgKey c) \<and>
        (case new c of
           Inl err \<Rightarrow> isPanic err
         | Inr sc \<Rightarrow> (case add s sc of Inl err \<Rightarrow> isPanic err | Inr _ \<Rightarrow> False)) \<or>
      loadPanics has add new cs (loadOne has add new c s))"

definition startPanics :: "('d, 'b, 'c) main_env \<Rightarrow> (string \<times> bool) list \<Rightarrow> config \<Rightarrow> bool" where
  "startPanics E db c =
     (case c_SchemaStore c of
        None \<Rightarrow> True
      | Some st \<Rightarrow>
          (case (if sto_Type st = StoreTypePersistent then openPersist E db st else Inr (Inl mem_New)) of
             Inl _ \<Rightarrow> False
           | Inr s \<Rightarrow> loadPanics (i_HasSchema (storeIface E)) (store_AddSchema E)
               (NewSchema (me_os E) (me_loader E) (me_yang E)) (sto_Schemas st) s))"

section \<open>The process\<close>

text \<open>\<open>Ready\<close> is the point where \<open>Serve\<close> is called, \<open>Exited n\<close> the end with a status (a return from
  \<open>main\<close> has status 0), \<open>Crashed\<close> the end by a panic, \<open>Killed\<close> the end by a signal without a handler.\<close>

datatype 's phase = Boot | Ready config 's | Serving config 's | Exited int | Crashed | Killed

record 's proc =
  pr_phase :: "'s phase"
  pr_server :: bool
  pr_open :: "(string \<times> bool) list"
  pr_gc :: "(string \<times> bool) list"
  pr_metrics :: "string list"
  pr_handlers :: nat
  pr_stop :: bool

definition ended :: "'s proc \<Rightarrow> bool" where
  "ended p = (case pr_phase p of Exited _ \<Rightarrow> True | Crashed \<Rightarrow> True | Killed \<Rightarrow> True | _ \<Rightarrow> False)"

definition main_init :: "bool \<Rightarrow> 's proc" where
  "main_init versionFlag = \<lparr>pr_phase = (if versionFlag then Exited 0 else Boot), pr_server = False, pr_open = [],
     pr_gc = [], pr_metrics = [], pr_handlers = 0, pr_stop = False\<rparr>"

text \<open>\<open>Stop\<close> stops the gRPC server, which has returned already, and cancels the context of the server, on
  which only the garbage collection of the database waits. It does not close the store.\<close>

definition srv_Stop :: "'s proc \<Rightarrow> 's proc" where
  "srv_Stop p = p\<lparr>pr_gc := []\<rparr>"

text \<open>\<open>Close\<close> of the two stores, which nothing calls. Stopping the cache and closing the database are calls into
  ttlcache and badger; the cache is nil where none is configured.\<close>

definition mem_Close :: "memStore \<Rightarrow> unit res" where
  "mem_Close s = Inr ()"

definition ps_Close :: "('c option \<Rightarrow> unit res) \<Rightarrow> ('d \<Rightarrow> unit res) \<Rightarrow> ('d, 'c) persistStore \<Rightarrow> unit res" where
  "ps_Close cacheStop dbClose s = rbind (cacheStop (ps_cache s)) (\<lambda>_. dbClose (ps_db s))"

definition setupCloseHandler :: "'s proc \<Rightarrow> 's proc" where
  "setupCloseHandler p = p\<lparr>pr_handlers := Suc (pr_handlers p)\<rparr>"

text \<open>The database a successful \<open>openDB\<close> leaves open, with its collector.\<close>

definition openDB :: "config \<Rightarrow> 's proc \<Rightarrow> 's proc" where
  "openDB c p =
     (case c_SchemaStore c of
        None \<Rightarrow> p
      | Some st \<Rightarrow>
          if sto_Type st = StoreTypePersistent
          then p\<lparr>pr_open := (sto_Path st, sto_ReadOnly st) # pr_open p, pr_gc := (sto_Path st, sto_ReadOnly st) # pr_gc p\<rparr>
          else p)"

text \<open>From the label \<open>START\<close> to the call of \<open>Serve\<close>; \<open>b\<close> is the content of the configuration file.\<close>

definition startServer :: "('d, 'b, 'c) main_env \<Rightarrow> string res \<Rightarrow> ('d, 'c) Store proc \<Rightarrow> ('d, 'c) Store proc" where
  "startServer E b p0 =
     (let p = (if pr_server p0 then srv_Stop p0 else p0) in
      case config_New (\<lambda>_. b) (me_unmarshal E) ''schema-server.yaml'' of
        Inl _ \<Rightarrow> p\<lparr>pr_phase := Exited 1\<rparr>
      | Inr cfg \<Rightarrow>
          (case me_marshal E cfg of
             Inl _ \<Rightarrow> p\<lparr>pr_phase := Exited 1\<rparr>
           | Inr _ \<Rightarrow>
               (case newServer E (pr_open p) cfg of
                  Inl err \<Rightarrow> p\<lparr>pr_phase := (if isPanic err then Crashed else Exited 1)\<rparr>
                | Inr s \<Rightarrow>
                    if startPanics E (pr_open p) cfg then p\<lparr>pr_phase := Crashed\<rparr>
                    else setupCloseHandler ((openDB cfg p)\<lparr>pr_phase := Ready cfg s, pr_server := True\<rparr>))))"

text \<open>What \<open>main\<close> does when \<open>Serve\<close> returns. \<open>Boot\<close> is the label \<open>START\<close>.\<close>

definition afterServe :: "gerr option \<Rightarrow> 's proc \<Rightarrow> 's proc" where
  "afterServe r p =
     (case r of
        None \<Rightarrow> p\<lparr>pr_phase := Exited 0\<rparr>
      | Some err \<Rightarrow> if pr_stop p then p\<lparr>pr_phase := Exited 0\<rparr> else p\<lparr>pr_phase := Boot\<rparr>)"

text \<open>The metrics server listens until the process ends. It fails, and the failure is only logged, when the
  address is taken: by another process (\<open>busy\<close>) or by an earlier metrics server of this one.\<close>

definition ServeHTTP :: "bool \<Rightarrow> string \<Rightarrow> 's proc \<Rightarrow> 's proc" where
  "ServeHTTP busy a p = (if busy \<or> a \<in> set (pr_metrics p) then p else p\<lparr>pr_metrics := a # pr_metrics p\<rparr>)"

definition Serve :: "gerr option \<Rightarrow> bool \<Rightarrow> config \<Rightarrow> 's \<Rightarrow> 's proc \<Rightarrow> 's proc" where
  "Serve listenErr busy c s p =
     (case listenErr of
        Some err \<Rightarrow> afterServe (Some err) p
      | None \<Rightarrow>
          (let p1 = (case c_Prometheus c of None \<Rightarrow> p | Some a \<Rightarrow> ServeHTTP busy a p) in
           p1\<lparr>pr_phase := Serving c s\<rparr>))"

text \<open>A handler that panics takes the process with it: gRPC does not recover.\<close>

definition requestPhase :: "config \<Rightarrow> 's \<times> reply run \<Rightarrow> 's phase" where
  "requestPhase c r =
     (case snd r of
        None \<Rightarrow> Crashed
      | Some (Inl err) \<Rightarrow> (if isPanic err then Crashed else Serving c (fst r))
      | Some (Inr _) \<Rightarrow> Serving c (fst r))"

text \<open>A signal reaches every installed handler. The first one that has slept ends the process; the context
  they cancel is not used by \<open>Serve\<close>.\<close>

definition onSignal :: "'s proc \<Rightarrow> 's proc" where
  "onSignal p = (if pr_handlers p = 0 then p\<lparr>pr_phase := Killed\<rparr> else p\<lparr>pr_stop := True\<rparr>)"

datatype event =
    ReadConfig "string res"
  | Listen "gerr option" bool
  | Request rpc
  | ServeReturns "gerr option"
  | Signal
  | HandlerExit

inductive main_step :: "('d, 'b, 'c) main_env \<Rightarrow> ('d, 'c) Store proc \<Rightarrow> event \<Rightarrow> ('d, 'c) Store proc \<Rightarrow> bool" for E where
  start: "pr_phase p = Boot \<Longrightarrow> main_step E p (ReadConfig b) (startServer E b p)"
| listen: "pr_phase p = Ready c s \<Longrightarrow> main_step E p (Listen r busy) (Serve r busy c s p)"
| request: "pr_phase p = Serving c s \<Longrightarrow>
    main_step E p (Request q) (p\<lparr>pr_phase := requestPhase c (serve (storeIface E) s q)\<rparr>)"
| served: "pr_phase p = Serving c s \<Longrightarrow> main_step E p (ServeReturns r) (afterServe r p)"
| signal: "\<not> ended p \<Longrightarrow> main_step E p Signal (onSignal p)"
| handler: "\<not> ended p \<Longrightarrow> pr_stop p \<Longrightarrow> main_step E p HandlerExit (p\<lparr>pr_phase := Exited 0\<rparr>)"

inductive_cases startE: "main_step E p (ReadConfig b) q"
inductive_cases listenE: "main_step E p (Listen r busy) q"
inductive_cases servedE: "main_step E p (ServeReturns r) q"

inductive main_run :: "('d, 'b, 'c) main_env \<Rightarrow> ('d, 'c) Store proc \<Rightarrow> event list \<Rightarrow> ('d, 'c) Store proc \<Rightarrow> bool" for E where
  idle: "main_run E p [] p"
| step: "main_run E p evs q \<Longrightarrow> main_step E q ev r \<Longrightarrow> main_run E p (evs @ [ev]) r"


section \<open>The kind of store a server has\<close>

lemma isl_add: "store_AddSchema E s sc = Inr s' \<Longrightarrow> isl s' = isl s"
  by (cases s) (auto simp: store_AddSchema_def storeIface_def dispatch_def apfst_def map_prod_def split: prod.splits option.splits sum.splits)

lemma isl_load: "isl (fold (loadOne has (store_AddSchema E) new) cs s) = isl s"
proof (induction cs arbitrary: s)
  case (Cons c cs)
  have "isl (loadOne has (store_AddSchema E) new c s) = isl s"
    by (auto simp: loadOne_def isl_add split: sum.splits)
  with Cons.IH show ?case by simp
qed simp

lemma isl_serve: "isl (fst (serve (storeIface E) s q)) = isl s"
  by (cases s) (simp_all add: storeIface_def serve_dispatch)

lemma requestPhase_serving: "requestPhase c r = Serving c' s \<longleftrightarrow> c' = c \<and> s = fst r \<and> requestPhase c r \<noteq> Crashed"
  by (auto simp: requestPhase_def split: option.splits sum.splits)

lemma NewServer_opened:
  assumes "NewServer openP memNew listSchema has add new tlsNew c = Inr s"
  shows "\<exists>st s0. c_SchemaStore c = Some st \<and> s = fold (loadOne has add new) (sto_Schemas st) s0 \<and>
    (if sto_Type st = StoreTypePersistent then openP st else Inr memNew) = Inr s0 \<and>
    sto_Type st \<in> {StoreTypePersistent, StoreTypeMemory}"
proof (cases "c_SchemaStore c")
  case (Some st)
  show ?thesis
  proof (cases "c_GRPCServer c")
    case (Some g)
    from assms \<open>c_SchemaStore c = Some st\<close> Some obtain s0 where
      "s = fold (loadOne has add new) (sto_Schemas st) s0"
      "(if sto_Type st = StoreTypePersistent then openP st else if sto_Type st = StoreTypeMemory then Inr memNew
        else Inl (Errorf ''unknown schema store type %q'' [sto_Type st])) = Inr s0"
      unfolding NewServer_def by force
    with \<open>c_SchemaStore c = Some st\<close> show ?thesis by (auto split: if_splits)
  qed (use assms Some in \<open>simp add: NewServer_def\<close>)
qed (use assms in \<open>simp add: NewServer_def\<close>)

lemma newServer_kind:
  assumes "newServer E db c = Inr s"
  shows "\<exists>st. c_SchemaStore c = Some st \<and>
    (if isl s then sto_Type st = StoreTypeMemory
     else sto_Type st = StoreTypePersistent \<and> (\<exists>d. me_badgerOpen E db (sto_Path st) (sto_ReadOnly st) = Inr d))"
proof -
  from NewServer_opened [OF assms [unfolded newServer_def]] obtain st s0 where st: "c_SchemaStore c = Some st"
    "(if sto_Type st = StoreTypePersistent then openPersist E db st else Inr (Inl mem_New)) = Inr s0"
    "sto_Type st \<in> {StoreTypePersistent, StoreTypeMemory}" "isl s = isl s0"
    using isl_load by blast
  then show ?thesis
    by (intro exI [of _ st]) (auto simp: openPersist_def ps_New_def split: if_splits)
qed

text \<open>Opening an in-memory server does not depend on the databases that are open.\<close>

lemma newServer_memory:
  assumes "c_SchemaStore c = Some st" "sto_Type st = StoreTypeMemory"
  shows "newServer E db c = newServer E db' c \<and> startPanics E db c = startPanics E db' c"
  using assms by (simp add: newServer_def NewServer_def startPanics_def StoreTypeMemory_def StoreTypePersistent_def)

lemma load_memory:
  "fold (loadOne (i_HasSchema (storeIface E)) (store_AddSchema E) new) cs (Inl m) =
   Inl (fold (loadOne mem_HasSchema mem_AddSchema new) cs m)"
proof (induction cs arbitrary: m)
  case (Cons c cs)
  have "loadOne (i_HasSchema (storeIface E)) (store_AddSchema E) new c (Inl m) = Inl (loadOne mem_HasSchema mem_AddSchema new c m)"
    by (simp add: loadOne_def store_AddSchema_def storeIface_def dispatch_def memIface_def written_def lift_def
        split: sum.splits)
  with Cons.IH show ?case by simp
qed simp

lemma newServer_memory_has:
  assumes "newServer E db c = Inr s" "isl s" "c_SchemaStore c = Some st"
  shows "\<exists>m. s = Inl m \<and> (\<forall>k. mem_HasSchema m k \<longleftrightarrow>
    (\<exists>sc\<in>set (sto_Schemas st). cfgKey sc = k \<and> loadable (NewSchema (me_os E) (me_loader E) (me_yang E)) sc))"
proof -
  from newServer_kind [OF assms(1)] assms(2,3) have t: "sto_Type st = StoreTypeMemory" by auto
  let ?new = "NewSchema (me_os E) (me_loader E) (me_yang E)"
  have "s = Inl (fold (loadOne mem_HasSchema mem_AddSchema ?new) (sto_Schemas st) mem_New)"
    using NewServer_opened [OF assms(1) [unfolded newServer_def]] assms(3) t
    by (auto simp: load_memory StoreTypeMemory_def StoreTypePersistent_def)
  moreover have "\<not> mem_HasSchema mem_New k" for k by (simp add: mem_HasSchema_def mem_New_def)
  ultimately show ?thesis
    using mem_total.run_has [OF fold_loadOne_run [of mem_HasSchema mem_AddSchema ?new mem_New "sto_Schemas st"] keyedLoad_NewSchema]
    by auto
qed


section \<open>What every reachable state satisfies\<close>

text \<open>The server that runs was started from its configuration, and a persistent store that was opened stays
  open; garbage is collected only in open databases.\<close>

definition startable :: "('d, 'b, 'c) main_env \<Rightarrow> (string \<times> bool) list \<Rightarrow> config \<Rightarrow> ('d, 'c) Store \<Rightarrow> bool" where
  "startable E db c s \<longleftrightarrow> me_marshal E c = Inr () \<and>
     (\<exists>db0 s0. newServer E db0 c = Inr s0 \<and> \<not> startPanics E db0 c \<and> isl s0 = isl s) \<and>
     (isl s \<or> (\<exists>st. c_SchemaStore c = Some st \<and> (sto_Path st, sto_ReadOnly st) \<in> set db))"

definition procOk :: "('d, 'b, 'c) main_env \<Rightarrow> ('d, 'c) Store proc \<Rightarrow> bool" where
  "procOk E p \<longleftrightarrow> set (pr_gc p) \<subseteq> set (pr_open p) \<and>
     (case pr_phase p of
        Ready c s \<Rightarrow> pr_server p \<and> pr_handlers p > 0 \<and> startable E (pr_open p) c s
      | Serving c s \<Rightarrow> pr_server p \<and> pr_handlers p > 0 \<and> startable E (pr_open p) c s
      | _ \<Rightarrow> True)"

lemma procOk_init: "procOk E (main_init v)"
  by (simp add: procOk_def main_init_def)

lemma procOk_afterServe: "procOk E p \<Longrightarrow> procOk E (afterServe r p)"
  by (auto simp: procOk_def afterServe_def split: option.splits)

lemma procOk_startServer:
  assumes "procOk E p0"
  shows "procOk E (startServer E b p0)"
proof -
  define p where "p = (if pr_server p0 then srv_Stop p0 else p0)"
  have gc: "set (pr_gc p) \<subseteq> set (pr_open p)" using assms by (simp add: p_def srv_Stop_def procOk_def)
  have up: "procOk E (setupCloseHandler ((openDB cfg p)\<lparr>pr_phase := Ready cfg s, pr_server := True\<rparr>))"
    if "newServer E (pr_open p) cfg = Inr s" "\<not> startPanics E (pr_open p) cfg" "me_marshal E cfg = Inr x" for cfg s x
  proof -
    from newServer_kind [OF that(1)] obtain st where st: "c_SchemaStore cfg = Some st"
      "if isl s then sto_Type st = StoreTypeMemory else sto_Type st = StoreTypePersistent" by (auto split: if_splits)
    then have "startable E (pr_open (openDB cfg p)) cfg s"
      using that by (auto simp: startable_def openDB_def split: if_splits)
    then show ?thesis using gc st by (auto simp: procOk_def setupCloseHandler_def openDB_def)
  qed
  show ?thesis
    using gc up unfolding startServer_def Let_def p_def [symmetric]
    by (auto simp: procOk_def split: sum.splits)
qed

lemma procOk_step: "main_step E p ev q \<Longrightarrow> procOk E p \<Longrightarrow> procOk E q"
proof (induction rule: main_step.induct)
  case (listen p c s r busy)
  then show ?case
    by (auto simp: procOk_def Serve_def ServeHTTP_def afterServe_def Let_def split: option.splits)
next
  case (request p c s q)
  then show ?case
    using isl_serve [of E s q]
    by (auto simp: procOk_def requestPhase_def startable_def split: option.splits sum.splits)
next
  case (signal p)
  then show ?case by (auto simp: procOk_def onSignal_def split: phase.splits)
qed (simp_all add: procOk_startServer procOk_afterServe, simp add: procOk_def)

lemma procOk_run: "main_run E p evs q \<Longrightarrow> procOk E p \<Longrightarrow> procOk E q"
  by (induction rule: main_run.induct) (auto intro: procOk_step)

text \<open>Nothing closes a database.\<close>

lemma open_startServer: "set (pr_open p) \<subseteq> set (pr_open (startServer E b p))"
  by (auto simp: startServer_def Let_def srv_Stop_def setupCloseHandler_def openDB_def split: sum.splits option.splits)

lemma open_step: "main_step E p ev q \<Longrightarrow> set (pr_open p) \<subseteq> set (pr_open q)"
  by (induction rule: main_step.induct)
    (auto simp: open_startServer [THEN subsetD] Serve_def ServeHTTP_def afterServe_def onSignal_def Let_def split: option.splits)

lemma open_run: "main_run E p evs q \<Longrightarrow> set (pr_open p) \<subseteq> set (pr_open q)"
  by (induction rule: main_run.induct) (auto dest: open_step)


section \<open>Restart\<close>

text \<open>Badger locks the directory of a database that is open for writing: a second \<open>Open\<close> of it fails, also
  within the process.\<close>

definition dirLock :: "('d, 'b, 'c) main_env \<Rightarrow> bool" where
  "dirLock E \<longleftrightarrow> (\<forall>db path ro. (path, False) \<in> set db \<longrightarrow>
     (\<exists>err. me_badgerOpen E db path ro = Inl err \<and> \<not> isPanic err))"

lemma startServer_locked:
  assumes "dirLock E" "config_New (\<lambda>_. b) (me_unmarshal E) ''schema-server.yaml'' = Inr c" "me_marshal E c = Inr ()"
    and "c_SchemaStore c = Some st" "sto_Type st = StoreTypePersistent" "(sto_Path st, False) \<in> set (pr_open p)"
  shows "pr_phase (startServer E b p) = Exited 1"
proof -
  define q where "q = (if pr_server p then srv_Stop p else p)"
  have o: "pr_open q = pr_open p" by (simp add: q_def srv_Stop_def)
  obtain err where "me_badgerOpen E (pr_open p) (sto_Path st) (sto_ReadOnly st) = Inl err" "\<not> isPanic err"
    using assms(1,6) unfolding dirLock_def by blast
  then have "newServer E (pr_open p) c = Inl err" "\<not> isPanic err"
    using assms(4,5) by (simp_all add: newServer_def NewServer_def openPersist_def ps_New_def)
  then show ?thesis
    using assms(2,3) unfolding startServer_def Let_def q_def [symmetric] by (simp add: o)
qed

lemma startServer_memory:
  assumes "config_New (\<lambda>_. b) (me_unmarshal E) ''schema-server.yaml'' = Inr c" "startable E db c (Inl m)"
    and "c_SchemaStore c = Some st"
  shows "\<exists>m'. pr_phase (startServer E b p) = Ready c (Inl m') \<and> (\<forall>k. mem_HasSchema m' k \<longleftrightarrow>
    (\<exists>sc\<in>set (sto_Schemas st). cfgKey sc = k \<and> loadable (NewSchema (me_os E) (me_loader E) (me_yang E)) sc))"
proof -
  define q where "q = (if pr_server p then srv_Stop p else p)"
  from assms(2) obtain db0 s0 where s0: "newServer E db0 c = Inr s0" "\<not> startPanics E db0 c" "isl s0"
    and mar: "me_marshal E c = Inr ()" by (auto simp: startable_def)
  from newServer_kind [OF s0(1)] s0(3) assms(3) have t: "sto_Type st = StoreTypeMemory" by auto
  from newServer_memory [OF assms(3) t, of E "pr_open q" db0] s0
  have n: "newServer E (pr_open q) c = Inr s0" "\<not> startPanics E (pr_open q) c" by simp_all
  have "pr_phase (startServer E b p) = Ready c s0"
    using assms(1) mar n unfolding startServer_def Let_def q_def [symmetric]
    by (simp add: setupCloseHandler_def)
  with newServer_memory_has [OF s0(1,3) assms(3)] show ?thesis by auto
qed

text \<open>C9: after a failed \<open>Serve\<close> the process comes back only with the in-memory store. Let \<open>Serve\<close> fail in a
  reachable process before any signal, be it that the port is taken or that serving ends with an error, and let
  the same configuration be read again. With the
  in-memory store the process is ready to serve again and knows exactly the configured schemas that load;
  those created by requests are gone. With a writable persistent store it exits with status 1, since
  \<open>Stop\<close> leaves the database open and its directory locked.\<close>

theorem restart_after_failure:
  assumes "dirLock E" "main_run E (main_init False) evs p" "\<not> pr_stop p"
    and "pr_phase p = Ready c s \<and> main_step E p (Listen (Some err) busy) p1 \<or>
      pr_phase p = Serving c s \<and> main_step E p (ServeReturns (Some err)) p1"
    and "main_step E p1 (ReadConfig b) p2"
    and "config_New (\<lambda>_. b) (me_unmarshal E) ''schema-server.yaml'' = Inr c"
  shows "pr_phase p1 = Boot \<and> pr_open p1 = pr_open p \<and>
    (\<exists>st. c_SchemaStore c = Some st \<and>
      (case s of
         Inl m \<Rightarrow> \<exists>m'. pr_phase p2 = Ready c (Inl m') \<and> (\<forall>k. mem_HasSchema m' k \<longleftrightarrow>
           (\<exists>sc\<in>set (sto_Schemas st). cfgKey sc = k \<and> loadable (NewSchema (me_os E) (me_loader E) (me_yang E)) sc))
       | Inr ps \<Rightarrow> sto_ReadOnly st \<or> pr_phase p2 = Exited 1))"
proof -
  have p1: "p1 = p\<lparr>pr_phase := Boot\<rparr>"
    using assms(4) by (auto simp: afterServe_def Serve_def assms(3) elim: servedE listenE)
  have p2: "p2 = startServer E b p1" using assms(5) by (rule startE) simp
  have ok: "startable E (pr_open p) c s"
    using procOk_run [OF assms(2) procOk_init] assms(4) by (auto simp: procOk_def)
  then obtain db0 s0 where "newServer E db0 c = Inr s0" "isl s0 = isl s" "me_marshal E c = Inr ()"
    by (auto simp: startable_def)
  with newServer_kind [of E db0 c s0] obtain st where st: "c_SchemaStore c = Some st"
    "if isl s then sto_Type st = StoreTypeMemory else sto_Type st = StoreTypePersistent" "me_marshal E c = Inr ()"
    by (auto split: if_splits)
  show ?thesis
  proof (cases s)
    case (Inl m)
    then show ?thesis using startServer_memory [OF assms(6) _ st(1), of "pr_open p" m p1] ok st(1) p1 p2 by simp
  next
    case (Inr ps)
    have "sto_ReadOnly st \<or> pr_phase p2 = Exited 1"
      using startServer_locked [OF assms(1,6) st(3,1), of p1] ok st p1 p2 Inr by (cases "sto_ReadOnly st") (auto simp: startable_def)
    then show ?thesis using st(1) p1 Inr by simp
  qed
qed


text \<open>An environment in which the content of the configuration file is the store type.\<close>

definition fxMain :: "(fx_db, fx_value, fx_cache) main_env" where
  "fxMain = \<lparr>me_unmarshal = (\<lambda>b. Inr \<lparr>c_GRPCServer = None, c_SchemaStore = Some \<lparr>sto_Type = b, sto_Path = ''/db'',
       sto_Cache = None, sto_Schemas = (if b = ''memory'' then [fxConfig] else []), sto_ReadOnly = False\<rparr>, c_Prometheus = Some '':9090''\<rparr>),
     me_marshal = (\<lambda>_. Inr ()),
     me_badgerOpen = (\<lambda>db p ro. if (p, False) \<in> set db then Inl (Errorf ''Cannot acquire directory lock'' []) else Inr []),
     me_ttlcacheNew = (\<lambda>_ _. []), me_readFile = (\<lambda>_. Inr []), me_certwatcherNew = (\<lambda>_ _. Inr ()), me_fuel = 10,
     me_os = fxOs, me_loader = fxLoader, me_yang = kindApi, me_backend = fxBackend\<rparr>"

definition fxCfg :: "string \<Rightarrow> config" where
  "fxCfg b = \<lparr>c_GRPCServer = Some (grpcDefaults zeroGrpc), c_SchemaStore = Some \<lparr>sto_Type = b, sto_Path = ''/db'',
       sto_Cache = None, sto_Schemas = (if b = ''memory'' then [fxConfig] else []), sto_ReadOnly = False\<rparr>, c_Prometheus = Some '':9090''\<rparr>"

lemma fxCfg_read: "config_New (\<lambda>_. Inr b) (me_unmarshal fxMain) ''schema-server.yaml'' = Inr (fxCfg b)"
  by (simp add: config_New_def fxMain_def fxCfg_def validateSetDefaults_def Let_def schema_validateSetDefaults_def fxConfig_def)

lemma fxMain_lock: "dirLock fxMain"
  by (simp add: dirLock_def fxMain_def isPanic_def)

lemma fxMain_persistent:
  "newServer fxMain [] (fxCfg ''persistent'') = Inr (Inr \<lparr>ps_cacheWithDescription = False, ps_readOnly = False, ps_db = [], ps_cache = None\<rparr>)"
  "\<not> startPanics fxMain [] (fxCfg ''persistent'')"
  by (simp_all add: newServer_def NewServer_def fxCfg_def fxMain_def openPersist_def ps_New_def StoreTypePersistent_def
      storeIface_def dispatch_def psIface_def grpcDefaults_def zeroGrpc_def startPanics_def)

lemma fxMain_memory:
  "\<exists>m. newServer fxMain [] (fxCfg ''memory'') = Inr (Inl m)" "\<not> startPanics fxMain [] (fxCfg ''memory'')"
proof -
  have "loadable (NewSchema fxOs fxLoader kindApi) fxConfig" by code_simp
  then obtain sc where "NewSchema fxOs fxLoader kindApi fxConfig = Inr sc" by (auto simp: loadable_def split: sum.splits)
  then show "\<exists>m. newServer fxMain [] (fxCfg ''memory'') = Inr (Inl m)" "\<not> startPanics fxMain [] (fxCfg ''memory'')"
    by (simp_all add: newServer_def NewServer_def fxCfg_def fxMain_def StoreTypePersistent_def StoreTypeMemory_def
      storeIface_def dispatch_def memIface_def grpcDefaults_def zeroGrpc_def startPanics_def load_memory
      store_AddSchema_def written_def lift_def mem_AddSchema_def loadOne_def)
qed

text \<open>From the start to a failed \<open>Serve\<close> and the next reading of the file.\<close>

lemma fx_run:
  assumes "newServer fxMain [] (fxCfg b) = Inr s" "\<not> startPanics fxMain [] (fxCfg b)"
  shows "\<exists>evs p p1 p2. main_run fxMain (main_init False) evs p \<and> pr_phase p = Serving (fxCfg b) s \<and> \<not> pr_stop p \<and>
    main_step fxMain p (ServeReturns (Some err)) p1 \<and> main_step fxMain p1 (ReadConfig (Inr b)) p2"
proof -
  define p0 where "p0 = startServer fxMain (Inr b) (main_init False)"
  define p where "p = Serve None False (fxCfg b) s p0"
  have r: "main_step fxMain (main_init False) (ReadConfig (Inr b)) p0"
    unfolding p0_def by (rule main_step.start) (simp add: main_init_def)
  have mar: "me_marshal fxMain (fxCfg b) = Inr ()" by (simp add: fxMain_def)
  have p0: "pr_phase p0 = Ready (fxCfg b) s" "\<not> pr_stop p0"
    using assms mar by (simp_all add: p0_def startServer_def main_init_def fxCfg_read setupCloseHandler_def openDB_def Let_def split: option.splits)
  have "main_step fxMain p0 (Listen None False) p" unfolding p_def by (rule main_step.listen) (rule p0)
  with r have run: "main_run fxMain (main_init False) (([] @ [ReadConfig (Inr b)]) @ [Listen None False]) p"
    by (metis main_run.step main_run.idle)
  have p: "pr_phase p = Serving (fxCfg b) s" "\<not> pr_stop p"
    using p0 by (simp_all add: p_def Serve_def ServeHTTP_def Let_def split: option.splits)
  have "main_step fxMain p (ServeReturns (Some err)) (afterServe (Some err) p)" using p(1) by (rule main_step.served)
  moreover have "main_step fxMain (afterServe (Some err) p) (ReadConfig (Inr b)) (startServer fxMain (Inr b) (afterServe (Some err) p))"
    by (rule main_step.start) (simp add: afterServe_def p(2))
  ultimately show ?thesis using run p by blast
qed

theorem restart_after_failure_witness:
  "(\<exists>evs p m p1 p2 m'. main_run fxMain (main_init False) evs p \<and> pr_phase p = Serving (fxCfg ''memory'') (Inl m) \<and>
      main_step fxMain p (ServeReturns (Some errKeyNotFound)) p1 \<and> main_step fxMain p1 (ReadConfig (Inr ''memory'')) p2 \<and>
      pr_phase p2 = Ready (fxCfg ''memory'') (Inl m') \<and> mem_HasSchema m' (cfgKey fxConfig)) \<and>
   (\<exists>evs p ps p1 p2. main_run fxMain (main_init False) evs p \<and> pr_phase p = Serving (fxCfg ''persistent'') (Inr ps) \<and>
      main_step fxMain p (ServeReturns (Some errKeyNotFound)) p1 \<and> main_step fxMain p1 (ReadConfig (Inr ''persistent'')) p2 \<and>
      pr_phase p2 = Exited 1)"
proof
  obtain m where "newServer fxMain [] (fxCfg ''memory'') = Inr (Inl m)" using fxMain_memory(1) by blast
  from fx_run [OF this fxMain_memory(2), of errKeyNotFound] obtain evs p p1 p2 where
    r: "main_run fxMain (main_init False) evs p" "pr_phase p = Serving (fxCfg ''memory'') (Inl m)" "\<not> pr_stop p"
      "main_step fxMain p (ServeReturns (Some errKeyNotFound)) p1" "main_step fxMain p1 (ReadConfig (Inr ''memory'')) p2"
    by blast
  have l: "loadable (NewSchema fxOs fxLoader kindApi) fxConfig" by code_simp
  from restart_after_failure [OF fxMain_lock r(1,3) disjI2 [OF conjI [OF r(2,4)]] r(5) fxCfg_read] l r
  show "\<exists>evs p m p1 p2 m'. main_run fxMain (main_init False) evs p \<and> pr_phase p = Serving (fxCfg ''memory'') (Inl m) \<and>
      main_step fxMain p (ServeReturns (Some errKeyNotFound)) p1 \<and> main_step fxMain p1 (ReadConfig (Inr ''memory'')) p2 \<and>
      pr_phase p2 = Ready (fxCfg ''memory'') (Inl m') \<and> mem_HasSchema m' (cfgKey fxConfig)"
    by (fastforce simp: fxCfg_def fxMain_def)
next
  from fx_run [OF fxMain_persistent, of errKeyNotFound] obtain evs p ps p1 p2 where
    r: "main_run fxMain (main_init False) evs p" "pr_phase p = Serving (fxCfg ''persistent'') (Inr ps)" "\<not> pr_stop p"
      "main_step fxMain p (ServeReturns (Some errKeyNotFound)) p1" "main_step fxMain p1 (ReadConfig (Inr ''persistent'')) p2"
    by blast
  from restart_after_failure [OF fxMain_lock r(1,3) disjI2 [OF conjI [OF r(2,4)]] r(5) fxCfg_read] have "pr_phase p2 = Exited 1" by (simp add: fxCfg_def)
  with r show "\<exists>evs p ps p1 p2. main_run fxMain (main_init False) evs p \<and> pr_phase p = Serving (fxCfg ''persistent'') (Inr ps) \<and>
      main_step fxMain p (ServeReturns (Some errKeyNotFound)) p1 \<and> main_step fxMain p1 (ReadConfig (Inr ''persistent'')) p2 \<and>
      pr_phase p2 = Exited 1" by blast
qed

section \<open>Requests that end the process\<close>

text \<open>C37: a client can end the server. When the process serves from the persistent store and a
  \<open>ToPath\<close> request names a list of a schema in it, followed by some but not all values of its keys, the
  handler reads past the end of the request, nothing recovers the panic, and no step is left to the
  process: it serves no other request and does not restart.\<close>

theorem partial_keys_crash_process:
  assumes "pr_phase p = Serving c (Inr ps)" "tp_Schema req = Some sck" "ps_HasSchema (me_backend E) ps sck"
    and "tp_PathElement req = n # v # vs"
    and "snd (ps_getSchema (me_backend E) ps (Some \<lparr>p_Origin = [], p_Target = [], p_Elem = [\<lparr>pe_Name = n, pe_Key = []\<rparr>]\<rparr>) False sck) =
      Inr (Container con)"
    and "length (n # v # vs) \<le> length (c_Keys con)"
  shows "main_step E p (Request (ToPathRequest req)) (p\<lparr>pr_phase := Crashed\<rparr>) \<and>
    (\<forall>ev q. \<not> main_step E (p\<lparr>pr_phase := Crashed\<rparr>) ev q)"
proof
  obtain x where "snd (ps_ToPath (me_backend E) ps req) = Inl (GoPanic x)"
    using ps_ToPath_partial_keys_panics [OF assms(2-6)] by blast
  then have "requestPhase c (serve (storeIface E) (Inr ps) (ToPathRequest req)) = Crashed"
    unfolding storeIface_def serve_dispatch by (simp add: psIface_def requestPhase_def isPanic_def lift_def)
  then show "main_step E p (Request (ToPathRequest req)) (p\<lparr>pr_phase := Crashed\<rparr>)"
    using main_step.request [OF assms(1), of E "ToPathRequest req"] by simp
  show "\<forall>ev q. \<not> main_step E (p\<lparr>pr_phase := Crashed\<rparr>) ev q"
    by (auto simp: ended_def elim!: main_step.cases)
qed

theorem partial_keys_crash_process_witness:
  "\<exists>ps. ps_HasSchema fxBackend ps (Key fxSchema3) \<and>
    main_step fxMain ((main_init False)\<lparr>pr_phase := Serving (fxCfg ''persistent'') (Inr ps)\<rparr>)
      (Request (ToPathRequest \<lparr>tp_Schema = Some (Key fxSchema3), tp_PathElement = [''l'', ''1'']\<rparr>))
      ((main_init False)\<lparr>pr_phase := Crashed\<rparr>)"
proof -
  obtain s con where s: "ps_HasSchema fxBackend s (Key fxSchema3)"
    "snd (ps_getSchema fxBackend s (Some \<lparr>p_Origin = [], p_Target = [], p_Elem = [\<lparr>pe_Name = ''l'', pe_Key = []\<rparr>]\<rparr>) False (Key fxSchema3)) =
       Inr (Container con)" and k: "map l_Name (c_Keys con) = [''z'', ''a'']" using fxSchema3_stored by (elim exE conjE) (rule that)
  from k have l: "length (c_Keys con) = 2" by (metis length_map length_Cons list.size(3) numeral_2_eq_2)
  have B: "me_backend fxMain = fxBackend" by (simp add: fxMain_def)
  let ?p = "(main_init False)\<lparr>pr_phase := Serving (fxCfg ''persistent'') (Inr s)\<rparr>"
  have "main_step fxMain ?p (Request (ToPathRequest \<lparr>tp_Schema = Some (Key fxSchema3), tp_PathElement = [''l'', ''1'']\<rparr>))
      (?p\<lparr>pr_phase := Crashed\<rparr>)"
    by (rule partial_keys_crash_process [THEN conjunct1, of _ "fxCfg ''persistent''" s _ "Key fxSchema3" _ "''l''" "''1''" "[]" con])
      (simp_all add: B s l)
  with s(1) show ?thesis by (intro exI [of _ s]) simp
qed

end
