(* ===== verification/PersistBatch.thy ===== *)
theory PersistBatch
  imports StoresAgree
begin

text \<open>
  What badger does behind the store: it splits write batches and collects garbage.

  The write batch of \<open>AddSchema\<close>: a batch that is too large for one transaction is committed in several, one
  after the other: a crash, or an error of a later pair, then leaves the pairs of the first transactions in the
  database. The theory relates every way to split the batch, and every place where it breaks off, to the
  write in one piece of \<open>ps_AddSchema\<close>. The collector is the goroutine \<open>openDB\<close> starts.
\<close>

section \<open>The batch\<close>

text \<open>The pairs of \<open>AddSchema\<close> in the order in which they are set: the entries, then the catalogue entry.\<close>

definition addBatch :: "nat \<Rightarrow> yang_api \<Rightarrow> ('d, 'b, 'c) backend \<Rightarrow> schema \<Rightarrow> (string \<times> 'b) list run" where
  "addBatch n Y B sc =
     obind (lift (GetEntry Y sc [])) (\<lambda>e.
     obind (addSchemaElem n Y B sc [] e) (\<lambda>wb.
       lift (addSchema B wb (Key sc)
         [(''files'', sc_Files sc), (''directories'', sc_Dirs sc), (''excludes'', sc_Excludes sc)])))"

lemma ps_AddSchema_batch:
  "ps_AddSchema n Y B s sc =
   obind (addBatch n Y B sc) (\<lambda>wb. obind (lift (kv_flush B (ps_db s) wb)) (\<lambda>db. Some (Inr (s\<lparr>ps_db := db\<rparr>, Reset sc))))"
proof (cases "GetEntry Y sc []")
  case (Inr e)
  then show ?thesis
    by (cases "addSchemaElem n Y B sc [] e" rule: run_cases) (simp_all add: ps_AddSchema_def addBatch_def lift_def)
qed (simp add: ps_AddSchema_def addBatch_def lift_def)

text \<open>The transactions of a split batch.\<close>

definition commits :: "('d, 'b, 'c) backend \<Rightarrow> 'd \<Rightarrow> (string \<times> 'b) list list \<Rightarrow> 'd res" where
  "commits B d txns = rfold (kv_flush B) d txns"

lemma commits_get:
  "kv_ok B \<Longrightarrow> commits B d txns = Inr d' \<Longrightarrow>
   kv_get B d' k = (case map_of (rev (concat txns)) k of Some v \<Rightarrow> Some v | None \<Rightarrow> kv_get B d k)"
proof (induction txns arbitrary: d)
  case (Cons t ts)
  from Cons.prems(2) obtain d1 where d1: "kv_flush B d t = Inr d1" "commits B d1 ts = Inr d'" by (auto simp: commits_def)
  have "kv_get B d1 k = (case map_of (rev t) k of Some v \<Rightarrow> Some v | None \<Rightarrow> kv_get B d k)"
    using Cons.prems(1) d1(1) unfolding kv_ok_def by blast
  with Cons.IH [OF Cons.prems(1) d1(2)] show ?case by (simp add: map_add_def split: option.split)
qed (simp add: commits_def)

lemma entryPair_own: "entryPair n Y B sc x = Some (Inr kv) \<Longrightarrow> \<exists>p ps. fst kv = buildEntryKey (Key sc) p ps"
  by (cases kv) (auto simp: entryPair_def lift_def)

text \<open>Only the last pair is in the catalogue, all others are entries of the schema.\<close>

lemma addBatch_pairs:
  assumes "addBatch n Y B sc = Some (Inr wb)"
  shows "\<exists>kvs v. wb = kvs @ [(buildSchemaKey (Key sc), v)] \<and> (\<forall>kv\<in>set kvs. \<exists>p ps. fst kv = buildEntryKey (Key sc) p ps)"
proof -
  from assms obtain e kvs v where e: "addSchemaElem n Y B sc [] e = Some (Inr kvs)" "wb = kvs @ [(buildSchemaKey (Key sc), v)]"
    by (auto simp: addBatch_def addSchema_def lift_def)
  from ofold_pairs [OF e(1) [unfolded addSchemaElem_nodes]]
  have kvs: "list_all2 (\<lambda>x kv. entryPair n Y B sc x = Some (Inr kv)) (walkNodes Y e) kvs" by simp
  have "\<exists>p ps. fst kv = buildEntryKey (Key sc) p ps" if "kv \<in> set kvs" for kv
    using list_all2_in2 [OF kvs that] entryPair_own by blast
  with e(2) show ?thesis by blast
qed

lemma interrupted_pairs:
  assumes "addBatch n Y B sc = Some (Inr wb)" "wb = pre @ rest" "rest \<noteq> []" "kv \<in> set pre"
  shows "\<exists>p ps. fst kv = buildEntryKey (Key sc) p ps"
proof -
  from addBatch_pairs [OF assms(1)] obtain kvs v where
    w: "wb = kvs @ [(buildSchemaKey (Key sc), v)]" "\<forall>kv\<in>set kvs. \<exists>p ps. fst kv = buildEntryKey (Key sc) p ps" by blast
  from assms(2,3) have "butlast wb = pre @ butlast rest" by (simp add: butlast_append)
  with w(1) have "set pre \<subseteq> set kvs" by auto
  with w(2) assms(4) show ?thesis by blast
qed

section \<open>Requests see the database through its pairs\<close>

lemma ps_GetSchema_frame:
  assumes "\<And>x. ownKey (keyOf (gr_Schema q)) x \<Longrightarrow> kv_get B d' x = kv_get B d x"
  shows "snd (ps_GetSchema B (s\<lparr>ps_db := d'\<rparr>) q) = snd (ps_GetSchema B (s\<lparr>ps_db := d\<rparr>) q)"
proof -
  let ?k = "keyOf (gr_Schema q)"
  have e: "kv_get B d' (buildEntryKey ?k p ps) = kv_get B d (buildEntryKey ?k p ps)" for p ps
    using assms by (auto simp: ownKey_def)
  have h: "ps_HasSchema B (s\<lparr>ps_db := d'\<rparr>) ?k = ps_HasSchema B (s\<lparr>ps_db := d\<rparr>) ?k"
    using assms by (simp add: ps_HasSchema_def ownKey_def)
  have g: "getFromDB B d' ?k p ps = getFromDB B d ?k p ps" for p ps by (rule getFromDB_frame [OF e])
  show ?thesis unfolding ps_GetSchema_def ps_getSchema_def Let_def h
    by (simp add: e g split: option.split sum.split)
qed

lemma ps_ListSchema_frame:
  assumes "kv_ok B" "\<And>x. prefix [schemasPrefix] x \<Longrightarrow> kv_get B d' x = kv_get B d x"
  shows "set (ps_ListSchema B (s\<lparr>ps_db := d'\<rparr>)) = set (ps_ListSchema B (s\<lparr>ps_db := d\<rparr>))"
proof -
  have "set (kv_scan B d' [schemasPrefix]) = set (kv_scan B d [schemasPrefix])" using assms by (auto simp: kv_ok_def)
  then show ?thesis by (simp add: ps_ListSchema_def)
qed

definition sameAnswers :: "('d, 'b, 'c) backend \<Rightarrow> ('d, 'c) persistStore \<Rightarrow> ('d, 'c) persistStore \<Rightarrow> bool" where
  "sameAnswers B s s' \<longleftrightarrow>
     (\<forall>k. ps_HasSchema B s k = ps_HasSchema B s' k) \<and> set (ps_ListSchema B s) = set (ps_ListSchema B s') \<and>
     (\<forall>ko. ps_GetSchemaDetails B s ko = ps_GetSchemaDetails B s' ko) \<and> (\<forall>q. snd (ps_GetSchema B s q) = snd (ps_GetSchema B s' q))"

lemma same_reads:
  assumes "kv_ok B" "\<And>x. kv_get B d' x = kv_get B d x"
  shows "sameAnswers B (s\<lparr>ps_db := d'\<rparr>) (s\<lparr>ps_db := d\<rparr>)"
  using ps_ListSchema_frame [OF assms(1) assms(2), of s] ps_GetSchema_frame [where s = s and d = d and d' = d' and B = B, OF assms(2)]
  by (simp add: sameAnswers_def ps_HasSchema_def ps_GetSchemaDetails_def assms(2))

section \<open>Split batches\<close>

text \<open>C12: splitting the write batch of \<open>AddSchema\<close> loses nothing. Let the pairs be committed in any number of
  transactions and let the process end, or a transaction fail, after some of them. While a pair is missing, no
  reader sees a trace of the schema: the same schemas are known and listed, with the same details, and requests
  for a schema with another key are answered as before. When none is missing, every request is answered as
  after one write of the whole batch. And adding the schema again after an interruption leads to the same
  answers as if it had not been interrupted.\<close>

theorem ps_AddSchema_split:
  assumes "kv_ok B" "addBatch n Y B sc = Some (Inr (concat (committed @ pending)))" "commits B (ps_db s) committed = Inr d"
  shows "(concat pending \<noteq> [] \<longrightarrow>
       (\<forall>k. ps_HasSchema B (s\<lparr>ps_db := d\<rparr>) k = ps_HasSchema B s k) \<and>
       set (ps_ListSchema B (s\<lparr>ps_db := d\<rparr>)) = set (ps_ListSchema B s) \<and>
       (\<forall>ko. ps_GetSchemaDetails B (s\<lparr>ps_db := d\<rparr>) ko = ps_GetSchemaDetails B s ko) \<and>
       (\<forall>q. keyOf (gr_Schema q) \<noteq> Key sc \<longrightarrow> apart {Key sc, keyOf (gr_Schema q)} \<longrightarrow>
          snd (ps_GetSchema B (s\<lparr>ps_db := d\<rparr>) q) = snd (ps_GetSchema B s q))) \<and>
    (\<forall>s1 x1. ps_AddSchema n Y B s sc = Some (Inr (s1, x1)) \<longrightarrow>
       (concat pending = [] \<longrightarrow> sameAnswers B (s\<lparr>ps_db := d\<rparr>) s1) \<and>
       (\<forall>s2 x2. ps_AddSchema n Y B (s\<lparr>ps_db := d\<rparr>) sc = Some (Inr (s2, x2)) \<longrightarrow> sameAnswers B s2 s1))"
proof (intro conjI impI allI)
  let ?wb = "concat (committed @ pending)"
  note get = commits_get [OF assms(1,3)]
  have flush: "kv_get B d' x = (case map_of (rev wb) x of Some v \<Rightarrow> Some v | None \<Rightarrow> kv_get B d0 x)"
    if "kv_flush B d0 wb = Inr d'" for d0 d' wb x using assms(1) that unfolding kv_ok_def by blast
  {
    assume "concat pending \<noteq> []"
    then have own: "\<exists>p ps. fst kv = buildEntryKey (Key sc) p ps" if "kv \<in> set (concat committed)" for kv
      using interrupted_pairs [OF assms(2) _ _ that, of "concat pending"] by simp
    have same: "kv_get B d x = kv_get B (ps_db s) x" if "\<And>p ps. x \<noteq> buildEntryKey (Key sc) p ps" for x
    proof -
      have "map_of (rev (concat committed)) x = None" unfolding map_of_rev_None using own that by fastforce
      then show ?thesis using get [of x] by simp
    qed
    have cat: "kv_get B d x = kv_get B (ps_db s) x" if "prefix [schemasPrefix] x" for x
      by (rule same) (use that in \<open>auto simp: buildEntryKey_def schemaObjectsPrefix_def schemasPrefix_def\<close>)
    then have k: "kv_get B d (buildSchemaKey k) = kv_get B (ps_db s) (buildSchemaKey k)" for k
      by (simp add: buildSchemaKey_def)
    show "ps_HasSchema B (s\<lparr>ps_db := d\<rparr>) k = ps_HasSchema B s k" for k by (simp add: ps_HasSchema_def k)
    show "set (ps_ListSchema B (s\<lparr>ps_db := d\<rparr>)) = set (ps_ListSchema B s)"
      using ps_ListSchema_frame [OF assms(1) cat, of s] by simp
    show "ps_GetSchemaDetails B (s\<lparr>ps_db := d\<rparr>) ko = ps_GetSchemaDetails B s ko" for ko by (simp add: ps_GetSchemaDetails_def k)
    show "snd (ps_GetSchema B (s\<lparr>ps_db := d\<rparr>) q) = snd (ps_GetSchema B s q)"
      if "keyOf (gr_Schema q) \<noteq> Key sc" "apart {Key sc, keyOf (gr_Schema q)}" for q
    proof -
      have "kv_get B d x = kv_get B (ps_db s) x" if "ownKey (keyOf (gr_Schema q)) x" for x
        using same [of x] apartD(1) [OF \<open>apart _\<close> _ _ _ that, of "Key sc"] \<open>keyOf _ \<noteq> _\<close> by (auto simp: ownKey_def)
      from ps_GetSchema_frame [where s = s, OF this] show ?thesis by simp
    qed
  }
  fix s1 x1
  assume a: "ps_AddSchema n Y B s sc = Some (Inr (s1, x1))"
  then obtain d1 where d1: "kv_flush B (ps_db s) ?wb = Inr d1" "s1 = s\<lparr>ps_db := d1\<rparr>"
    by (auto simp: ps_AddSchema_batch assms(2) lift_def)
  show "sameAnswers B (s\<lparr>ps_db := d\<rparr>) s1" if "concat pending = []"
    unfolding d1(2) by (rule same_reads [OF assms(1)]) (use get flush [OF d1(1)] that in simp)
  show "sameAnswers B s2 s1" if "ps_AddSchema n Y B (s\<lparr>ps_db := d\<rparr>) sc = Some (Inr (s2, x2))" for s2 x2
  proof -
    from that obtain d2 where d2: "kv_flush B d ?wb = Inr d2" "s2 = s\<lparr>ps_db := d2\<rparr>"
      by (auto simp: ps_AddSchema_batch assms(2) lift_def)
    have "kv_get B d2 x = kv_get B d1 x" for x
    proof (cases "map_of (rev ?wb) x")
      case None
      then have "map_of (rev (concat committed)) x = None" by (simp only: map_of_rev_None) auto
      then have "kv_get B d x = kv_get B (ps_db s) x" using get [of x] by simp
      then show ?thesis unfolding flush [OF d1(1)] flush [OF d2(1)] None by simp
    next
      case (Some v)
      then show ?thesis unfolding flush [OF d1(1)] flush [OF d2(1)] by simp
    qed
    from same_reads [OF assms(1) this] show ?thesis unfolding d1(2) d2(2) .
  qed
qed

theorem ps_AddSchema_split_witness:
  "\<exists>wb d s1 x1 s2 x2. addBatch 2 kindApi fxBackend fxSchema = Some (Inr wb) \<and> 2 < length wb \<and>
     commits fxBackend (ps_db fxStore) [take 1 wb, take 1 (drop 1 wb)] = Inr d \<and> length d = 2 \<and>
     \<not> ps_HasSchema fxBackend (fxStore\<lparr>ps_db := d\<rparr>) (Key fxSchema) \<and>
     ps_AddSchema 2 kindApi fxBackend fxStore fxSchema = Some (Inr (s1, x1)) \<and>
     ps_AddSchema 2 kindApi fxBackend (fxStore\<lparr>ps_db := d\<rparr>) fxSchema = Some (Inr (s2, x2)) \<and> sameAnswers fxBackend s2 s1"
proof -
  have ok: "kv_ok fxBackend" using fxBackend_ok by (simp add: backend_ok_def)
  have "(case addBatch 2 kindApi fxBackend fxSchema of Some (Inr wb) \<Rightarrow> 2 < length wb | _ \<Rightarrow> False)" by code_simp
  then obtain wb where wb: "addBatch 2 kindApi fxBackend fxSchema = Some (Inr wb)" "2 < length wb"
    by (cases "addBatch 2 kindApi fxBackend fxSchema" rule: run_cases) auto
  let ?c = "[take 1 wb, take 1 (drop 1 wb)]" and ?d = "rev (take 2 wb)"
  have wb2: "take 2 wb = take 1 wb @ take 1 (drop 1 wb)" using take_add [of 1 1 wb] by (simp add: numeral_2_eq_2)
  have split: "addBatch 2 kindApi fxBackend fxSchema = Some (Inr (concat (?c @ [drop 2 wb])))"
    using wb(1) append_take_drop_id [of 2 wb] unfolding wb2 by simp
  have d: "commits fxBackend (ps_db fxStore) ?c = Inr ?d"
    unfolding wb2 by (simp add: commits_def fxBackend_def fxStore_def)
  have flush: "kv_flush fxBackend x b = Inr (rev b @ x)" for x b by (simp add: fxBackend_def)
  have add: "\<exists>s'. ps_AddSchema 2 kindApi fxBackend s fxSchema = Some (Inr (s', Reset fxSchema))" for s
    using flush by (simp add: ps_AddSchema_batch wb(1) lift_def)
  from add [of fxStore] obtain s1 where s1: "ps_AddSchema 2 kindApi fxBackend fxStore fxSchema = Some (Inr (s1, Reset fxSchema))" by blast
  from add [of "fxStore\<lparr>ps_db := ?d\<rparr>"] obtain s2 where
    s2: "ps_AddSchema 2 kindApi fxBackend (fxStore\<lparr>ps_db := ?d\<rparr>) fxSchema = Some (Inr (s2, Reset fxSchema))" by blast
  note c = ps_AddSchema_split [OF ok split d]
  have "concat [drop 2 wb] \<noteq> []" using wb(2) by simp
  then have "\<not> ps_HasSchema fxBackend (fxStore\<lparr>ps_db := ?d\<rparr>) (Key fxSchema)"
    using c [THEN conjunct1, rule_format] by (simp add: ps_HasSchema_def fxBackend_def fxStore_def)
  moreover have "sameAnswers fxBackend s2 s1" using c [THEN conjunct2, rule_format, OF s1] s2 by blast
  moreover have "length ?d = 2" using wb(2) by simp
  ultimately show ?thesis using wb d s1 s2 by blast
qed

section \<open>The collector\<close>

text \<open>One tick of the goroutine of \<open>openDB\<close>: it asks badger to rewrite a file of the value log until badger says
  that there is none left, or fails. \<open>RunValueLogGC\<close> is an argument: the database after the call, and its error.\<close>

primrec gcTick :: "nat \<Rightarrow> ('d \<Rightarrow> 'd \<times> gerr option) \<Rightarrow> 'd \<Rightarrow> 'd option" where
  "gcTick 0 run d = None"
| "gcTick (Suc n) run d = (case run d of (d', None) \<Rightarrow> gcTick n run d' | (d', Some _) \<Rightarrow> Some d')"

text \<open>The goroutine as a relation on the database and whether it runs. When the context is done and the ticker
  fires, either may be taken.\<close>

inductive gc_step :: "('d \<Rightarrow> 'd \<times> gerr option) \<Rightarrow> 'd \<times> bool \<Rightarrow> 'd \<times> bool \<Rightarrow> bool" for run where
  tick: "gcTick n run d = Some d' \<Longrightarrow> gc_step run (d, True) (d', True)"
| cancelled: "gc_step run (d, True) (d, False)"

text \<open>The collector moves values and changes none.\<close>

definition gc_ok :: "('d, 'b, 'c) backend \<Rightarrow> ('d \<Rightarrow> 'd \<times> gerr option) \<Rightarrow> bool" where
  "gc_ok B run \<longleftrightarrow> (\<forall>d k. kv_get B (fst (run d)) k = kv_get B d k)"

lemma gcTick_get: "gc_ok B run \<Longrightarrow> gcTick n run d = Some d' \<Longrightarrow> kv_get B d' k = kv_get B d k"
proof (induction n arbitrary: d)
  case (Suc n)
  then show ?case by (cases "run d") (auto simp: gc_ok_def split: option.splits dest: spec [of _ d])
qed simp

text \<open>With a bound on the rewrites that can succeed one after the other the tick ends.\<close>

lemma gcTick_ends:
  fixes files :: "'d \<Rightarrow> nat"
  assumes "\<And>d d'. run d = (d', None) \<Longrightarrow> files d' < files d"
  shows "files d < n \<Longrightarrow> \<exists>d'. gcTick n run d = Some d'"
proof (induction n arbitrary: d)
  case (Suc n)
  obtain d' e where r: "run d = (d', e)" by fastforce
  show ?case
  proof (cases e)
    case None
    with assms r Suc.prems have "files d' < n" by fastforce
    from Suc.IH [OF this] r None show ?thesis by simp
  qed (use r in simp)
qed simp

text \<open>However long the collector has run, every request is answered as without it.\<close>

lemma gc_transparent:
  assumes "kv_ok B" "gc_ok B run" "(gc_step run)\<^sup>*\<^sup>* (ps_db s, True) (d, b)"
  shows "sameAnswers B (s\<lparr>ps_db := d\<rparr>) s"
proof -
  have "\<forall>k. kv_get B (fst x) k = kv_get B (fst y) k" if "(gc_step run)\<^sup>*\<^sup>* y x" for x y
    using that
  proof (induction rule: rtranclp_induct)
    case (step y z)
    from step.hyps(2) step.IH show ?case by cases (auto simp: gcTick_get [OF assms(2)])
  qed simp
  from same_reads [OF assms(1), of d "ps_db s" s] this [OF assms(3)] show ?thesis by simp
qed

end
