(* ===== verification/PersistConcurrent.thy ===== *)
theory PersistConcurrent
  imports PersistStore
begin

text \<open>
  The persistent store under concurrency. The handlers use the database without a lock: the test for an
  existing schema and the write of \<open>CreateSchema\<close> are two accesses, the delete and the write of
  \<open>ReloadSchema\<close> are two, and \<open>AddSchema\<close> does not remove the pairs of an earlier schema with the same key.
  The relation \<open>ps_step\<close> has every interleaving of them.
\<close>

section \<open>The two halves of CreateSchema\<close>

text \<open>Everything up to the write: the tests, and loading the files.\<close>

definition ps_CreateCheck :: "os_env \<Rightarrow> loader \<Rightarrow> yang_api \<Rightarrow> ('d, 'b, 'c) backend \<Rightarrow> ('d, 'c) persistStore \<Rightarrow>
    create_req \<Rightarrow> schema res" where
  "ps_CreateCheck F L Y B s req =
     (case cr_Schema req of
        None \<Rightarrow> Inl missingSchema
      | Some k \<Rightarrow>
          if ps_HasSchema B s k
          then Inl (StatusErr InvalidArgument ''schema %v already exists'' [SchemaKey_String k])
          else rbind (checkKey k) (\<lambda>_. NewSchema F L Y (reqConfig k req)))"

lemma ps_CreateSchema_halves:
  "ps_CreateSchema n F L Y B s req =
   obind (lift (ps_CreateCheck F L Y B s req)) (\<lambda>sc. obind (ps_AddSchema n Y B s sc) (\<lambda>(s', _). Some (Inr s')))"
proof (cases "cr_Schema req")
  case (Some k)
  then show ?thesis
    by (cases "checkKey k") (simp_all add: ps_CreateSchema_def ps_CreateCheck_def lift_def)
qed (simp add: ps_CreateSchema_def ps_CreateCheck_def lift_def)

lemma ps_CreateCheck_Key: "ps_CreateCheck F L Y B s req = Inr sc \<Longrightarrow> cr_Schema req = Some (Key sc) \<and> \<not> ps_HasSchema B s (Key sc)"
  by (auto simp: ps_CreateCheck_def reqConfig_Key split: option.splits if_splits)

section \<open>Pairs that a second schema leaves in place\<close>

lemma kv_kept:
  assumes "kv_ok B" "schemaOk Y r" "sc_root sc = Some r" "ps_AddSchema n Y B s sc = Some (Inr (s', sc'))"
    and "m \<in> set (e_children (Ptr r []))" "list_all (\<lambda>p. colon \<notin> set p \<and> slash \<notin> set p) pe" "\<nexists>x. data_path Y m pe x"
  shows "kv_get B (ps_db s') (buildEntryKey (Key sc) (e_Name m) pe) = kv_get B (ps_db s) (buildEntryKey (Key sc) (e_Name m) pe)"
proof -
  let ?K = "buildEntryKey (Key sc) (e_Name m) pe"
  from kv_stored [OF assms(1-4)] obtain kvs v where
    kvs: "list_all2 (\<lambda>x kv. entryPair n Y B sc x = Some (Inr kv)) (walkNodes Y (Ptr r [])) kvs"
    and get: "\<And>k. kv_get B (ps_db s') k = (case map_of (rev (kvs @ [(buildSchemaKey (Key sc), v)])) k of
        Some v \<Rightarrow> Some v | None \<Rightarrow> kv_get B (ps_db s) k)" by blast
  have "?K \<noteq> buildSchemaKey (Key sc)"
    by (simp add: buildEntryKey_def buildSchemaKey_def schemaObjectsPrefix_def schemasPrefix_def)
  moreover have "map_of (rev kvs) ?K = None"
    unfolding map_of_rev_None key_pair [OF assms(2,5,6) kvs] using assms(7) by blast
  ultimately show ?thesis using get [of ?K] by simp
qed

text \<open>A path whose first element carries the module is read from that module.\<close>

lemma getSchema_prefixed:
  assumes "ps_cache s = None" "colon \<notin> set mn" "mn \<noteq> []" "p \<noteq> mn"
    and "map pe_Name (p_Elem path) = (mn @ colon # p) # ps"
  shows "snd (ps_getSchema B s (Some path) wd sck) =
    (case kv_get B (ps_db s) (buildEntryKey sck mn (p # ps)) of None \<Rightarrow> Inl errKeyNotFound | Some v \<Rightarrow> pb_unmarshal B v)"
proof -
  have "cutFirst (mn @ colon # p) = (mn, p, True)"
    using assms(2,3) by (simp add: cutFirst_def str_index_append)
  then have "getFromDB B (ps_db s) sck (mn @ colon # p) ps =
      (case kv_get B (ps_db s) (buildEntryKey sck mn (p # ps)) of None \<Rightarrow> Inl errKeyNotFound | Some v \<Rightarrow> pb_unmarshal B v)"
    using assms(4) by (simp add: getFromDB_def split: option.split)
  moreover have "ToStrings (Some path) False True = (mn @ colon # p) # ps"
    using assms(5) by (simp add: ToStrings_def concat_map_singleton)
  ultimately show ?thesis using assms(1) by (simp add: ps_getSchema_def Let_def split: sum.split)
qed

text \<open>C38: two concurrent \<open>CreateSchema\<close> requests for one key can both succeed and leave a mixture. Let both
  pass their test before either writes. Then the key is known with the configuration of the second
  request, but a node that only the first schema has is still answered, with the element of the
  first schema, although neither the second schema has it nor could a create after the first one succeed.\<close>

theorem ps_create_race:
  assumes "backend_ok B" "ps_cache s = None" "\<forall>p ps. kv_get B (ps_db s) (buildEntryKey (Key sc1) p ps) = None"
    and "ps_CreateCheck F L1 Y B s q1 = Inr sc1" "ps_CreateCheck F L2 Y B s q2 = Inr sc2" "cr_Schema q1 = cr_Schema q2"
    and "ps_AddSchema n Y B s sc1 = Some (Inr (s1, x1))" "ps_AddSchema n Y B s1 sc2 = Some (Inr (s2, x2))"
    and "schemaOk Y r1" "sc_root sc1 = Some r1" "schemaOk Y r2" "sc_root sc2 = Some r2"
    and "m1 \<in> set (e_children (Ptr r1 []))" "m2 \<in> set (e_children (Ptr r2 []))" "e_Name m2 = e_Name m1"
    and "getEntry Y m1 (p # ps) = Inr e" "getEntry Y m2 (p # ps) = Inl err"
    and "list_all (\<lambda>p. colon \<notin> set p \<and> slash \<notin> set p) (e_Name m1 # p # ps)" "e_Name m1 \<noteq> []" "p \<noteq> e_Name m1"
    and "map pe_Name (p_Elem path) = (e_Name m1 @ colon # p) # ps"
  shows "ps_HasSchema B s2 (Key sc2) \<and> (\<exists>err'. ps_CreateCheck F L2 Y B s1 q2 = Inl err') \<and>
    (\<exists>se. snd (ps_GetSchema B s2 \<lparr>gr_Schema = Some (Key sc2), gr_Path = Some path, gr_WithDescription = wd\<rparr>) = Inr se \<and>
      SchemaElemFromYEntry n Y sc1 e True = Some (Inr se))"
proof -
  have ok: "kv_ok B" "codec_ok B" using assms(1) by (simp_all add: backend_ok_def)
  have key: "Key sc2 = Key sc1" using ps_CreateCheck_Key [OF assms(4)] ps_CreateCheck_Key [OF assms(5)] assms(6) by simp
  have names: "colon \<notin> set (e_Name m1)" "list_all (\<lambda>p. colon \<notin> set p \<and> slash \<notin> set p) (p # ps)" using assms(18) by simp_all
  have m1: "\<not> isCC Y m1" and m2: "\<not> isCC Y m2" "unique_names Y m2"
    using schemaOk_module [OF assms(9,13)] schemaOk_module [OF assms(11,14)] by (auto simp: moduleOk_def)
  let ?K = "buildEntryKey (Key sc1) (e_Name m1) (p # ps)"
  have d: "data_path Y m1 (p # ps) e" by (rule getEntry_sound [OF assms(16) m1])
  have fresh: "kv_get B (ps_db s) ?K = None" using assms(3) by blast
  obtain b where b: "kv_get B (ps_db s1) ?K = Some b"
    using kv_lookup(2) [OF ok(1) assms(9,10,7,13) names(2) fresh] d by (cases "kv_get B (ps_db s1) ?K") auto
  with kv_lookup(1) [OF ok(1) assms(9,10,7,13) names(2) fresh, of b] obtain y se where
    "data_path Y m1 (p # ps) y" "SchemaElemFromYEntry n Y sc1 y True = Some (Inr se)" "pb_marshal B se = Inr b" by auto
  with data_path_unique [of Y m1 "p # ps" y e] d schemaOk_module [OF assms(9,13)]
  have se: "SchemaElemFromYEntry n Y sc1 e True = Some (Inr se)" "pb_marshal B se = Inr b" by simp_all
  have "\<nexists>x. data_path Y m2 (p # ps) x"
  proof
    assume "\<exists>x. data_path Y m2 (p # ps) x"
    then obtain x where "data_path Y m2 (p # ps) x" by blast
    from getEntry_complete [OF this m2] assms(17) show False by simp
  qed
  from kv_kept [OF ok(1) assms(11,12,8,14) names(2) this] have "kv_get B (ps_db s2) ?K = Some b"
    using b key assms(15) by simp
  moreover have c: "ps_cache s2 = None" using ps_AddSchema_cache [OF assms(7)] ps_AddSchema_cache [OF assms(8)] assms(2) by simp
  moreover have "pb_unmarshal B b = Inr se" using ok(2) se(2) by (simp add: codec_ok_def)
  ultimately have g: "snd (ps_getSchema B s2 (Some path) wd (Key sc2)) = Inr se"
    using getSchema_prefixed [OF c names(1) assms(19,20,21), of B wd "Key sc2"] key by simp
  have has: "ps_HasSchema B s2 (Key sc2)" by (rule ps_HasSchema_AddSchema [OF ok(1) assms(11,12,8)])
  have "ps_HasSchema B s1 (Key sc1)" by (rule ps_HasSchema_AddSchema [OF ok(1) assms(9,10,7)])
  then have "\<exists>err'. ps_CreateCheck F L2 Y B s1 q2 = Inl err'"
    using ps_CreateCheck_Key [OF assms(4)] assms(6) by (simp add: ps_CreateCheck_def)
  moreover have "snd (ps_GetSchema B s2 \<lparr>gr_Schema = Some (Key sc2), gr_Path = Some path, gr_WithDescription = wd\<rparr>) = Inr se"
    using g has by (simp add: ps_GetSchema_def keyOf_def)
  ultimately show ?thesis using has se(1) by blast
qed

text \<open>The fixture and a later version of its module without \<open>host\<close>.\<close>

definition fxLoader2 :: loader where
  "fxLoader2 = fxLoader\<lparr>ld_Entries := (\<lambda>ps rd. [Entry (attrs fxModule) (Some [(''x'', fxLeaf ''x'' fxString)])])\<rparr>"

definition fxRace :: "schema \<Rightarrow> schema \<Rightarrow> bool" where
  "fxRace sc1 sc2 =
     (case (sc_root sc1, sc_root sc2) of
        (Some r1, Some r2) \<Rightarrow>
          schemaOk kindApi r1 \<and> schemaOk kindApi r2 \<and>
          (case (e_children (Ptr r1 []), e_children (Ptr r2 [])) of
             ([m1], [m2]) \<Rightarrow> e_Name m1 = ''lrc'' \<and> e_Name m2 = ''lrc'' \<and> \<not> isl (getEntry kindApi m1 [''host'']) \<and> isl (getEntry kindApi m2 [''host''])
           | _ \<Rightarrow> False) \<and>
          (case ps_AddSchema 2 kindApi fxBackend fxStore sc1 of
             Some (Inr (s1, _)) \<Rightarrow> (case ps_AddSchema 2 kindApi fxBackend s1 sc2 of Some (Inr _) \<Rightarrow> True | _ \<Rightarrow> False)
           | _ \<Rightarrow> False)
      | _ \<Rightarrow> False)"

lemma fxRace_ok:
  "case (ps_CreateCheck fxOs fxLoader kindApi fxBackend fxStore fxReq, ps_CreateCheck fxOs fxLoader2 kindApi fxBackend fxStore fxReq) of
     (Inr sc1, Inr sc2) \<Rightarrow> fxRace sc1 sc2 | _ \<Rightarrow> False"
  by code_simp

theorem ps_create_race_witness:
  "\<exists>sc1 sc2 s1 s2 x1 x2 se.
     ps_CreateCheck fxOs fxLoader kindApi fxBackend fxStore fxReq = Inr sc1 \<and>
     ps_CreateCheck fxOs fxLoader2 kindApi fxBackend fxStore fxReq = Inr sc2 \<and>
     ps_AddSchema 2 kindApi fxBackend fxStore sc1 = Some (Inr (s1, x1)) \<and>
     ps_AddSchema 2 kindApi fxBackend s1 sc2 = Some (Inr (s2, x2)) \<and>
     snd (ps_GetSchema fxBackend s2 \<lparr>gr_Schema = Some (Key sc2),
       gr_Path = Some \<lparr>p_Origin = [], p_Target = [], p_Elem = [\<lparr>pe_Name = ''lrc:host'', pe_Key = []\<rparr>]\<rparr>, gr_WithDescription = True\<rparr>) = Inr se"
proof -
  let ?c = "\<lambda>L. ps_CreateCheck fxOs L kindApi fxBackend fxStore fxReq"
  let ?p = "\<lparr>p_Origin = [], p_Target = [], p_Elem = [\<lparr>pe_Name = ''lrc:host'', pe_Key = []\<rparr>]\<rparr>"
  obtain sc1 sc2 where sc: "?c fxLoader = Inr sc1" "?c fxLoader2 = Inr sc2" and race: "fxRace sc1 sc2"
    using fxRace_ok by (cases "?c fxLoader"; cases "?c fxLoader2") auto
  from race obtain r1 r2 where r: "sc_root sc1 = Some r1" "sc_root sc2 = Some r2" "schemaOk kindApi r1" "schemaOk kindApi r2"
    by (auto simp: fxRace_def split: option.splits)
  with race obtain m1 m2 where m: "e_children (Ptr r1 []) = [m1]" "e_children (Ptr r2 []) = [m2]" "e_Name m1 = ''lrc''"
    "e_Name m2 = ''lrc''" "\<not> isl (getEntry kindApi m1 [''host''])" "isl (getEntry kindApi m2 [''host''])"
    by (auto simp: fxRace_def simp del: getEntry.simps split: list.splits)
  from m(5,6) obtain e err where e: "getEntry kindApi m1 [''host''] = Inr e" "getEntry kindApi m2 [''host''] = Inl err"
    by (cases "getEntry kindApi m1 [''host'']"; cases "getEntry kindApi m2 [''host'']") (auto simp del: getEntry.simps)
  from race r obtain s1 x1 s2 x2 where a: "ps_AddSchema 2 kindApi fxBackend fxStore sc1 = Some (Inr (s1, x1))"
    "ps_AddSchema 2 kindApi fxBackend s1 sc2 = Some (Inr (s2, x2))"
    by (auto simp: fxRace_def simp del: getEntry.simps split: option.splits sum.splits prod.splits)
  have mem: "m1 \<in> set (e_children (Ptr r1 []))" "m2 \<in> set (e_children (Ptr r2 []))" "e_Name m2 = e_Name m1" using m by simp_all
  have "\<exists>se. snd (ps_GetSchema fxBackend s2 \<lparr>gr_Schema = Some (Key sc2), gr_Path = Some ?p, gr_WithDescription = True\<rparr>) = Inr se"
    using ps_create_race [OF fxBackend_ok _ _ sc refl a r(3,1,4,2) mem e, of ?p True] m(3)
    by (auto simp: fxStore_def fxBackend_def char_defs)
  with sc a show ?thesis by blast
qed

section \<open>Interleaved requests\<close>

text \<open>\<open>ReloadSchema\<close> up to the delete.\<close>

definition ps_ReloadCheck :: "os_env \<Rightarrow> loader \<Rightarrow> yang_api \<Rightarrow> ('d, 'b, 'c) backend \<Rightarrow> ('d, 'c) persistStore \<Rightarrow>
    schema_key \<Rightarrow> schema res" where
  "ps_ReloadCheck F L Y B s k =
     rbind (ps_GetSchemaDetails B s (Some k)) (\<lambda>details.
       NewSchema F L Y
         \<lparr>cfg_Name = sk_Name k, cfg_Vendor = sk_Vendor k, cfg_Version = sk_Version k,
          cfg_Files = dr_File details, cfg_Directories = dr_Directory details, cfg_Excludes = dr_Exclude details\<rparr>)"

lemma ps_ReloadSchema_parts:
  "ps_ReloadSchema n F L Y B s (Some k) =
   (case rbind (ps_ReloadCheck F L Y B s k) (\<lambda>sc. rbind (ps_DeleteSchema B s (Some k)) (\<lambda>s1. Inr (s1, sc))) of
      Inl err \<Rightarrow> (s, Some (Inl err))
    | Inr (s1, sc) \<Rightarrow>
        (case ps_AddSchema n Y B s1 sc of
           None \<Rightarrow> (s1, None)
         | Some (Inl err) \<Rightarrow> (s1, Some (Inl err))
         | Some (Inr (s', _)) \<Rightarrow> (s', Some (Inr ()))))"
  by (cases "ps_GetSchemaDetails B s (Some k)") (simp_all add: ps_ReloadSchema_def ps_ReloadCheck_def keyOf_def)

text \<open>What a request in progress still has to do. The rule \<open>load\<close> is the add of an upload or of a start-up
  goroutine, whose test for the key lies further back.\<close>

datatype ps_pending = PsAdd schema | PsReload schema

inductive ps_step :: "nat \<Rightarrow> os_env \<Rightarrow> loader \<Rightarrow> yang_api \<Rightarrow> ('d, 'b, 'c) backend \<Rightarrow>
    ('d, 'c) persistStore \<times> ps_pending list \<Rightarrow> ('d, 'c) persistStore \<times> ps_pending list \<Rightarrow> bool" for n F L Y B where
  create: "ps_CreateCheck F L Y B s req = Inr sc \<Longrightarrow> ps_step n F L Y B (s, ps) (s, ps @ [PsAdd sc])"
| load: "NewSchema F L Y c = Inr sc \<Longrightarrow> ps_step n F L Y B (s, ps) (s, ps @ [PsAdd sc])"
| reload: "ps_ReloadCheck F L Y B s k = Inr sc \<Longrightarrow> ps_step n F L Y B (s, ps) (s, ps @ [PsReload sc])"
| dropped: "ps_DeleteSchema B s (Some (Key sc)) = Inr s' \<Longrightarrow>
    ps_step n F L Y B (s, xs @ PsReload sc # ys) (s', xs @ PsAdd sc # ys)"
| drop_failed: "ps_DeleteSchema B s (Some (Key sc)) = Inl err \<Longrightarrow> ps_step n F L Y B (s, xs @ PsReload sc # ys) (s, xs @ ys)"
| added: "ps_AddSchema n Y B s sc = Some (Inr (s', sc')) \<Longrightarrow> ps_step n F L Y B (s, xs @ PsAdd sc # ys) (s', xs @ ys)"
| add_failed: "ps_AddSchema n Y B s sc = Some (Inl err) \<Longrightarrow> ps_step n F L Y B (s, xs @ PsAdd sc # ys) (s, xs @ ys)"
| delete: "ps_DeleteSchema B s ko = Inr s' \<Longrightarrow> ps_step n F L Y B (s, ps) (s', ps)"
| get: "ps_GetSchema B s q = (s', r) \<Longrightarrow> ps_step n F L Y B (s, ps) (s', ps)"
| expire: "ps_cache s = Some c \<Longrightarrow> (\<And>k v. ca_get B c' k = Some v \<Longrightarrow> ca_get B c k = Some v) \<Longrightarrow>
    ps_step n F L Y B (s, ps) (s\<lparr>ps_cache := Some c'\<rparr>, ps)"

text \<open>Every catalogued schema has the element of its root in the database, and no root is in the cache.\<close>

definition rootUncached :: "('d, 'b, 'c) backend \<Rightarrow> ('d, 'c) persistStore \<Rightarrow> bool" where
  "rootUncached B s \<longleftrightarrow> (\<forall>c k. ps_cache s = Some c \<longrightarrow> ca_get B c \<lparr>ck_Schema = k, ck_Path = []\<rparr> = None)"

definition rootStored :: "('d, 'b, 'c) backend \<Rightarrow> ('d, 'c) persistStore \<Rightarrow> bool" where
  "rootStored B s \<longleftrightarrow> rootUncached B s \<and> (\<forall>k. ps_HasSchema B s k \<longrightarrow>
     (\<exists>b se. kv_get B (ps_db s) (buildEntryKey k RootName []) = Some b \<and> pb_marshal B se = Inr b))"

definition wellFormedLoads :: "os_env \<Rightarrow> loader \<Rightarrow> yang_api \<Rightarrow> bool" where
  "wellFormedLoads F L Y \<longleftrightarrow> (\<forall>c sc. NewSchema F L Y c = Inr sc \<longrightarrow> (\<exists>r. sc_root sc = Some r \<and> schemaOk Y r))"

text \<open>Dropping the pairs of one key never takes the root of another key and leaves its catalogue entry.\<close>

lemma root_kept:
  assumes "prefix (K0 @ '':::'') (K @ '':::'' @ RootName)"
  shows "prefix K0 K"
proof (rule ccontr)
  assume n: "\<not> prefix K0 K"
  have "prefix K0 (K @ '':::'' @ RootName)" using assms by (meson prefix_order.trans prefixI)
  with n obtain w where w: "K0 = K @ w" "w \<noteq> []" by (metis append_Nil2 prefix_append prefix_order.order_refl)
  then have p: "prefix (w @ '':::'') ('':::'' @ RootName)" using assms by simp
  then obtain v where v: "'':::'' @ RootName = w @ '':::'' @ v" by (auto simp: prefix_def)
  have "CHR '':'' \<notin> set RootName" using colon_RootName by (simp add: colon_def)
  then have "length (filter (\<lambda>c. c = CHR '':'') ('':::'' @ RootName)) = 3" by (auto simp: filter_empty_conv)
  moreover have "length (filter (\<lambda>c. c = CHR '':'') (w @ '':::'' @ v)) \<ge> 3" by simp
  moreover have "hd w = CHR '':''" using v w(2) by (cases w) auto
  then have "length (filter (\<lambda>c. c = CHR '':'') w) > 0" using w(2) by (cases w) auto
  ultimately show False unfolding v by simp
qed

lemma delete_rootStored:
  assumes "kv_ok B" "ps_DeleteSchema B s (Some k0) = Inr s'" "rootStored B s"
  shows "rootStored B s'"
proof -
  note get = ps_Delete_get [OF assms(1,2), THEN conjunct1]
  have "\<exists>b se. kv_get B (ps_db s') (buildEntryKey k RootName []) = Some b \<and> pb_marshal B se = Inr b" if "ps_HasSchema B s' k" for k
  proof -
    have "ps_HasSchema B s k" and np: "\<not> prefix (buildSchemaKey k0) (buildSchemaKey k)"
      using that get [of "buildSchemaKey k"] by (auto simp: ps_HasSchema_def split: if_splits)
    then obtain b se where b: "kv_get B (ps_db s) (buildEntryKey k RootName []) = Some b" "pb_marshal B se = Inr b"
      using assms(3) by (auto simp: rootStored_def)
    have "\<not> prefix (buildEntryKey k0 [] []) (buildEntryKey k RootName [])"
      using np root_kept [of "schemaKeyString k0" "schemaKeyString k"] by (auto simp: buildEntryKey_def buildSchemaKey_def)
    moreover have "\<not> prefix (buildSchemaKey k0) (buildEntryKey k RootName [])"
      by (simp add: buildEntryKey_def buildSchemaKey_def schemaObjectsPrefix_def schemasPrefix_def)
    ultimately show ?thesis using get [of "buildEntryKey k RootName []"] b by auto
  qed
  moreover have "rootUncached B s'" using ps_Delete_get [OF assms(1,2)] assms(3) by (simp add: rootStored_def rootUncached_def)
  ultimately show ?thesis by (simp add: rootStored_def)
qed

lemma add_rootStored:
  assumes "kv_ok B" "schemaOk Y r" "sc_root sc = Some r" "ps_AddSchema n Y B s sc = Some (Inr (s', sc'))" "rootStored B s"
  shows "rootStored B s'"
proof -
  obtain b0 se0 where b0: "kv_get B (ps_db s') (buildEntryKey (Key sc) RootName []) = Some b0" "pb_marshal B se0 = Inr b0"
    using kv_root [OF assms(1-4)] by blast
  from kv_stored [OF assms(1-4)] obtain kvs v where
    kvs: "list_all2 (\<lambda>x kv. entryPair n Y B sc x = Some (Inr kv)) (walkNodes Y (Ptr r [])) kvs"
    and get: "\<And>k. kv_get B (ps_db s') k = (case map_of (rev (kvs @ [(buildSchemaKey (Key sc), v)])) k of
        Some v \<Rightarrow> Some v | None \<Rightarrow> kv_get B (ps_db s) k)" by blast
  have pairs: "\<exists>path se. fst kv = buildEntryKey (Key sc) (hd path) (tl path) \<and> pb_marshal B se = Inr (snd kv)" if kv: "kv \<in> set kvs" for kv
  proof -
    from list_all2_in2 [OF kvs kv] obtain x where "entryPair n Y B sc x = Some (Inr kv)" by blast
    then show ?thesis by (auto simp: entryPair_def lift_def)
  qed
  have "\<exists>b se. kv_get B (ps_db s') (buildEntryKey k RootName []) = Some b \<and> pb_marshal B se = Inr b" if "ps_HasSchema B s' k" for k
  proof (cases "schemaKeyString k = schemaKeyString (Key sc)")
    case True
    then show ?thesis using b0 by (auto simp: buildEntryKey_def)
  next
    case False
    let ?K = "buildEntryKey k RootName []"
    have "?K \<noteq> buildSchemaKey (Key sc)"
      by (simp add: buildEntryKey_def buildSchemaKey_def schemaObjectsPrefix_def schemasPrefix_def)
    then have g: "kv_get B (ps_db s') ?K = (case map_of (rev kvs) ?K of Some v \<Rightarrow> Some v | None \<Rightarrow> kv_get B (ps_db s) ?K)"
      using get [of ?K] by simp
    have "map_of (rev kvs) (buildSchemaKey k) = None"
      unfolding map_of_rev_None using pairs by (force simp: buildEntryKey_def buildSchemaKey_def schemaObjectsPrefix_def schemasPrefix_def)
    then have "ps_HasSchema B s k"
      using that False get [of "buildSchemaKey k"] by (simp add: ps_HasSchema_def buildSchemaKey_def)
    then obtain b se where "kv_get B (ps_db s) ?K = Some b" "pb_marshal B se = Inr b"
      using assms(5) by (auto simp: rootStored_def)
    moreover have "\<exists>se. pb_marshal B se = Inr v" if "map_of (rev kvs) ?K = Some v" for v
      using pairs [of "(?K, v)"] map_of_SomeD [OF that] by auto
    ultimately show ?thesis using g by (cases "map_of (rev kvs) ?K") auto
  qed
  moreover have "rootUncached B s'" using ps_AddSchema_cache [OF assms(4)] assms(5) by (simp add: rootStored_def rootUncached_def)
  ultimately show ?thesis by (simp add: rootStored_def)
qed

definition psOk :: "yang_api \<Rightarrow> ('d, 'b, 'c) backend \<Rightarrow> ('d, 'c) persistStore \<times> ps_pending list \<Rightarrow> bool" where
  "psOk Y B st \<longleftrightarrow> rootStored B (fst st) \<and>
     (\<forall>sc. PsAdd sc \<in> set (snd st) \<or> PsReload sc \<in> set (snd st) \<longrightarrow> (\<exists>r. sc_root sc = Some r \<and> schemaOk Y r))"

lemma rootStored_cache: "ps_db s' = ps_db s \<Longrightarrow> rootUncached B s' \<Longrightarrow> rootStored B s \<Longrightarrow> rootStored B s'"
  by (simp add: rootStored_def ps_HasSchema_def)

lemma str_join_Nil: "str_join [slash] pes = [] \<longleftrightarrow> pes = [] \<or> pes = [[]]"
  by (cases "([slash], pes)" rule: str_join.cases) auto

lemma ps_GetSchema_store:
  "fst (ps_GetSchema B s q) = s \<or>
   ToStrings (gr_Path q) False True \<noteq> [] \<and> ToStrings (gr_Path q) False True \<noteq> [[]] \<and>
   (\<exists>se. fst (ps_GetSchema B s q) = s\<lparr>ps_cache := map_option
      (\<lambda>c. ca_set B c \<lparr>ck_Schema = keyOf (gr_Schema q), ck_Path = str_join [slash] (ToStrings (gr_Path q) False True)\<rparr> se) (ps_cache s)\<rparr>)"
proof (cases "ps_HasSchema B s (keyOf (gr_Schema q))")
  case True
  then show ?thesis
    by (cases "ToStrings (gr_Path q) False True = [] \<or> ToStrings (gr_Path q) False True = [[]]")
       (auto simp: ps_GetSchema_def ps_getSchema_def Let_def split: option.split sum.split)
qed (simp add: ps_GetSchema_def)

lemma get_rootStored:
  assumes "cache_ok B" "rootStored B s"
  shows "rootStored B (fst (ps_GetSchema B s q))"
proof -
  let ?pes = "ToStrings (gr_Path q) False True" and ?k = "keyOf (gr_Schema q)"
  let ?cKey = "\<lparr>ck_Schema = ?k, ck_Path = str_join [slash] ?pes\<rparr>"
  consider (same) "fst (ps_GetSchema B s q) = s"
    | (set) se where "\<not> (?pes = [] \<or> ?pes = [[]])" "fst (ps_GetSchema B s q) = s\<lparr>ps_cache := map_option (\<lambda>c. ca_set B c ?cKey se) (ps_cache s)\<rparr>"
    using ps_GetSchema_store [of B s q] by blast
  then show ?thesis
  proof cases
    case set
    have "rootUncached B (s\<lparr>ps_cache := map_option (\<lambda>c. ca_set B c ?cKey se) (ps_cache s)\<rparr>)"
      unfolding rootUncached_def
    proof (intro allI impI)
      fix c k
      assume "ps_cache (s\<lparr>ps_cache := map_option (\<lambda>c. ca_set B c ?cKey se) (ps_cache s)\<rparr>) = Some c"
      then obtain c0 where c: "ps_cache s = Some c0" "c = ca_set B c0 ?cKey se" by auto
      then have "ca_get B c0 \<lparr>ck_Schema = k, ck_Path = []\<rparr> = None" using assms(2) by (simp add: rootStored_def rootUncached_def)
      moreover have "\<lparr>ck_Schema = k, ck_Path = []\<rparr> \<noteq> ?cKey" using set(1) str_join_Nil [of ?pes] by auto
      ultimately show "ca_get B c \<lparr>ck_Schema = k, ck_Path = []\<rparr> = None"
        using assms(1) unfolding c(2) cache_ok_def by (metis option.exhaust option.distinct(1))
    qed
    with rootStored_cache [OF _ _ assms(2)] show ?thesis unfolding set(2) by simp
  qed (use assms(2) in simp)
qed

lemma psOk_step:
  assumes "ps_step n F L Y B st st'" "kv_ok B" "wellFormedLoads F L Y" "psOk Y B st" "cache_ok B"
  shows "psOk Y B st'"
  using assms(1,4)
proof (induction rule: ps_step.induct)
  case (create s req sc ps)
  then have "\<exists>c. NewSchema F L Y c = Inr sc" by (auto simp: ps_CreateCheck_def split: option.splits if_splits)
  with create.prems assms(3) show ?case by (auto simp: psOk_def wellFormedLoads_def)
next
  case (load c sc s ps)
  with assms(3) show ?case by (auto simp: psOk_def wellFormedLoads_def)
next
  case (reload s k sc ps)
  then have "\<exists>c. NewSchema F L Y c = Inr sc" by (auto simp: ps_ReloadCheck_def)
  with reload.prems assms(3) show ?case by (auto simp: psOk_def wellFormedLoads_def)
next
  case (dropped s sc s' xs ys)
  then show ?case using delete_rootStored [OF assms(2) dropped.hyps] by (auto simp: psOk_def)
next
  case (added s sc s' sc' xs ys)
  then obtain r where "sc_root sc = Some r" "schemaOk Y r" by (auto simp: psOk_def)
  with added show ?case using add_rootStored [OF assms(2) _ _ added.hyps] by (auto simp: psOk_def)
next
  case (delete s ko s' ps)
  then obtain k where "ko = Some k" by (auto simp: ps_DeleteSchema_def split: option.splits)
  with delete show ?case using delete_rootStored [OF assms(2)] by (auto simp: psOk_def)
next
  case (get s q s' r ps)
  then show ?case using get_rootStored [OF assms(5), of s q] by (simp add: psOk_def)
next
  case (expire s c c' ps)
  have "rootUncached B (s\<lparr>ps_cache := Some c'\<rparr>)"
    unfolding rootUncached_def
  proof (intro allI impI)
    fix c1 k
    assume "ps_cache (s\<lparr>ps_cache := Some c'\<rparr>) = Some c1"
    then have "c1 = c'" by simp
    moreover have "ca_get B c \<lparr>ck_Schema = k, ck_Path = []\<rparr> = None"
      using expire.hyps(1) expire.prems by (simp add: psOk_def rootStored_def rootUncached_def)
    ultimately show "ca_get B c1 \<lparr>ck_Schema = k, ck_Path = []\<rparr> = None"
      using expire.hyps(2) by (cases "ca_get B c1 \<lparr>ck_Schema = k, ck_Path = []\<rparr>") auto
  qed
  with expire.prems show ?case using rootStored_cache [of "s\<lparr>ps_cache := Some c'\<rparr>" s B] by (simp add: psOk_def)
qed (auto simp: psOk_def)

lemma rootStored_answers:
  assumes "codec_ok B" "rootStored B s" "ps_HasSchema B s k"
  shows "\<exists>se. ps_GetSchema B s \<lparr>gr_Schema = Some k, gr_Path = None, gr_WithDescription = wd\<rparr> = (s, Inr se)"
proof -
  obtain b se where b: "kv_get B (ps_db s) (buildEntryKey k RootName []) = Some b" "pb_marshal B se = Inr b"
    using assms(2,3) by (auto simp: rootStored_def)
  then have "pb_unmarshal B b = Inr se" using assms(1) by (simp add: codec_ok_def)
  then show ?thesis using assms(2,3) b(1)
    by (intro exI [of _ se])
      (simp add: ps_GetSchema_def ps_getSchema_def keyOf_def ToStrings_def rootStored_def rootUncached_def Let_def split: option.split)
qed


lemma fx_loaded_root:
  assumes "NewSchema fxOs fxLoader kindApi c = Inr sc"
  shows "sc_root sc = Some (rootOf [fxModule])"
proof -
  from assms obtain sc0 sc1 where b: "buildReferencesAnnotation kindApi sc0 = Inr sc1" "sc_annot sc0 = []"
    "sc_root sc0 = Some (rootOf [fxModule])" "sc_root sc = sc_root sc1"
    by (auto simp: NewSchema_def Let_def fxLoader_def)
  have "sc_root sc1 = sc_root sc0"
    using buildReferencesAnnotation_annotSound [OF b(1,2)] by (auto simp: annotSound_def)
  with b show ?thesis by simp
qed

lemma fx_loaded_ok: "schemaOk kindApi (rootOf [fxModule])"
  by code_simp

lemma fx_wellFormedLoads: "wellFormedLoads fxOs fxLoader kindApi"
  unfolding wellFormedLoads_def using fx_loaded_root fx_loaded_ok by blast

definition fxReloads :: bool where
  "fxReloads =
     (case ps_CreateCheck fxOs fxLoader kindApi fxBackend fxStore fxReq of
        Inl _ \<Rightarrow> False
      | Inr sc \<Rightarrow>
          (case ps_AddSchema 2 kindApi fxBackend fxStore sc of
             Some (Inr (s1, _)) \<Rightarrow>
               (case ps_ReloadCheck fxOs fxLoader kindApi fxBackend s1 (Key sc) of
                  Inl _ \<Rightarrow> False
                | Inr sc2 \<Rightarrow> (case ps_DeleteSchema fxBackend s1 (Some (Key sc2)) of Inl _ \<Rightarrow> False | Inr _ \<Rightarrow> True))
           | _ \<Rightarrow> False))"


end
