(* ===== verification/PersistStartup.thy ===== *)
theory PersistStartup
  imports PersistBatch PersistConcurrent Server
begin

text \<open>
  Start-up with the persistent store, \<open>NewServer\<close> of \<open>server.go\<close> over \<open>AddSchema\<close> of
  \<open>persiststore.go\<close>, when the process may end at any point: the goroutines that load the configured schemas
  interleave, each writes its batch in as many transactions as badger makes of it, and after a crash the next
  start finds whatever was committed.

  The catalogue entry is the last pair of a batch and \<open>HasSchema\<close> reads only that, so it marks a batch as complete.
\<close>

section \<open>Start-up, transaction by transaction\<close>

text \<open>A state is the store, the configurations whose goroutine has not tested the store yet, and the configurations
  that are being written with the pairs that are still to be committed.\<close>

type_synonym ('d, 'b, 'c) start_state =
  "('d, 'c) persistStore \<times> schema_config multiset \<times> (schema_config \<times> (string \<times> 'b) list) multiset"

inductive start_step :: "nat \<Rightarrow> os_env \<Rightarrow> loader \<Rightarrow> yang_api \<Rightarrow> ('d, 'b, 'c) backend \<Rightarrow> schema_config list \<Rightarrow>
    ('d, 'b, 'c) start_state \<Rightarrow> ('d, 'b, 'c) start_state \<Rightarrow> bool" for n F L Y B cs where
  exists: "ps_HasSchema B s (cfgKey c) \<Longrightarrow> start_step n F L Y B cs (s, add_mset c W, Q) (s, W, Q)"
| unparsed: "\<not> ps_HasSchema B s (cfgKey c) \<Longrightarrow> NewSchema F L Y c = Inl err \<Longrightarrow>
    start_step n F L Y B cs (s, add_mset c W, Q) (s, W, Q)"
| parsed: "\<not> ps_HasSchema B s (cfgKey c) \<Longrightarrow> NewSchema F L Y c = Inr sc \<Longrightarrow> addBatch n Y B sc = Some (Inr wb) \<Longrightarrow>
    start_step n F L Y B cs (s, add_mset c W, Q) (s, W, add_mset (c, wb) Q)"
| commit: "kv_flush B (ps_db s) txn = Inr d \<Longrightarrow>
    start_step n F L Y B cs (s, W, add_mset (c, txn @ rest) Q)
      (s\<lparr>ps_db := d\<rparr>, W, if rest = [] then Q else add_mset (c, rest) Q)"
| commit_failed: "kv_flush B (ps_db s) txn = Inl err \<Longrightarrow>
    start_step n F L Y B cs (s, W, add_mset (c, txn @ rest) Q) (s, W, Q)"
| crash: "start_step n F L Y B cs (s, W, Q) (s, mset cs, {#})"

section \<open>Batches\<close>

lemma addBatch_functional:
  assumes "schemaOk Y r" "sc_root sc = Some r" "addBatch n Y B sc = Some (Inr wb)" "(x, v) \<in> set wb" "(x, v') \<in> set wb"
  shows "v = v'"
proof -
  have root: "GetEntry Y sc [] = Inr (Ptr r [])" using assms(2) by (simp add: GetEntry_def rootPtr_def)
  from assms(3) obtain kvs cv where e: "addSchemaElem n Y B sc [] (Ptr r []) = Some (Inr kvs)"
    and wb: "wb = kvs @ [(buildSchemaKey (Key sc), cv)]"
    by (auto simp: addBatch_def addSchema_def lift_def root)
  from ofold_pairs [OF e [unfolded addSchemaElem_nodes]]
  have kvs: "list_all2 (\<lambda>x kv. entryPair n Y B sc x = Some (Inr kv)) (walkNodes Y (Ptr r [])) kvs" by simp
  have ent: "\<exists>a. a \<in> set (walkNodes Y (Ptr r [])) \<and> entryPair n Y B sc a = Some (Inr (x, v))" if "(x, v) \<in> set kvs" for v
    using list_all2_in2 [OF kvs that] by blast
  have ncat: "x \<noteq> buildSchemaKey (Key sc)" if "(x, v) \<in> set kvs" for v
    using ent [OF that] entryPair_own [of n Y B sc _ "(x, v)"]
    by (auto simp: buildEntryKey_def buildSchemaKey_def schemaObjectsPrefix_def schemasPrefix_def)
  show ?thesis
  proof (cases "x = buildSchemaKey (Key sc)")
    case True
    with ncat assms(4,5) show ?thesis by (auto simp: wb)
  next
    case False
    with assms(4,5) have "(x, v) \<in> set kvs" "(x, v') \<in> set kvs" by (auto simp: wb)
    then obtain a b where a: "a \<in> set (walkNodes Y (Ptr r []))" "entryPair n Y B sc a = Some (Inr (x, v))"
      and b: "b \<in> set (walkNodes Y (Ptr r []))" "entryPair n Y B sc b = Some (Inr (x, v'))" using ent by meson
    have node: "a = b" if "m \<in> set (e_children (Ptr r []))" "data_path Y m pe y" "x = buildEntryKey (Key sc) (e_Name m) (map unprefixed pe)"
      for m pe y
    proof -
      have m: "moduleOk Y m" "treeOk Y m" using schemaOk_module [OF assms(1) that(1)] by blast+
      have sl: "list_all (\<lambda>p. slash \<notin> set p) (map unprefixed pe)"
        using data_path_name_ok [OF that(2) m(2)] by (simp add: list_all_iff)
      show ?thesis
        by (rule data_path_unique [OF m(1) key_node [OF assms(1) that(1) sl b(1)] key_node [OF assms(1) that(1) sl a(1)]])
          (use a(2) b(2) that(3) in auto)
    qed
    from entryPair_key [OF assms(1) a] entryPair_key [OF assms(1) b] node have "a = b" by blast
    with a(2) b(2) show ?thesis by simp
  qed
qed

text \<open>The batch of a configuration.\<close>

definition cfgBatch :: "nat \<Rightarrow> os_env \<Rightarrow> loader \<Rightarrow> yang_api \<Rightarrow> ('d, 'b, 'c) backend \<Rightarrow> schema_config \<Rightarrow> (string \<times> 'b) list \<Rightarrow> bool" where
  "cfgBatch n F L Y B c wb \<longleftrightarrow> (\<exists>sc. NewSchema F L Y c = Inr sc \<and> addBatch n Y B sc = Some (Inr wb))"

lemma cfgBatch_unique: "cfgBatch n F L Y B c wb \<Longrightarrow> cfgBatch n F L Y B c wb' \<Longrightarrow> wb' = wb"
  by (auto simp: cfgBatch_def)

lemma cfgBatch_pairs:
  assumes "cfgBatch n F L Y B c wb"
  shows "\<exists>kvs v. wb = kvs @ [(buildSchemaKey (cfgKey c), v)] \<and> (\<forall>kv\<in>set kvs. \<exists>p ps. fst kv = buildEntryKey (cfgKey c) p ps)"
proof -
  from assms obtain sc where sc: "NewSchema F L Y c = Inr sc" "addBatch n Y B sc = Some (Inr wb)" by (auto simp: cfgBatch_def)
  have "Key sc = cfgKey c" using keyedLoad_NewSchema sc(1) by (auto simp: keyedLoad_def)
  with addBatch_pairs [OF sc(2)] show ?thesis by simp
qed

lemma cfgBatch_own: "cfgBatch n F L Y B c wb \<Longrightarrow> (x, v) \<in> set wb \<Longrightarrow> ownKey (cfgKey c) x"
  using cfgBatch_pairs [of n F L Y B c wb] by (fastforce simp: ownKey_def)

lemma cfgBatch_marker:
  assumes "cfgBatch n F L Y B c (pre @ rest)" "rest \<noteq> []"
  shows "(buildSchemaKey (cfgKey c), v) \<notin> set pre"
proof
  assume v: "(buildSchemaKey (cfgKey c), v) \<in> set pre"
  from cfgBatch_pairs [OF assms(1)] obtain kvs w where
    k: "pre @ rest = kvs @ [(buildSchemaKey (cfgKey c), w)]" "\<forall>kv\<in>set kvs. \<exists>p ps. fst kv = buildEntryKey (cfgKey c) p ps" by blast
  have "set pre \<subseteq> set (butlast (pre @ rest))" using assms(2) by (auto simp: butlast_append)
  with k v have "(buildSchemaKey (cfgKey c), v) \<in> set kvs" by auto
  with k(2) show False by (force simp: buildEntryKey_def buildSchemaKey_def schemaObjectsPrefix_def schemasPrefix_def)
qed

lemma cfgBatch_marked: "cfgBatch n F L Y B c wb \<Longrightarrow> \<exists>v. (buildSchemaKey (cfgKey c), v) \<in> set wb"
  using cfgBatch_pairs by fastforce

section \<open>The invariant\<close>

text \<open>What start-up needs of its configuration: keys that stay apart in the database, and schemas as goyang
  delivers them.\<close>

definition startOk :: "os_env \<Rightarrow> loader \<Rightarrow> yang_api \<Rightarrow> schema_config list \<Rightarrow> bool" where
  "startOk F L Y cs \<longleftrightarrow> distinct (map cfgKey cs) \<and> apart (cfgKey ` set cs) \<and>
     (\<forall>c\<in>set cs. \<forall>sc. NewSchema F L Y c = Inr sc \<longrightarrow> (\<exists>r. sc_root sc = Some r \<and> schemaOk Y r) \<and> checkKey (Key sc) = Inr ())"

lemma startOk_functional:
  assumes "startOk F L Y cs" "c \<in> set cs" "cfgBatch n F L Y B c wb" "(x, v) \<in> set wb" "(x, v') \<in> set wb"
  shows "v = v'"
proof -
  from assms(3) obtain sc where sc: "NewSchema F L Y c = Inr sc" "addBatch n Y B sc = Some (Inr wb)" by (auto simp: cfgBatch_def)
  with assms(1,2) obtain r where "sc_root sc = Some r" "schemaOk Y r" by (auto simp: startOk_def)
  from addBatch_functional [OF this(2,1) sc(2) assms(4,5)] show ?thesis .
qed

lemma startOk_apart:
  assumes "startOk F L Y cs" "c \<in> set cs" "c' \<in> set cs" "ownKey (cfgKey c) x" "ownKey (cfgKey c') x"
  shows "c' = c"
proof (rule ccontr)
  assume n: "c' \<noteq> c"
  have k: "apart (cfgKey ` set cs)" "inj_on cfgKey (set cs)" using assms(1) by (simp_all add: startOk_def distinct_map)
  from k(2) n assms(2,3) have "cfgKey c' \<noteq> cfgKey c" by (auto dest: inj_onD)
  from apartD(1) [OF k(1) _ _ this assms(4)] assms(2,3,5) show False by blast
qed

text \<open>\<open>holds\<close>: the database has every pair of a list. \<open>within\<close>: what it has for a configuration is part of the
  batch, and all of it once the schema is known.\<close>

definition holds :: "('d, 'b, 'c) backend \<Rightarrow> 'd \<Rightarrow> (string \<times> 'b) list \<Rightarrow> bool" where
  "holds B d wb \<longleftrightarrow> (\<forall>(x, v)\<in>set wb. kv_get B d x = Some v)"

definition within :: "nat \<Rightarrow> os_env \<Rightarrow> loader \<Rightarrow> yang_api \<Rightarrow> ('d, 'b, 'c) backend \<Rightarrow> schema_config list \<Rightarrow> 'd \<Rightarrow> bool" where
  "within n F L Y B cs d \<longleftrightarrow> (\<forall>c\<in>set cs. \<forall>wb. cfgBatch n F L Y B c wb \<longrightarrow>
     (\<forall>x v. ownKey (cfgKey c) x \<longrightarrow> kv_get B d x = Some v \<longrightarrow> (x, v) \<in> set wb) \<and>
     (kv_get B d (buildSchemaKey (cfgKey c)) \<noteq> None \<longrightarrow> holds B d wb))"

definition pendingOk :: "nat \<Rightarrow> os_env \<Rightarrow> loader \<Rightarrow> yang_api \<Rightarrow> ('d, 'b, 'c) backend \<Rightarrow> schema_config list \<Rightarrow> 'd \<Rightarrow>
    schema_config \<times> (string \<times> 'b) list \<Rightarrow> bool" where
  "pendingOk n F L Y B cs d q \<longleftrightarrow> fst q \<in> set cs \<and> snd q \<noteq> [] \<and> (\<exists>pre. cfgBatch n F L Y B (fst q) (pre @ snd q) \<and> holds B d pre)"

definition startInv :: "nat \<Rightarrow> os_env \<Rightarrow> loader \<Rightarrow> yang_api \<Rightarrow> ('d, 'b, 'c) backend \<Rightarrow> schema_config list \<Rightarrow> ('d, 'b, 'c) start_state \<Rightarrow> bool" where
  "startInv n F L Y B cs st \<longleftrightarrow> ps_cache (fst st) = None \<and> set_mset (fst (snd st)) \<subseteq> set cs \<and>
     within n F L Y B cs (ps_db (fst st)) \<and> (\<forall>q. q \<in># snd (snd st) \<longrightarrow> pendingOk n F L Y B cs (ps_db (fst st)) q)"

lemma flush_get:
  "kv_ok B \<Longrightarrow> kv_flush B d txn = Inr d' \<Longrightarrow> kv_get B d' x = (case map_of (rev txn) x of Some v \<Rightarrow> Some v | None \<Rightarrow> kv_get B d x)"
  unfolding kv_ok_def by blast

text \<open>A transaction of one batch keeps what any batch has in the database.\<close>

lemma flush_holds:
  assumes "kv_ok B" "startOk F L Y cs" "c \<in> set cs" "cfgBatch n F L Y B c wb" "set txn \<subseteq> set wb" "kv_flush B d txn = Inr d'"
    and "c' \<in> set cs" "cfgBatch n F L Y B c' wb'" "set pre \<subseteq> set wb'" "holds B d pre"
  shows "holds B d' pre"
  unfolding holds_def
proof (clarify)
  fix x v
  assume xv: "(x, v) \<in> set pre"
  show "kv_get B d' x = Some v"
  proof (cases "map_of (rev txn) x")
    case None
    with xv assms(10) show ?thesis unfolding flush_get [OF assms(1,6)] holds_def by auto
  next
    case (Some w)
    then have w: "(x, w) \<in> set wb" using map_of_SomeD [OF Some] assms(5) by auto
    moreover have "c' = c" using startOk_apart [OF assms(2,3,7)] cfgBatch_own [OF assms(4) w] cfgBatch_own [OF assms(8)] xv assms(9) by blast
    with cfgBatch_unique [OF assms(4)] assms(8) have "wb' = wb" by simp
    ultimately have "w = v" using startOk_functional [OF assms(2-4), of x] xv assms(9) by blast
    with Some show ?thesis unfolding flush_get [OF assms(1,6)] by simp
  qed
qed

lemma flush_written: "kv_ok B \<Longrightarrow> kv_flush B d txn = Inr d' \<Longrightarrow>
    (\<And>x v v'. (x, v) \<in> set txn \<Longrightarrow> (x, v') \<in> set txn \<Longrightarrow> v = v') \<Longrightarrow> holds B d' txn"
  unfolding holds_def
proof (clarify)
  fix x v
  assume "kv_ok B" "kv_flush B d txn = Inr d'" "\<And>x v v'. (x, v) \<in> set txn \<Longrightarrow> (x, v') \<in> set txn \<Longrightarrow> v = v'" "(x, v) \<in> set txn"
  then have "map_of (rev txn) x = Some v" by (intro map_of_rev_unique) blast+
  then show "kv_get B d' x = Some v" unfolding flush_get [OF \<open>kv_ok B\<close> \<open>kv_flush B d txn = Inr d'\<close>] by simp
qed

lemma commit_within:
  assumes "kv_ok B" "startOk F L Y cs" "c \<in> set cs" "cfgBatch n F L Y B c (pre @ txn @ rest)" "holds B d pre"
    and "kv_flush B d txn = Inr d'" "within n F L Y B cs d"
  shows "within n F L Y B cs d'" "holds B d' (pre @ txn)"
    "rest = [] \<Longrightarrow> kv_get B d' (buildSchemaKey (cfgKey c)) \<noteq> None"
proof -
  let ?wb = "pre @ txn @ rest"
  have sub: "set txn \<subseteq> set ?wb" "set pre \<subseteq> set ?wb" by auto
  note keep = flush_holds [OF assms(1-4) sub(1) assms(6)]
  have new: "holds B d' txn"
    by (rule flush_written [OF assms(1,6)]) (use startOk_functional [OF assms(2-4)] in auto)
  with keep [OF assms(3,4) sub(2) assms(5)] show com: "holds B d' (pre @ txn)" by (auto simp: holds_def)
  show mark: "kv_get B d' (buildSchemaKey (cfgKey c)) \<noteq> None" if "rest = []"
    using cfgBatch_marked [OF assms(4)] com that by (auto simp: holds_def)
  show "within n F L Y B cs d'"
    unfolding within_def
  proof (intro ballI allI impI conjI)
    fix c' wb' assume c': "c' \<in> set cs" "cfgBatch n F L Y B c' wb'"
    show "(x, v) \<in> set wb'" if x: "ownKey (cfgKey c') x" "kv_get B d' x = Some v" for x v
    proof (cases "map_of (rev txn) x")
      case None
      then have "kv_get B d x = Some v" using x(2) unfolding flush_get [OF assms(1,6)] by simp
      with assms(7) c' x(1) show ?thesis unfolding within_def by blast
    next
      case (Some w)
      then have w: "(x, w) \<in> set ?wb" "w = v" using map_of_SomeD [OF Some] x(2) unfolding flush_get [OF assms(1,6)] by auto
      then have "c' = c" using startOk_apart [OF assms(2,3) c'(1) _ x(1)] cfgBatch_own [OF assms(4) w(1)] by blast
      with w cfgBatch_unique [OF assms(4)] c'(2) show ?thesis by blast
    qed
    assume known: "kv_get B d' (buildSchemaKey (cfgKey c')) \<noteq> None"
    show "holds B d' wb'"
    proof (cases "kv_get B d (buildSchemaKey (cfgKey c')) = None")
      case True
      with known obtain w where "map_of (rev txn) (buildSchemaKey (cfgKey c')) = Some w"
        unfolding flush_get [OF assms(1,6)] by (auto split: option.splits)
      then have w: "(buildSchemaKey (cfgKey c'), w) \<in> set txn" using map_of_SomeD by force
      then have "(buildSchemaKey (cfgKey c'), w) \<in> set ?wb" by simp
      then have "ownKey (cfgKey c) (buildSchemaKey (cfgKey c'))" by (rule cfgBatch_own [OF assms(4)])
      moreover have "ownKey (cfgKey c') (buildSchemaKey (cfgKey c'))" by (simp add: ownKey_def)
      ultimately have e: "c' = c" by (rule startOk_apart [OF assms(2,3) c'(1)])
      have "rest = []" using cfgBatch_marker [of n F L Y B c "pre @ txn" rest w] assms(4) w e by auto
      with e cfgBatch_unique [OF assms(4)] c'(2) com show ?thesis by simp
    next
      case False
      then have "holds B d wb'" using assms(7) c' unfolding within_def by blast
      from keep [OF c' subset_refl this] show ?thesis .
    qed
  qed
qed

lemma commit_pending:
  assumes "kv_ok B" "startOk F L Y cs" "pendingOk n F L Y B cs d (c, txn @ rest)" "kv_flush B d txn = Inr d'" "within n F L Y B cs d"
  shows "within n F L Y B cs d'" "rest \<noteq> [] \<Longrightarrow> pendingOk n F L Y B cs d' (c, rest)"
    "rest = [] \<Longrightarrow> kv_get B d' (buildSchemaKey (cfgKey c)) \<noteq> None" "pendingOk n F L Y B cs d q \<Longrightarrow> pendingOk n F L Y B cs d' q"
proof -
  from assms(3) obtain pre where c: "c \<in> set cs" and pre: "cfgBatch n F L Y B c (pre @ txn @ rest)" "holds B d pre"
    by (auto simp: pendingOk_def)
  note k = commit_within [OF assms(1,2) c pre assms(4,5)]
  show "within n F L Y B cs d'" by (rule k(1))
  show "rest = [] \<Longrightarrow> kv_get B d' (buildSchemaKey (cfgKey c)) \<noteq> None" by (rule k(3))
  show "pendingOk n F L Y B cs d' (c, rest)" if "rest \<noteq> []"
    unfolding pendingOk_def using c that pre(1) k(2) by (intro conjI exI [of _ "pre @ txn"]) simp_all
  have sub: "set txn \<subseteq> set (pre @ txn @ rest)" by auto
  assume "pendingOk n F L Y B cs d q"
  then obtain pre' where q: "fst q \<in> set cs" "snd q \<noteq> []" and p: "cfgBatch n F L Y B (fst q) (pre' @ snd q)" "holds B d pre'"
    by (auto simp: pendingOk_def)
  have "holds B d' pre'" by (rule flush_holds [OF assms(1,2) c pre(1) sub assms(4) q(1) p(1) _ p(2)]) auto
  with q p(1) show "pendingOk n F L Y B cs d' q" unfolding pendingOk_def by blast
qed

lemma start_step_inv:
  assumes "start_step n F L Y B cs st st'" "kv_ok B" "startOk F L Y cs" "startInv n F L Y B cs st"
  shows "startInv n F L Y B cs st'"
  using assms(1,4)
proof (induction rule: start_step.induct)
  case (parsed s c sc wb W Q)
  then have wb: "cfgBatch n F L Y B c ([] @ wb)" by (auto simp: cfgBatch_def)
  then have "wb \<noteq> []" using cfgBatch_marked [OF wb] by auto
  moreover have "c \<in> set cs" using parsed.prems by (simp add: startInv_def)
  ultimately have "pendingOk n F L Y B cs (ps_db s) (c, wb)"
    unfolding pendingOk_def using wb by (intro conjI exI [of _ "[]"]) (simp_all add: holds_def)
  with parsed.prems show ?case by (simp add: startInv_def)
next
  case (commit s txn d W c rest Q)
  then have p: "pendingOk n F L Y B cs (ps_db s) (c, txn @ rest)" and w: "within n F L Y B cs (ps_db s)"
    and r: "ps_cache s = None" "set_mset W \<subseteq> set cs"
    by (simp_all add: startInv_def)
  have Q: "pendingOk n F L Y B cs (ps_db s) q" if "q \<in># Q" for q using commit.prems that by (cases q) (simp add: startInv_def)
  note k = commit_pending [OF assms(2,3) p commit.hyps w]
  show ?case unfolding startInv_def using r k(1,2) k(4) [OF Q] by simp
qed (simp_all add: startInv_def)

lemma start_run_inv:
  assumes "(start_step n F L Y B cs)\<^sup>*\<^sup>* st st'" "kv_ok B" "startOk F L Y cs" "startInv n F L Y B cs st"
  shows "startInv n F L Y B cs st'"
  using assms(1,4) by (induction rule: rtranclp_induct) (auto intro: start_step_inv [OF _ assms(2,3)])

text \<open>While no write fails, no configured schema is forgotten: it is known, being written or still to be tested.\<close>

definition onTheWay :: "os_env \<Rightarrow> loader \<Rightarrow> yang_api \<Rightarrow> ('d, 'b, 'c) backend \<Rightarrow> schema_config list \<Rightarrow> ('d, 'b, 'c) start_state \<Rightarrow> bool" where
  "onTheWay F L Y B cs st \<longleftrightarrow> (\<forall>c\<in>set cs. loadable (NewSchema F L Y) c \<longrightarrow>
     ps_HasSchema B (fst st) (cfgKey c) \<or> c \<in># fst (snd st) \<or> (\<exists>rest. (c, rest) \<in># snd (snd st)))"

lemma start_step_onTheWay:
  assumes "start_step n F L Y B cs st st'" "kv_ok B" "startOk F L Y cs" "\<And>d txn. \<exists>d'. kv_flush B d txn = Inr d'"
    and "startInv n F L Y B cs st" "onTheWay F L Y B cs st"
  shows "onTheWay F L Y B cs st'"
  using assms(1,5,6)
proof (induction rule: start_step.induct)
  case (unparsed s c err W Q)
  then have "\<not> loadable (NewSchema F L Y) c" by (simp add: loadable_def)
  with unparsed.prems(2) show ?case unfolding onTheWay_def by auto
next
  case (commit s txn d W c rest Q)
  then have p: "pendingOk n F L Y B cs (ps_db s) (c, txn @ rest)" and w: "within n F L Y B cs (ps_db s)" by (simp_all add: startInv_def)
  note k = commit_pending [OF assms(2,3) p commit.hyps w]
  have mono: "ps_HasSchema B (s\<lparr>ps_db := d\<rparr>) x" if "ps_HasSchema B s x" for x
    using that unfolding ps_HasSchema_def by (auto simp: flush_get [OF assms(2) commit.hyps] split: option.splits)
  show ?case unfolding onTheWay_def
  proof (intro ballI impI)
    fix c' assume c': "c' \<in> set cs" "loadable (NewSchema F L Y) c'"
    with commit.prems(2) consider "ps_HasSchema B s (cfgKey c')" | "c' \<in># W" | rest' where "(c', rest') \<in># Q" | "c' = c"
      unfolding onTheWay_def by auto
    then show "ps_HasSchema B (fst (s\<lparr>ps_db := d\<rparr>, W, if rest = [] then Q else add_mset (c, rest) Q)) (cfgKey c') \<or>
       c' \<in># fst (snd (s\<lparr>ps_db := d\<rparr>, W, if rest = [] then Q else add_mset (c, rest) Q)) \<or>
       (\<exists>rest'. (c', rest') \<in># snd (snd (s\<lparr>ps_db := d\<rparr>, W, if rest = [] then Q else add_mset (c, rest) Q)))"
      using mono k(3) by cases (auto simp: ps_HasSchema_def)
  qed
next
  case (commit_failed s txn err W c rest Q)
  with assms(4) show ?case by (metis sum.distinct(1))
qed (auto simp: onTheWay_def)

text \<open>A known schema is answered completely: the database has exactly the pairs of its batch.\<close>

lemma start_answers:
  assumes "backend_ok B" "startInv n F L Y B cs (s', W, Q)" "c \<in> set cs" "NewSchema F L Y c = Inr sc" "startOk F L Y cs"
    and "ps_AddSchema n Y B s sc = Some (Inr (s1, x1))" "\<And>x. ownKey (cfgKey c) x \<Longrightarrow> kv_get B (ps_db s) x = None"
    and "ps_HasSchema B s' (cfgKey c)"
  shows "backs n Y B (ps_db s') (cfgKey c) (Some sc)"
proof -
  have ok: "kv_ok B" "codec_ok B" using assms(1) by (simp_all add: backend_ok_def)
  obtain r where r: "sc_root sc = Some r" "schemaOk Y r" and ck: "checkKey (Key sc) = Inr ()" using assms(3-5) by (auto simp: startOk_def)
  have key: "Key sc = cfgKey c" using keyedLoad_NewSchema assms(4) by (auto simp: keyedLoad_def)
  from assms(6) obtain wb where wb: "addBatch n Y B sc = Some (Inr wb)" "kv_flush B (ps_db s) wb = Inr (ps_db s1)"
    by (cases "addBatch n Y B sc" rule: run_cases) (auto simp: ps_AddSchema_batch lift_def)
  then have c: "cfgBatch n F L Y B c wb" using assms(4) by (auto simp: cfgBatch_def)
  have w: "within n F L Y B cs (ps_db s')" using assms(2) by (simp add: startInv_def)
  then have hw: "holds B (ps_db s') wb" and inw: "\<And>x v. ownKey (cfgKey c) x \<Longrightarrow> kv_get B (ps_db s') x = Some v \<Longrightarrow> (x, v) \<in> set wb"
    using assms(3,8) c unfolding within_def ps_HasSchema_def by blast+
  have "kv_get B (ps_db s') x = kv_get B (ps_db s1) x" if x: "ownKey (cfgKey c) x" for x
  proof (cases "map_of (rev wb) x")
    case None
    then have "kv_get B (ps_db s') x = None" using inw [OF x] unfolding map_of_rev_None by (cases "kv_get B (ps_db s') x") auto
    with None show ?thesis using flush_get [OF ok(1) wb(2), of x] assms(7) [OF x] by simp
  next
    case (Some v)
    then have "(x, v) \<in> set wb" using map_of_SomeD [OF Some] by simp
    with Some hw show ?thesis using flush_get [OF ok(1) wb(2), of x] by (auto simp: holds_def)
  qed
  moreover have "backs n Y B (ps_db s1) (cfgKey c) (Some sc)"
    unfolding key [symmetric] by (rule add_backs [OF ok r(2,1) assms(6) _ ck]) (use assms(7) key in \<open>simp add: backs_def\<close>)
  ultimately show ?thesis by (rule backs_frame [rotated])
qed

section \<open>Start-up and crashes\<close>

text \<open>C6: start-up with the persistent store survives crashes. Let the process load its configured schemas into a
  database that has nothing of them, under any schedule of the goroutines, with every batch split into
  transactions in any way, and let it end and be started again at any point and any number of times. Then at
  every moment each configured schema is either unknown, and a request for it fails, or every path in it is
  answered with the element of exactly the node it leads to, or with an error where there is none: nobody sees
  a schema that is half written, also not after a crash. And when a start comes to its end and no write
  fails, every configured schema that parses is known.\<close>

theorem startup_crash_safe:
  assumes "backend_ok B" "startOk F L Y cs" "ps_cache s = None"
    and "\<forall>c\<in>set cs. \<forall>x. ownKey (cfgKey c) x \<longrightarrow> kv_get B (ps_db s) x = None"
    and "\<forall>c\<in>set cs. \<forall>sc. NewSchema F L Y c = Inr sc \<longrightarrow> (\<exists>s1 x1. ps_AddSchema n Y B s sc = Some (Inr (s1, x1)))"
    and "(start_step n F L Y B cs)\<^sup>*\<^sup>* (s, mset cs, {#}) (s', W, Q)"
    and "c \<in> set cs" "NewSchema F L Y c = Inr sc" "sc_root sc = Some r"
    and "gr_Schema q = Some (cfgKey c)" "ToStrings (gr_Path q) False True = elem # rest" "elem # rest \<noteq> [[]]"
    and "plainNames (elem # rest)" "map_of (e_Dir (Ptr r [])) elem = None"
  shows "(if ps_HasSchema B s' (cfgKey c)
     then snd (ps_GetSchema B s' q) = Inr se \<longleftrightarrow>
       (\<exists>e. GetEntry Y sc (elem # rest) = Inr e \<and> SchemaElemFromYEntry n Y sc e True = Some (Inr se))
     else \<exists>err. snd (ps_GetSchema B s' q) = Inl err) \<and>
    ((\<forall>d txn. \<exists>d'. kv_flush B d txn = Inr d') \<longrightarrow> W = {#} \<longrightarrow> Q = {#} \<longrightarrow> ps_HasSchema B s' (cfgKey c))"
proof (rule conjI)
  have kv: "kv_ok B" using assms(1) by (simp add: backend_ok_def)
  have init: "startInv n F L Y B cs (s, mset cs, {#})"
    using assms(3,4) by (auto simp: startInv_def within_def ownKey_def)
  have inv: "startInv n F L Y B cs (s', W, Q)" by (rule start_run_inv [OF assms(6) kv assms(2) init])
  show "if ps_HasSchema B s' (cfgKey c)
     then snd (ps_GetSchema B s' q) = Inr se \<longleftrightarrow>
       (\<exists>e. GetEntry Y sc (elem # rest) = Inr e \<and> SchemaElemFromYEntry n Y sc e True = Some (Inr se))
     else \<exists>err. snd (ps_GetSchema B s' q) = Inl err"
  proof (cases "ps_HasSchema B s' (cfgKey c)")
    case True
    obtain s1 x1 where a: "ps_AddSchema n Y B s sc = Some (Inr (s1, x1))" using assms(5,7,8) by blast
    have "backs n Y B (ps_db s') (cfgKey c) (Some sc)"
      by (rule start_answers [OF assms(1) inv assms(7,8,2) a _ True]) (use assms(4,7) in blast)
    then have ans: "answering n Y B (ps_db s') sc r" and key: "Key sc = cfgKey c" using assms(9) by (auto simp: backs_def)
    have "ps_cache s' = None" using inv by (simp add: startInv_def)
    then have "snd (ps_GetSchema B s' q) = getFromDB B (ps_db s') (cfgKey c) elem rest"
      using True assms(10-12) by (auto simp: ps_GetSchema_def ps_getSchema_def keyOf_def Let_def split: sum.split)
    with ans key assms(13,14) True show ?thesis unfolding answering_def by simp
  next
    case False
    then show ?thesis using assms(10) by (simp add: ps_GetSchema_def keyOf_def)
  qed
  show "(\<forall>d txn. \<exists>d'. kv_flush B d txn = Inr d') \<longrightarrow> W = {#} \<longrightarrow> Q = {#} \<longrightarrow> ps_HasSchema B s' (cfgKey c)"
  proof (intro impI)
    assume total: "\<forall>d txn. \<exists>d'. kv_flush B d txn = Inr d'" and e: "W = {#}" "Q = {#}"
    have "startInv n F L Y B cs st \<and> onTheWay F L Y B cs st" if "(start_step n F L Y B cs)\<^sup>*\<^sup>* (s, mset cs, {#}) st" for st
      using that
    proof (induction rule: rtranclp_induct)
      case base
      then show ?case using init by (simp add: onTheWay_def)
    next
      case (step y z)
      with start_step_inv [OF step.hyps(2) kv assms(2)] start_step_onTheWay [OF step.hyps(2) kv assms(2)] total show ?case by blast
    qed
    from this [OF assms(6)] e assms(7,8) show "ps_HasSchema B s' (cfgKey c)" by (auto simp: onTheWay_def loadable_def)
  qed
qed

text \<open>One configured schema: the first start crashes after two pairs, the second writes the batch in one piece.\<close>

definition fxStartGet :: get_req where
  "fxStartGet = fxGet\<lparr>gr_Schema := Some (cfgKey fxConfig)\<rparr>"

lemma fxStart_ok: "startOk fxOs fxLoader kindApi [fxConfig]"
proof -
  have "checkKey (Key sc) = Inr ()" if "NewSchema fxOs fxLoader kindApi fxConfig = Inr sc" for sc
  proof -
    have "Key sc = cfgKey fxConfig" using keyedLoad_NewSchema that by (auto simp: keyedLoad_def)
    then show ?thesis by (simp add: checkKey_def cfgKey_def fxConfig_def)
  qed
  with fx_loaded_root fx_loaded_ok show ?thesis by (auto simp: startOk_def apart_def)
qed

lemma fxStart_run:
  assumes "cfgBatch 2 fxOs fxLoader kindApi fxBackend fxConfig wb" "2 < length wb"
  defines "s1 \<equiv> fxStore\<lparr>ps_db := rev (take 2 wb)\<rparr>"
  shows "(start_step 2 fxOs fxLoader kindApi fxBackend [fxConfig])\<^sup>*\<^sup>* (fxStore, mset [fxConfig], {#}) (s1, mset [fxConfig], {#})"
    "(start_step 2 fxOs fxLoader kindApi fxBackend [fxConfig])\<^sup>*\<^sup>* (s1, mset [fxConfig], {#}) (s1\<lparr>ps_db := rev wb @ ps_db s1\<rparr>, {#}, {#})"
proof -
  let ?step = "start_step 2 fxOs fxLoader kindApi fxBackend [fxConfig]"
  from assms(1) obtain sc where sc: "NewSchema fxOs fxLoader kindApi fxConfig = Inr sc" "addBatch 2 kindApi fxBackend sc = Some (Inr wb)"
    by (auto simp: cfgBatch_def)
  have fl: "kv_flush fxBackend d b = Inr (rev b @ d)" and get: "kv_get fxBackend = map_of" for d b by (simp_all add: fxBackend_def)
  have no: "\<not> ps_HasSchema fxBackend fxStore (cfgKey fxConfig)" by (simp add: ps_HasSchema_def get fxStore_def)
  have split: "wb = take 2 wb @ drop 2 wb" "drop 2 wb \<noteq> []" using assms(2) by simp_all
  have "(buildSchemaKey (cfgKey fxConfig), v) \<notin> set (take 2 wb)" for v
    by (rule cfgBatch_marker [OF _ split(2)]) (use assms(1) in simp)
  then have no1: "\<not> ps_HasSchema fxBackend s1 (cfgKey fxConfig)" by (simp add: ps_HasSchema_def get s1_def map_of_rev_None)
  have a: "?step (fxStore, mset [fxConfig], {#}) (fxStore, {#}, add_mset (fxConfig, take 2 wb @ drop 2 wb) {#})"
    using start_step.parsed [OF no sc] by simp
  have b: "?step (fxStore, {#}, add_mset (fxConfig, take 2 wb @ drop 2 wb) {#}) (s1, {#}, add_mset (fxConfig, drop 2 wb) {#})"
    using start_step.commit [OF fl [of "ps_db fxStore" "take 2 wb"], of 2 fxOs fxLoader kindApi "[fxConfig]" "{#}" fxConfig "drop 2 wb" "{#}"] split(2)
    by (simp add: s1_def fxStore_def)
  have c: "?step (s1, {#}, add_mset (fxConfig, drop 2 wb) {#}) (s1, mset [fxConfig], {#})" by (rule start_step.crash)
  show "?step\<^sup>*\<^sup>* (fxStore, mset [fxConfig], {#}) (s1, mset [fxConfig], {#})"
    by (rule converse_rtranclp_into_rtranclp [OF a converse_rtranclp_into_rtranclp [OF b r_into_rtranclp [where r = ?step, OF c]]])
  have d: "?step (s1, mset [fxConfig], {#}) (s1, {#}, add_mset (fxConfig, wb @ []) {#})"
    using start_step.parsed [OF no1 sc] by simp
  have e: "?step (s1, {#}, add_mset (fxConfig, wb @ []) {#}) (s1\<lparr>ps_db := rev wb @ ps_db s1\<rparr>, {#}, {#})"
    using start_step.commit [OF fl [of "ps_db s1" wb], of 2 fxOs fxLoader kindApi "[fxConfig]" "{#}" fxConfig "[]" "{#}"] by simp
  show "?step\<^sup>*\<^sup>* (s1, mset [fxConfig], {#}) (s1\<lparr>ps_db := rev wb @ ps_db s1\<rparr>, {#}, {#})"
    by (rule converse_rtranclp_into_rtranclp [OF d r_into_rtranclp [where r = ?step, OF e]])
qed

theorem startup_crash_safe_witness:
  "\<exists>s1 s2 se. (start_step 2 fxOs fxLoader kindApi fxBackend [fxConfig])\<^sup>*\<^sup>* (fxStore, mset [fxConfig], {#}) (s1, mset [fxConfig], {#}) \<and>
     length (ps_db s1) = 2 \<and>
     (start_step 2 fxOs fxLoader kindApi fxBackend [fxConfig])\<^sup>*\<^sup>* (s1, mset [fxConfig], {#}) (s2, {#}, {#}) \<and>
     ps_HasSchema fxBackend s2 (cfgKey fxConfig) \<and> snd (ps_GetSchema fxBackend s2 fxStartGet) = Inr se"
proof -
  let ?new = "NewSchema fxOs fxLoader kindApi fxConfig" and ?pes = "[''host'', ''detail-list'']"
  let ?get = "\<lambda>sc. case GetEntry kindApi sc ?pes of Inl err \<Rightarrow> Some (Inl err) | Inr e \<Rightarrow> SchemaElemFromYEntry 2 kindApi sc e True"
  have "(case ?new of Inl _ \<Rightarrow> False | Inr sc \<Rightarrow>
      map_option (map_sum (\<lambda>_. ()) (\<lambda>wb. 2 < length wb)) (addBatch 2 kindApi fxBackend sc) = Some (Inr True) \<and>
      map_option (map_sum (\<lambda>_. ()) (\<lambda>_. ())) (?get sc) = Some (Inr ()))" by code_simp
  then obtain sc where sc: "?new = Inr sc"
    and b: "map_option (map_sum (\<lambda>_. ()) (\<lambda>wb. 2 < length wb)) (addBatch 2 kindApi fxBackend sc) = Some (Inr True)"
    and g: "map_option (map_sum (\<lambda>_. ()) (\<lambda>_. ())) (?get sc) = Some (Inr ())" by (cases ?new) auto
  from b obtain wb where wb: "addBatch 2 kindApi fxBackend sc = Some (Inr wb)" "2 < length wb"
    by (cases "addBatch 2 kindApi fxBackend sc" rule: run_cases) auto
  from g obtain se where se: "?get sc = Some (Inr se)" by (cases "?get sc" rule: run_cases) auto
  then obtain e where e: "GetEntry kindApi sc ?pes = Inr e" "SchemaElemFromYEntry 2 kindApi sc e True = Some (Inr se)"
    by (cases "GetEntry kindApi sc ?pes") auto
  have fl: "kv_flush fxBackend d b = Inr (rev b @ d)" for d b by (simp add: fxBackend_def)
  define s1 where "s1 = fxStore\<lparr>ps_db := rev (take 2 wb)\<rparr>"
  have c: "cfgBatch 2 fxOs fxLoader kindApi fxBackend fxConfig wb" using sc wb(1) by (auto simp: cfgBatch_def)
  note run = fxStart_run [OF c wb(2), folded s1_def]
  let ?s2 = "s1\<lparr>ps_db := rev wb @ ps_db s1\<rparr>"
  have fresh: "\<forall>c\<in>set [fxConfig]. \<forall>x. ownKey (cfgKey c) x \<longrightarrow> kv_get fxBackend (ps_db fxStore) x = None"
    by (simp add: fxBackend_def fxStore_def)
  have writable: "\<forall>c\<in>set [fxConfig]. \<forall>sc. NewSchema fxOs fxLoader kindApi c = Inr sc \<longrightarrow>
      (\<exists>s1 x1. ps_AddSchema 2 kindApi fxBackend fxStore sc = Some (Inr (s1, x1)))"
    using sc wb(1) by (simp add: ps_AddSchema_batch lift_def fl)
  have cache: "ps_cache fxStore = None" by (simp add: fxStore_def)
  have q: "gr_Schema fxStartGet = Some (cfgKey fxConfig)" "ToStrings (gr_Path fxStartGet) False True = ''host'' # [''detail-list'']"
    "plainNames (''host'' # [''detail-list''])" "map_of (e_Dir (Ptr (rootOf [fxModule]) [])) ''host'' = None"
    by (simp_all add: fxStartGet_def fxGet_def ToStrings_def) code_simp+
  note t = startup_crash_safe [OF fxBackend_ok fxStart_ok cache fresh writable rtranclp_trans [OF run] _ sc fx_loaded_root [OF sc] q(1,2) _ q(3,4), of se]
  have has: "ps_HasSchema fxBackend ?s2 (cfgKey fxConfig)" using t [THEN conjunct2] fl by simp
  with t [THEN conjunct1] e have "snd (ps_GetSchema fxBackend ?s2 fxStartGet) = Inr se" by auto
  moreover have "length (ps_db s1) = 2" using wb(2) by (simp add: s1_def)
  ultimately show ?thesis using run has by blast
qed

end
