(* ===== verification/Spec2Isabelle.thy ===== *)
theory Spec2Isabelle
  imports Cli Process PersistStartup
begin

text \<open>
  \<^bold>\<open>A verification of schema-server.\<close>

  \<^bold>\<open>The program.\<close> The server keeps YANG schemas and answers questions about them: which element is at a
  path, which path a list of names and key values denotes, which leafs lie below a path. A schema has a key
  (name, vendor, version) and comes from YANG files that the library goyang parses into a tree of entries.
  Two stores implement the same interface: the in-memory store keeps the trees and computes every answer
  from them; the persistent store writes one key-value pair per node when a schema is added and answers
  from these pairs, with a cache in front. The server opens a store, loads the configured schemas, and
  serves requests; schemas can also be uploaded in chunks. A command line client sends the requests.

  \<^bold>\<open>Theories and sources\<close> (paths under \<open>src/\<close>).
    \<^item> \<open>Prelude\<close>: errors and results (\<open>'a res\<close> is an error or a value; \<open>'a run\<close> is a result that may
      also never come), folds that stop at an error, the functions of Go's \<open>strings\<close> and \<open>sort\<close> packages the
      code uses, and the locale \<open>strict_linear\<close>: sorting with a strict linear order does not depend on
      the order the elements come in.
    \<^item> \<open>XPath\<close>: \<open>pkg/utils/path.go\<close>. Parsing and printing of paths, the order of modules
      (interpretation \<open>module_order\<close> of \<open>strict_linear\<close>).
    \<^item> \<open>YangData\<close>, \<open>Fixture\<close>: the part of goyang's entries and types the code reads, and a small schema
      the witnesses evaluate on. An entry does not contain its parent; \<open>eptr\<close> is an entry with the chain of
      its ancestors.
    \<^item> \<open>YangEntry\<close>, \<open>SchemaObject\<close>: \<open>pkg/schema/object.go\<close> and \<open>container.go\<close>. Data children below
      choice and case nodes, lookup, module choice, \<open>BuildPath\<close>; \<open>getEntryPath\<close> and \<open>reverse\<close> of the
      persistent store.
    \<^item> \<open>References\<close>: \<open>pkg/schema/references.go\<close>. Resolution of leafrefs and the annotations of the
      nodes they refer to.
    \<^item> \<open>SchemaElem\<close>: \<open>leaf.go\<close>, \<open>leaf_list.go\<close>, \<open>container.go\<close>. The messages for leafs, leaf-lists,
      containers and their types.
    \<^item> \<open>Expand\<close>: \<open>expand.go\<close>. \<open>SchemaLoad\<close>: \<open>schema.go\<close>, \<open>helpers.go\<close>. \<open>Config\<close>: \<open>pkg/config\<close>.
    \<^item> \<open>Store\<close>: \<open>pkg/store/store.go\<close>. Keys, requests, and the locales \<open>schema_store\<close> and
      \<open>total_store\<close>: what the clients of a store rely on.
    \<^item> \<open>MemStore\<close>: \<open>memstore.go\<close>, with the interpretations of both locales. Handlers that give up the lock
      between test and write are split there; \<open>mem_step\<close> has every interleaving.
    \<^item> \<open>PersistStore\<close>, \<open>PersistPaths\<close>, \<open>PersistExpand\<close>, \<open>PersistToPath\<close>, \<open>PersistCache\<close>,
      \<open>PersistConcurrent\<close>, \<open>PersistBatch\<close>: \<open>persiststore.go\<close>. Keys, writing, lookup, deletion and reload; \<open>ToPath\<close>,
      \<open>ExpandPath\<close> and \<open>GetSchemaElements\<close>, and what they return on a stored schema; the cache; and requests
      that interleave between their accesses to the database (\<open>ps_step\<close>); what badger does behind the store,
      split write batches and the collector (\<open>gc_step\<close>).
    \<^item> \<open>Server\<close>, \<open>Rpc\<close>, \<open>Upload\<close>: \<open>pkg/server\<close>. Start-up under every schedule of its goroutines, the
      unary handlers over the \<open>Store\<close> interface (a record of operations, as in Go), the element stream, and
      the upload handler. \<open>StoresAgree\<close> compares a server with one store to a server with the other.
    \<^item> \<open>Process\<close>: \<open>main.go\<close>, and \<open>Serve\<close>, \<open>ServeHTTP\<close> and \<open>Stop\<close>. The store behind the interface
      (\<open>dispatch\<close>), the life of the process as a step relation \<open>main_step\<close> over the events of its
      environment, restart after an error, signals, and panics that end it.
    \<^item> \<open>PersistStartup\<close>: start-up with the persistent store, transaction by transaction, with crashes and
      restarts at any point (\<open>start_step\<close>).
    \<^item> \<open>Client\<close>, \<open>Commands\<close>, \<open>Cli\<close>: \<open>client\<close>. The upload command with its chunks and digests and its
      exit status; the requests of the other commands, \<open>get --all\<close>, the table of \<open>list\<close>, the recursion of \<open>bench\<close> (interpretation
      \<open>table_order\<close> of \<open>strict_linear\<close>); the variables behind the flags and their \<open>init\<close> functions, the
      connection, and one invocation of the program from its arguments to its exit status (\<open>schemac\<close>).

  \<^bold>\<open>What is shown.\<close> The theorems numbered C1, C2 and so on are the claims; the others carry them.
    \<^item> \<^emph>\<open>Refinement\<close>: the persistent store answers each path like the in-memory store, sequences of
      requests get the same replies from both, and \<open>get --all\<close> prints the same elements; the cache is
      transparent as long as the database does not change.
    \<^item> \<^emph>\<open>Round trips\<close>: parsing inverts printing, \<open>BuildPath\<close> and \<open>ToPath\<close> of the persistent store
      invert the flattening of a path, the upload command and the upload handler carry files over unchanged.
    \<^item> \<^emph>\<open>Function of each component\<close>: lookup, leafref resolution, expansion (in both stores), the
      messages, the walk, and the handlers are characterised by relations on the data tree
      (\<open>data_child\<close>, \<open>data_path\<close>, \<open>expands\<close>, \<open>follows\<close>).
    \<^item> \<^emph>\<open>Invariants and schedules\<close>: consistency of both stores under all interleavings, start-up
      under all schedules, that no crash during start-up leaves a schema half visible, what a
      reachable state of the process satisfies and when it comes back after a failure, fixed points of validation and reload.
    \<^item> \<^emph>\<open>Termination\<close>: exactly when \<open>toSchemaType\<close> returns, \<open>ExpandPath\<close> of the persistent store, start-up,
      \<open>bench\<close>.
    \<^item> \<^emph>\<open>Errors\<close>: what the code does where it does not do what it means to, among them a reload that loses
      the schema or leaves the cache stale, deletion of a version with all versions it is a prefix of, a request
      with incomplete keys that ends the process, creates that race to a mixture of two schemas, path
      traversal in uploads, digests the server rejects, and an upload that leaves out a file and succeeds.

  \<^bold>\<open>Conventions.\<close> Strings are lists of characters, one per byte. A Go map is an association list in the order of
  iteration; where the code sorts or the order cannot matter, a theorem says so. Integers are unbounded
  where they are lengths and indices, and words where the source fixes a width. A panic is the error
  \<open>GoPanic\<close>. A loop or recursion that may not end has fuel, and \<open>None\<close> is the result that has not come:
  \<open>toSchemaType\<close> needs one unit per nesting of a union or leafref (\<open>toSchemaType_total\<close> says when some
  amount is enough), \<open>ps_ExpandPath\<close> and \<open>querySchemaContainer\<close> more than the size of the
  subtree, \<open>chunkLoop\<close> more than the length of the file for a positive chunk size, \<open>gcTick\<close> more than the number of
  rewrites that can succeed (\<open>gcTick_ends\<close>).

  \<^bold>\<open>Code outside of the repository\<close> is an argument, and what is assumed of it is named: goyang's predicates and
  loader (\<open>yang_api\<close>, \<open>loader\<close>; \<open>rootOk\<close>, \<open>schemaOk\<close>, \<open>storeOk\<close> are the well-formedness
  that RFC 7950 asks of a schema), badger, ttlcache, protobuf and JSON (\<open>backend\<close>; \<open>backend_ok\<close>), the
  file systems and digests (\<open>os_env\<close>, \<open>io_env\<close>, \<open>client_env\<close>), and what the process calls (\<open>main_env\<close>: the yaml decoder,
  \<open>badger.Open\<close> with its directory lock \<open>dirLock\<close>, certificates), the collector (\<open>gc_ok\<close>), and what the client calls
  (\<open>cli_env\<close>). A write batch is applied as a whole in \<open>ps_AddSchema\<close>; \<open>PersistBatch\<close> shows that its split does not
  matter to a reader. What is committed survives the end of the process.

  \<^bold>\<open>Not modelled.\<close> Logging and its levels; how cobra reads arguments and gRPC dials, which are arguments of \<open>schemac\<close>, and
  the text form of a message; the metrics that the interceptors count; contexts that are cancelled in the middle
  of a handler, except in the element stream; a connection that breaks during a request; in the interleavings
  of requests (\<open>ps_step\<close>) a write batch is one transaction, and the pairs that a batch leaves when one of its
  messages cannot be built are not in \<open>start_step\<close>.
\<close>

end
